(* ===== verification/Prelude.thy ===== *)
theory Prelude imports Main "HOL-Library.Char_ord" "HOL-Library.Sublist"
begin

text \<open>
  Shared vocabulary of the development: errors and undefined behaviour as values of a sum
  type, the C++ \<open>char\<close> and its promotion to \<open>int\<close>, Boost's three-valued \<open>tribool\<close>,
  the reachable states of a step relation, and the four contracts that several components
  are proved against: a system with an inductive invariant, a simulation, a system whose runs
  end, and a machine that is fed one
  byte at a time.
\<close>

section \<open>Collections of facts\<close>

named_theorems char_simps \<open>promotion of characters and the character classes of the code\<close>
named_theorems step_simps \<open>one step of a component, by cases\<close>
named_theorems shape_simps \<open>facts on the shape of a result: lengths, emptiness, membership\<close>

section \<open>Results that may fail\<close>

text \<open>
  A computation that may fail has type \<open>'e + 'a\<close>: \<open>Inl\<close> the error, \<open>Inr\<close> the result.
  \<open>bind_res\<close> runs a second computation on the result of the first.
\<close>

fun bind_res :: "'e + 'a \<Rightarrow> ('a \<Rightarrow> 'e + 'b) \<Rightarrow> 'e + 'b" where
  "bind_res (Inl e) f = Inl e"
| "bind_res (Inr x) f = f x"

lemma bind_res_Inr [simp]: "bind_res m f = Inr y \<longleftrightarrow> (\<exists>x. m = Inr x \<and> f x = Inr y)"
  by (cases m) auto

lemma bind_res_Inl [simp]:
  "bind_res m f = Inl e \<longleftrightarrow> m = Inl e \<or> (\<exists>x. m = Inr x \<and> f x = Inl e)"
  by (cases m) auto

lemma bind_res_assoc:
  "bind_res (bind_res m f) g = bind_res m (\<lambda>x. bind_res (f x) g)"
  by (cases m) auto

text \<open>A \<open>for\<close> loop over the numbers of a list.\<close>

fun each :: "(nat \<Rightarrow> 's \<Rightarrow> 'e + 's) \<Rightarrow> nat list \<Rightarrow> 's \<Rightarrow> 'e + 's" where
  "each f [] s = Inr s"
| "each f (i # is) s = bind_res (f i s) (each f is)"

text \<open>A loop with an invariant does not fail.\<close>

lemma each_append: "each f (is @ js) s = bind_res (each f is s) (each f js)"
proof (induction "is" arbitrary: s)
  case (Cons a "is")
  then show ?case by (cases "f a s") simp_all
qed simp

lemma each_upt:
  assumes "P 0 s" "\<And>i s. i < n \<Longrightarrow> P i s \<Longrightarrow> \<exists>s'. f i s = Inr s' \<and> P (Suc i) s'"
  shows "\<exists>s'. each f [0..<n] s = Inr s' \<and> P n s'"
  using assms(2)
proof (induction n)
  case 0
  with assms(1) show ?case by simp
next
  case (Suc n)
  then obtain s1 where "each f [0..<n] s = Inr s1" "P n s1" by auto
  with Suc.prems [of n s1] show ?case by (auto simp: each_append)
qed

text \<open>
  The undefined behaviours of C++ that the modelled code can run into. A function whose
  code can reach one returns it as the left value of its result.
\<close>

datatype ub =
    Signed_Overflow      \<comment> \<open>an \<open>int\<close> expression leaves the range of \<open>int\<close>\<close>
  | Back_Of_Empty        \<comment> \<open>\<open>std::vector::back\<close> on an empty vector\<close>
  | Index_Out_Of_Range   \<comment> \<open>\<open>operator[]\<close> past the end of a vector\<close>
  | Division_By_Zero     \<comment> \<open>an integer division by zero\<close>
  | Null_Dereference     \<comment> \<open>a null pointer is dereferenced\<close>

definition int_min :: int where "int_min = - (2 ^ 31)"
definition int_max :: int where "int_max = 2 ^ 31 - 1"

text \<open>The value of an \<open>int\<close> expression, or the overflow (\<open>int\<close> has 32 bits).\<close>

definition int_result :: "int \<Rightarrow> ub + int" where
  "int_result x = (if int_min \<le> x \<and> x \<le> int_max then Inr x else Inl Signed_Overflow)"

lemma int_result_Inr [simp]: "int_result x = Inr y \<longleftrightarrow> y = x \<and> int_min \<le> x \<and> x \<le> int_max"
  by (auto simp: int_result_def)

lemma int_result_Inl [simp]:
  "int_result x = Inl u \<longleftrightarrow> u = Signed_Overflow \<and> \<not> (int_min \<le> x \<and> x \<le> int_max)"
  by (auto simp: int_result_def)

section \<open>Characters\<close>

text \<open>
  \<open>char\<close> is signed on the platform the build files name (x86-64 Linux): its promotion to
  \<open>int\<close> maps the bytes 128 to 255 to the negative numbers -128 to -1.
\<close>

definition char_int :: "char \<Rightarrow> int" where
  "char_int c = (let n = of_char c :: int in if n < 128 then n else n - 256)"

text \<open>\<open>static_cast<char>\<close> of an \<open>int\<close> keeps the low eight bits.\<close>

definition int_char :: "int \<Rightarrow> char" where
  "int_char i = char_of i"

abbreviation CR :: char where "CR \<equiv> CHR 0x0D"
abbreviation LF :: char where "LF \<equiv> CHR 0x0A"
abbreviation HT :: char where "HT \<equiv> CHR 0x09"
abbreviation SP :: char where "SP \<equiv> CHR '' ''"
abbreviation NUL :: char where "NUL \<equiv> CHR 0x00"

definition crlf :: string where "crlf = [CR, LF]"

lemma of_char_int_range: "0 \<le> (of_char c :: int)" "(of_char c :: int) < 256"
proof -
  have "(of_char c :: int) = of_char c mod 256"
    by (metis of_char_of char_of_char)
  then show "0 \<le> (of_char c :: int)" "(of_char c :: int) < 256"
    by (metis pos_mod_sign zero_less_numeral, metis pos_mod_bound zero_less_numeral)
qed

lemma of_char_int_char_of: "(of_char (char_of (n :: nat)) :: int) = int (n mod 256)"
  by (metis of_char_of of_nat_of_char)

lemma char_int_char_of: "n < 128 \<Longrightarrow> char_int (char_of (n :: nat)) = int n"
  by (simp add: char_int_def of_char_int_char_of Let_def)

lemma char_int_range: "-128 \<le> char_int c" "char_int c \<le> 127"
  using of_char_int_range [of c] by (auto simp: char_int_def Let_def)

lemma of_char_int_inject: "(of_char c :: int) = of_char d \<longleftrightarrow> c = d"
  by (metis char_of_char)

lemma char_int_inject [simp]: "char_int c = char_int d \<longleftrightarrow> c = d"
proof
  assume "char_int c = char_int d"
  then have "(of_char c :: int) = of_char d"
    using of_char_int_range [of c] of_char_int_range [of d]
    by (auto simp: char_int_def Let_def split: if_splits)
  then show "c = d" by (simp only: of_char_int_inject)
qed simp

lemma int_char_char_int [simp]: "int_char (char_int c) = c"
proof -
  have "char_of ((of_char c - 256) mod 256 :: int) = char_of (of_char c mod 256 :: int)"
    by simp
  then have "char_of (of_char c - 256 :: int) = c"
    by (metis char_of_char char_of_mod_256)
  then show ?thesis by (simp add: int_char_def char_int_def Let_def)
qed

lemma char_int_int_char: "-128 \<le> i \<Longrightarrow> i \<le> 127 \<Longrightarrow> char_int (int_char i) = i"
proof -
  assume "-128 \<le> i" and "i \<le> 127"
  then have "i mod 256 = (if i < 0 then i + 256 else i)" by presburger
  with \<open>-128 \<le> i\<close> \<open>i \<le> 127\<close> show ?thesis by (simp add: char_int_def int_char_def Let_def)
qed

lemma int_char_mod: "int_char (i mod 256) = int_char i"
  by (simp add: int_char_def)

section \<open>Three-valued results\<close>

text \<open>
  \<open>boost::tribool\<close>. The code tests it in two ways: \<open>if (r)\<close> holds for \<open>TTrue\<close>
  only, \<open>if (!r)\<close> for \<open>TFalse\<close> only.
\<close>

datatype tribool = TTrue | TFalse | Indeterminate

fun tri_of_bool :: "bool \<Rightarrow> tribool" where
  "tri_of_bool True = TTrue"
| "tri_of_bool False = TFalse"

lemma tri_of_bool_iff [simp]:
  "tri_of_bool b = TTrue \<longleftrightarrow> b" "tri_of_bool b = TFalse \<longleftrightarrow> \<not> b" "tri_of_bool b \<noteq> Indeterminate"
  by (cases b; simp)+

section \<open>Counting along a list\<close>

text \<open>How many elements have a property, and a sum over the elements; both when one is replaced.\<close>

definition tally :: "('b \<Rightarrow> bool) \<Rightarrow> 'b list \<Rightarrow> nat" where
  "tally P xs = length (filter P xs)"

lemma tally_update:
  "t < length xs \<Longrightarrow> tally P (xs[t := x]) + (if P (xs ! t) then 1 else 0) = tally P xs + (if P x then 1 else 0)"
proof (induction xs arbitrary: t)
  case (Cons y ys)
  then show ?case by (cases t) (auto simp: tally_def)
qed simp

lemma tally_keep: "t < length xs \<Longrightarrow> (P (xs ! t) \<longrightarrow> P x) \<Longrightarrow> tally P xs \<le> tally P (xs[t := x])"
  using tally_update [of t xs P x] by (auto split: if_splits)

lemma tally_pos: "0 < tally P xs \<Longrightarrow> \<exists>t < length xs. P (xs ! t)"
  by (auto simp: tally_def filter_empty_conv in_set_conv_nth)

lemma tally_zero: "(\<And>x. x \<in> set xs \<Longrightarrow> \<not> P x) \<Longrightarrow> tally P xs = 0"
  by (simp add: tally_def filter_empty_conv)

lemma sum_update:
  "t < length xs \<Longrightarrow> sum_list (map f (xs[t := x])) + f (xs ! t) = sum_list (map f xs) + (f x :: 'b :: comm_monoid_add)"
proof (induction xs arbitrary: t)
  case (Cons y ys)
  then show ?case by (cases t) (auto simp: ac_simps)
qed simp

lemma sum_replicate_zero [simp]: "sum_list (replicate n (0 :: 'b :: monoid_add)) = 0"
  by (induction n) simp_all

section \<open>Step relations\<close>

text \<open>The states that a step relation reaches from its initial states.\<close>

inductive reaches :: "('s \<Rightarrow> bool) \<Rightarrow> ('s \<Rightarrow> 's \<Rightarrow> bool) \<Rightarrow> 's \<Rightarrow> bool"
  for ini :: "'s \<Rightarrow> bool" and stp :: "'s \<Rightarrow> 's \<Rightarrow> bool" where
  reaches_init: "ini s \<Longrightarrow> reaches ini stp s"
| reaches_step: "reaches ini stp s \<Longrightarrow> stp s t \<Longrightarrow> reaches ini stp t"

text \<open>
  The contract of a component with an inductive invariant. A component interprets it with
  its initial states, its step relation and its invariant, and gets the invariant for
  every reachable state.
\<close>

locale invariant_system =
  fixes ini :: "'s \<Rightarrow> bool" and stp :: "'s \<Rightarrow> 's \<Rightarrow> bool" and inv :: "'s \<Rightarrow> bool"
  assumes inv_ini: "ini s \<Longrightarrow> inv s"
    and inv_stp: "inv s \<Longrightarrow> stp s t \<Longrightarrow> inv t"
begin

lemma inv_reaches: "reaches ini stp s \<Longrightarrow> inv s"
  by (induction rule: reaches.induct) (auto intro: inv_ini inv_stp)

lemma inv_rtranclp: "stp\<^sup>*\<^sup>* s t \<Longrightarrow> inv s \<Longrightarrow> inv t"
  by (induction rule: rtranclp_induct) (auto intro: inv_stp)

end

text \<open>
  The contract of a refinement: a step of the detailed system is matched by some steps, perhaps
  none, of the simpler one.
\<close>

locale simulation =
  fixes stp :: "'s \<Rightarrow> 's \<Rightarrow> bool" and abs_stp :: "'a \<Rightarrow> 'a \<Rightarrow> bool" and matches :: "'s \<Rightarrow> 'a \<Rightarrow> bool"
  assumes simulates: "matches s a \<Longrightarrow> stp s s' \<Longrightarrow> \<exists>a'. abs_stp\<^sup>*\<^sup>* a a' \<and> matches s' a'"
begin

lemma simulated_run: "stp\<^sup>*\<^sup>* s s' \<Longrightarrow> matches s a \<Longrightarrow> \<exists>a'. abs_stp\<^sup>*\<^sup>* a a' \<and> matches s' a'"
proof (induction rule: rtranclp_induct)
  case (step y z)
  then obtain b where b: "abs_stp\<^sup>*\<^sup>* a b" "matches y b" by blast
  from simulates [OF b(2) step.hyps(2)] b(1) show ?case by (meson rtranclp_trans)
qed blast

end

text \<open>
  The contract of a system that comes to an end: in the states of its invariant every step
  uses up some of what is left, and a state that is not final has a step. So all runs are
  bounded, none gets stuck before a final state, and one is reached.
\<close>

locale ending_system =
  fixes stp :: "'s \<Rightarrow> 's \<Rightarrow> bool" and inv :: "'s \<Rightarrow> bool" and left :: "'s \<Rightarrow> nat" and final :: "'s \<Rightarrow> bool"
  assumes uses_up: "inv s \<Longrightarrow> stp s t \<Longrightarrow> inv t \<and> left t < left s"
    and goes_on: "inv s \<Longrightarrow> \<not> final s \<Longrightarrow> \<exists>t. stp s t"
begin

lemma bounded_run: "(stp ^^ k) s t \<Longrightarrow> inv s \<Longrightarrow> inv t \<and> k + left t \<le> left s"
proof (induction k arbitrary: t)
  case (Suc k)
  then obtain r where r: "(stp ^^ k) s r" "stp r t" by auto
  with Suc.IH Suc.prems(2) have "inv r" "k + left r \<le> left s" by auto
  with uses_up [OF _ r(2)] show ?case by fastforce
qed simp

lemma ends: "inv s \<Longrightarrow> \<exists>t. stp\<^sup>*\<^sup>* s t \<and> inv t \<and> final t"
proof (induction "left s" arbitrary: s rule: less_induct)
  case less
  show ?case
  proof (cases "final s")
    case False
    with less.prems goes_on obtain r where "stp s r" by blast
    moreover from uses_up [OF less.prems this] less.hyps obtain t where "stp\<^sup>*\<^sup>* r t" "inv t" "final t" by blast
    ultimately show ?thesis by (blast intro: converse_rtranclp_into_rtranclp)
  qed (use less.prems in blast)
qed

end

text \<open>A thread that was created to run an \<open>io_service\<close> is in \<open>io_service::run\<close>, or past it.\<close>

datatype io_thread = In_Io | Past_Io

lemma count_update: "t < length xs \<Longrightarrow> xs ! t = In_Io \<Longrightarrow> count_list (xs[t := Past_Io]) In_Io < count_list xs In_Io"
proof (induction xs arbitrary: t)
  case (Cons x xs)
  then show ?case by (cases t) auto
qed simp

section \<open>Machines fed one byte at a time\<close>

text \<open>
  The contract of an incremental consumer of bytes: \<open>one\<close> takes a byte and either fails,
  stops with a result or goes on; \<open>many\<close> is its loop over a buffer, which returns the
  bytes left over when it stops before the end. The client's question is whether the way
  the input is cut into buffers matters.
\<close>

datatype ('s, 'r) progress = More 's | Done 'r string

locale byte_machine =
  fixes one :: "'s \<Rightarrow> char \<Rightarrow> 'e + ('s + 'r)"
    and many :: "'s \<Rightarrow> string \<Rightarrow> 'e + ('s, 'r) progress"
  assumes many_Nil: "many s [] = Inr (More s)"
    and many_Cons: "many s (c # cs) =
      bind_res (one s c) (\<lambda>r. case r of Inl s' \<Rightarrow> many s' cs | Inr x \<Rightarrow> Inr (Done x cs))"
begin

lemma many_append:
  "many s (xs @ ys) =
    bind_res (many s xs) (\<lambda>p. case p of More s' \<Rightarrow> many s' ys | Done x rest \<Rightarrow> Inr (Done x (rest @ ys)))"
proof (induction xs arbitrary: s)
  case Nil
  then show ?case by (simp add: many_Nil)
next
  case (Cons c cs)
  then show ?case
    by (cases "one s c") (auto simp: many_Cons split: sum.split)
qed

lemma many_Done_suffix:
  "many s xs = Inr (Done x rest) \<Longrightarrow> \<exists>used. used \<noteq> [] \<and> xs = used @ rest"
proof (induction xs arbitrary: s)
  case Nil
  then show ?case by (simp add: many_Nil)
next
  case (Cons c cs)
  show ?case
  proof (cases "one s c")
    case (Inr r)
    with Cons.prems have "case r of Inl s' \<Rightarrow> many s' cs = Inr (Done x rest) | Inr y \<Rightarrow> rest = cs"
      by (auto simp: many_Cons split: sum.splits)
    then show ?thesis
      by (cases r) (auto dest: Cons.IH intro: exI [of _ "[c]"] append_Cons [symmetric])
  qed (use Cons.prems in \<open>simp add: many_Cons\<close>)
qed

lemma many_More_append:
  "many s xs = Inr (More s') \<Longrightarrow> many s (xs @ ys) = many s' ys"
  by (simp add: many_append)

lemma many_Done_append:
  "many s xs = Inr (Done x rest) \<Longrightarrow> many s (xs @ ys) = Inr (Done x (rest @ ys))"
  by (simp add: many_append)

end

end
