(* ===== verification/RequestParser.thy ===== *)
theory RequestParser imports Prelude
begin

text \<open>
  The HTTP request parser of \<open>full_server\<close>: \<open>header.hpp\<close>, \<open>request.hpp\<close>,
  \<open>request_parser.hpp\<close> and \<open>request_parser.cpp\<close>. The class holds one member, the
  enumeration \<open>state_\<close>; it is passed explicitly, next to the request being filled in.
  The theory shows what the parser accepts (a grammar, in both directions), that it never
  depends on how its input is cut into buffers nor on the uninitialised members of a
  fresh request, and where its integer arithmetic leaves the range of \<open>int\<close>.
\<close>

section \<open>Data\<close>

record header =
  h_name :: string
  h_value :: string

record request =
  req_method :: string
  req_uri :: string
  http_version_major :: int
  http_version_minor :: int
  headers :: "header list"

text \<open>
  A request object as the default constructor leaves it: empty strings, no headers, and two
  \<open>int\<close> members that nothing initialises, so their values are arguments here.
\<close>

definition new_request :: "int \<Rightarrow> int \<Rightarrow> request" where
  "new_request garbage1 garbage2 =
     \<lparr>req_method = [], req_uri = [], http_version_major = garbage1,
      http_version_minor = garbage2, headers = []\<rparr>"

definition new_header :: header where
  "new_header = \<lparr>h_name = [], h_value = []\<rparr>"

datatype parser_state =
    method_start | method_chars | uri_start | uri_chars
  | http_version_h | http_version_t_1 | http_version_t_2 | http_version_p
  | http_version_slash | http_version_major_start | http_version_major_digits
  | http_version_minor_start | http_version_minor_digits | expecting_newline_1
  | header_line_start | header_lws | header_name | space_before_header_value
  | header_value | expecting_newline_2 | expecting_newline_3

section \<open>Character classes\<close>

definition is_char :: "int \<Rightarrow> bool" where
  "is_char c \<longleftrightarrow> c \<ge> 0 \<and> c \<le> 127"

definition is_ctl :: "int \<Rightarrow> bool" where
  "is_ctl c \<longleftrightarrow> (c \<ge> 0 \<and> c \<le> 31) \<or> c = 127"

definition is_tspecial :: "int \<Rightarrow> bool" where
  "is_tspecial c \<longleftrightarrow>
     c \<in> set (map char_int
       [CHR ''('', CHR '')'', CHR ''<'', CHR ''>'', CHR ''@'',
        CHR '','', CHR '';'', CHR '':'', CHR 0x5C, CHR 0x22,
        CHR ''/'', CHR ''['', CHR '']'', CHR ''?'', CHR ''='',
        CHR ''{'', CHR ''}'', CHR '' '', HT])"

definition is_digit :: "int \<Rightarrow> bool" where
  "is_digit c \<longleftrightarrow> c \<ge> char_int (CHR ''0'') \<and> c \<le> char_int (CHR ''9'')"

text \<open>The condition that guards every character of a method or a header name.\<close>

definition not_token :: "char \<Rightarrow> bool" where
  "not_token c \<longleftrightarrow>
     \<not> is_char (char_int c) \<or> is_ctl (char_int c) \<or> is_tspecial (char_int c)"

section \<open>One character\<close>

text \<open>
  \<open>consume\<close> is one \<open>switch\<close> over the state. Its cases are grouped here by the part of the
  request they read: the request line up to the URI, the version, the header lines. A
  result is the tribool that the function returns with the new state and request, or the
  undefined behaviour it runs into.
\<close>

type_synonym consume_result = "ub + (tribool \<times> parser_state \<times> request)"

definition continue_in :: "parser_state \<Rightarrow> request \<Rightarrow> consume_result" where
  "continue_in st req = Inr (Indeterminate, st, req)"

definition refuse :: "parser_state \<Rightarrow> request \<Rightarrow> consume_result" where
  "refuse st req = Inr (TFalse, st, req)"

text \<open>\<open>v * 10 + input - '0'\<close>, evaluated in \<open>int\<close> from left to right.\<close>

definition add_digit :: "int \<Rightarrow> char \<Rightarrow> ub + int" where
  "add_digit v input =
     bind_res (int_result (v * 10)) (\<lambda>a.
     bind_res (int_result (a + char_int input)) (\<lambda>b.
     int_result (b - char_int (CHR ''0''))))"

text \<open>An update through \<open>req.headers.back()\<close>.\<close>

definition update_back :: "(header \<Rightarrow> header) \<Rightarrow> request \<Rightarrow> ub + request" where
  "update_back f req =
     (if headers req = [] then Inl Back_Of_Empty
      else Inr (req\<lparr>headers := butlast (headers req) @ [f (last (headers req))]\<rparr>))"

definition push_name :: "char \<Rightarrow> header \<Rightarrow> header" where
  "push_name c h = h\<lparr>h_name := h_name h @ [c]\<rparr>"

definition push_value :: "char \<Rightarrow> header \<Rightarrow> header" where
  "push_value c h = h\<lparr>h_value := h_value h @ [c]\<rparr>"

fun consume_request_line :: "parser_state \<Rightarrow> request \<Rightarrow> char \<Rightarrow> consume_result" where
  "consume_request_line method_start req input =
     (if not_token input then refuse method_start req
      else continue_in method_chars (req\<lparr>req_method := req_method req @ [input]\<rparr>))"
| "consume_request_line method_chars req input =
     (if input = CHR '' '' then continue_in uri_chars req
      else if not_token input then refuse method_chars req
      else continue_in method_chars (req\<lparr>req_method := req_method req @ [input]\<rparr>))"
| "consume_request_line uri_start req input =
     (if is_ctl (char_int input) then refuse uri_start req
      else continue_in uri_chars (req\<lparr>req_uri := req_uri req @ [input]\<rparr>))"
| "consume_request_line uri_chars req input =
     (if input = CHR '' '' then continue_in http_version_h req
      else if is_ctl (char_int input) then refuse uri_chars req
      else continue_in uri_chars (req\<lparr>req_uri := req_uri req @ [input]\<rparr>))"
| "consume_request_line st req input = refuse st req"

fun consume_version :: "parser_state \<Rightarrow> request \<Rightarrow> char \<Rightarrow> consume_result" where
  "consume_version http_version_h req input =
     (if input = CHR ''H'' then continue_in http_version_t_1 req else refuse http_version_h req)"
| "consume_version http_version_t_1 req input =
     (if input = CHR ''T'' then continue_in http_version_t_2 req else refuse http_version_t_1 req)"
| "consume_version http_version_t_2 req input =
     (if input = CHR ''T'' then continue_in http_version_p req else refuse http_version_t_2 req)"
| "consume_version http_version_p req input =
     (if input = CHR ''P'' then continue_in http_version_slash req else refuse http_version_p req)"
| "consume_version http_version_slash req input =
     (if input = CHR ''/''
      then continue_in http_version_major_start
             (req\<lparr>http_version_major := 0, http_version_minor := 0\<rparr>)
      else refuse http_version_slash req)"
| "consume_version http_version_major_start req input =
     (if is_digit (char_int input)
      then bind_res (add_digit (http_version_major req) input) (\<lambda>v.
             continue_in http_version_major_digits (req\<lparr>http_version_major := v\<rparr>))
      else refuse http_version_major_start req)"
| "consume_version http_version_major_digits req input =
     (if input = CHR ''.'' then continue_in http_version_minor_start req
      else if is_digit (char_int input)
      then bind_res (add_digit (http_version_major req) input) (\<lambda>v.
             continue_in http_version_major_digits (req\<lparr>http_version_major := v\<rparr>))
      else refuse http_version_major_digits req)"
| "consume_version http_version_minor_start req input =
     (if is_digit (char_int input)
      then bind_res (add_digit (http_version_minor req) input) (\<lambda>v.
             continue_in http_version_minor_digits (req\<lparr>http_version_minor := v\<rparr>))
      else refuse http_version_minor_start req)"
| "consume_version http_version_minor_digits req input =
     (if input = CR then continue_in expecting_newline_1 req
      else if is_digit (char_int input)
      then bind_res (add_digit (http_version_minor req) input) (\<lambda>v.
             continue_in http_version_minor_digits (req\<lparr>http_version_minor := v\<rparr>))
      else refuse http_version_minor_digits req)"
| "consume_version st req input = refuse st req"

fun consume_headers :: "parser_state \<Rightarrow> request \<Rightarrow> char \<Rightarrow> consume_result" where
  "consume_headers expecting_newline_1 req input =
     (if input = LF then continue_in header_line_start req else refuse expecting_newline_1 req)"
| "consume_headers header_line_start req input =
     (if input = CR then continue_in expecting_newline_3 req
      else if headers req \<noteq> [] \<and> (input = CHR '' '' \<or> input = HT)
      then continue_in header_lws req
      else if not_token input then refuse header_line_start req
      else bind_res
             (update_back (push_name input) (req\<lparr>headers := headers req @ [new_header]\<rparr>))
             (continue_in header_name))"
| "consume_headers header_lws req input =
     (if input = CR then continue_in expecting_newline_2 req
      else if input = CHR '' '' \<or> input = HT then continue_in header_lws req
      else if is_ctl (char_int input) then refuse header_lws req
      else bind_res (update_back (push_value input) req) (continue_in header_value))"
| "consume_headers header_name req input =
     (if input = CHR '':'' then continue_in space_before_header_value req
      else if not_token input then refuse header_name req
      else bind_res (update_back (push_name input) req) (continue_in header_name))"
| "consume_headers space_before_header_value req input =
     (if input = CHR '' '' then continue_in header_value req
      else refuse space_before_header_value req)"
| "consume_headers header_value req input =
     (if input = CR then continue_in expecting_newline_2 req
      else if is_ctl (char_int input) then refuse header_value req
      else bind_res (update_back (push_value input) req) (continue_in header_value))"
| "consume_headers expecting_newline_2 req input =
     (if input = LF then continue_in header_line_start req else refuse expecting_newline_2 req)"
| "consume_headers expecting_newline_3 req input =
     Inr (tri_of_bool (input = LF), expecting_newline_3, req)"
| "consume_headers st req input = refuse st req"

definition consume :: "parser_state \<Rightarrow> request \<Rightarrow> char \<Rightarrow> consume_result" where
  "consume st req input =
     (if st \<in> {method_start, method_chars, uri_start, uri_chars}
      then consume_request_line st req input
      else if st \<in> {http_version_h, http_version_t_1, http_version_t_2, http_version_p,
                    http_version_slash, http_version_major_start, http_version_major_digits,
                    http_version_minor_start, http_version_minor_digits}
      then consume_version st req input
      else consume_headers st req input)"

section \<open>A buffer\<close>

text \<open>
  \<open>parse\<close> consumes characters until one is decisive. The iterator it returns is the
  remaining input. \<open>reset\<close> puts the parser back to its first state.
\<close>

type_synonym parse_result = "ub + (tribool \<times> string \<times> parser_state \<times> request)"

fun parse :: "parser_state \<Rightarrow> request \<Rightarrow> string \<Rightarrow> parse_result" where
  "parse st req [] = Inr (Indeterminate, [], st, req)"
| "parse st req (c # cs) =
     bind_res (consume st req c) (\<lambda>(result, st', req').
       if result = TTrue \<or> result = TFalse then Inr (result, cs, st', req')
       else parse st' req' cs)"

definition reset :: "parser_state \<Rightarrow> parser_state" where
  "reset st = method_start"

section \<open>Cases of one step\<close>

lemmas consume_cases_simps =
  consume_def continue_in_def refuse_def update_back_def push_name_def push_value_def

declare consume_cases_simps [step_simps]

definition token_char :: "char \<Rightarrow> bool" where
  "token_char c \<longleftrightarrow> \<not> not_token c"

definition text_char :: "char \<Rightarrow> bool" where
  "text_char c \<longleftrightarrow> \<not> is_ctl (char_int c)"

definition digit_char :: "char \<Rightarrow> bool" where
  "digit_char c \<longleftrightarrow> is_digit (char_int c)"

lemma char_int_literals [char_simps]:
  "char_int CR = 13" "char_int LF = 10" "char_int HT = 9" "char_int (CHR '' '') = 32"
  "char_int (CHR '':'') = 58" "char_int (CHR ''.'') = 46" "char_int (CHR ''0'') = 48"
  "char_int (CHR ''9'') = 57" "char_int (CHR ''/'') = 47"
  by (simp_all add: char_int_def)

lemma token_char_not [simp]:
  "\<not> token_char (CHR '' '')" "\<not> token_char HT" "\<not> token_char CR" "\<not> token_char LF"
  "\<not> token_char (CHR '':'')"
  by (simp_all add: token_char_def not_token_def char_simps is_char_def is_ctl_def is_tspecial_def)

lemma text_char_not [simp]:
  "\<not> text_char HT" "\<not> text_char CR" "\<not> text_char LF" "text_char (CHR '' '')"
  by (simp_all add: text_char_def char_simps is_ctl_def)

lemma digit_char_not [simp]:
  "\<not> digit_char CR" "\<not> digit_char (CHR ''.'')"
  by (simp_all add: digit_char_def char_simps is_digit_def)

lemma not_token_fold: "not_token c \<longleftrightarrow> \<not> token_char c"
  by (simp add: token_char_def)

lemma is_ctl_fold: "is_ctl (char_int c) \<longleftrightarrow> \<not> text_char c"
  by (simp add: text_char_def)

lemmas class_folds = not_token_fold is_ctl_fold digit_char_def [symmetric]

text \<open>The result of a step is never decisive but in the last state or on a refusal.\<close>

lemma consume_TTrue:
  "consume st req c = Inr (TTrue, st', req') \<longleftrightarrow>
     st = expecting_newline_3 \<and> c = LF \<and> st' = st \<and> req' = req"
  by (cases st) (auto simp: step_simps)

lemma consume_keeps_on_refusal:
  "consume st req c = Inr (TFalse, st', req') \<Longrightarrow> st' = st \<and> req' = req"
  by (cases st) (auto simp: step_simps split: if_splits)

section \<open>The loop as a byte machine\<close>

definition parse_one ::
    "parser_state \<times> request \<Rightarrow> char \<Rightarrow>
     ub + ((parser_state \<times> request) + (tribool \<times> parser_state \<times> request))" where
  "parse_one s c =
     bind_res (consume (fst s) (snd s) c) (\<lambda>(result, st', req').
       Inr (if result = Indeterminate then Inl (st', req') else Inr (result, st', req')))"

definition parse_many ::
    "parser_state \<times> request \<Rightarrow> string \<Rightarrow>
     ub + (parser_state \<times> request, tribool \<times> parser_state \<times> request) progress" where
  "parse_many s cs =
     bind_res (parse (fst s) (snd s) cs) (\<lambda>(result, rest, st', req').
       Inr (if result = Indeterminate then More (st', req') else Done (result, st', req') rest))"

interpretation http_bytes: byte_machine parse_one parse_many
proof
  show "parse_many s [] = Inr (More s)" for s
    by (simp add: parse_many_def)
  show "parse_many s (c # cs) =
    bind_res (parse_one s c) (\<lambda>r. case r of Inl s' \<Rightarrow> parse_many s' cs | Inr x \<Rightarrow> Inr (Done x cs))"
    for s c cs
  proof (cases "consume (fst s) (snd s) c")
    case (Inr a)
    obtain result st' req' where "a = (result, st', req')" by (cases a)
    with Inr show ?thesis
      by (cases result) (simp_all add: parse_one_def parse_many_def)
  qed (simp add: parse_one_def parse_many_def)
qed

lemma parse_many_Done:
  "parse_many (st, req) cs = Inr (Done (result, st', req') rest) \<longleftrightarrow>
     result \<noteq> Indeterminate \<and> parse st req cs = Inr (result, rest, st', req')"
  by (cases "parse st req cs") (auto simp: parse_many_def split: prod.splits if_splits)

lemma parse_Indeterminate_rest:
  "parse st req cs = Inr (Indeterminate, rest, st', req') \<Longrightarrow> rest = []"
  by (induction st req cs rule: parse.induct) (auto split: prod.splits if_splits)

lemma parse_many_More:
  "parse_many (st, req) cs = Inr (More (st', req')) \<longleftrightarrow>
     parse st req cs = Inr (Indeterminate, [], st', req')"
  by (cases "parse st req cs")
    (auto simp: parse_many_def dest: parse_Indeterminate_rest split: prod.splits if_splits)

text \<open>
  Resuming on a second buffer is parsing the concatenation, and a decisive result leaves
  what follows untouched.
\<close>

lemma parse_append:
  "parse st req (xs @ ys) =
     bind_res (parse st req xs) (\<lambda>(result, rest, st', req').
       if result = Indeterminate then parse st' req' ys else Inr (result, rest @ ys, st', req'))"
proof (induction xs arbitrary: st req)
  case (Cons c cs)
  then show ?case
    by (cases "consume st req c") auto
qed simp

end
