(* ===== verification/StdText.thy ===== *)
theory StdText imports Prelude
begin

text \<open>
  What the program uses of the text side of the C++ standard library, on byte strings:
  printing an unsigned number (\<open>std::to_string\<close>, \<open>operator<<\<close> with \<open>std::hex\<close> and
  \<open>std::setw\<close>), extracting one (\<open>operator>>\<close> with \<open>std::hex\<close> into an \<open>int\<close> or a
  \<open>size_t\<close>, \<open>std::stoull\<close>), and the searches of \<open>std::string\<close>. \<open>size_t\<close> has 64 bits; its
  values are natural numbers below \<open>2 ^ 64\<close>.
\<close>

section \<open>Sizes\<close>

definition size_max :: nat where "size_max = 2 ^ 64 - 1"

section \<open>Printing\<close>

definition digit_text :: "nat \<Rightarrow> char" where
  "digit_text d = (if d < 10 then char_of (48 + d) else char_of (87 + d))"

lemma decimal_digits:
  "digit_text 0 = CHR ''0''" "digit_text (Suc 0) = CHR ''1''" "digit_text 2 = CHR ''2''" "digit_text 3 = CHR ''3''"
  "digit_text 4 = CHR ''4''" "digit_text 5 = CHR ''5''" "digit_text 6 = CHR ''6''"
  "digit_text 7 = CHR ''7''" "digit_text 8 = CHR ''8''" "digit_text 9 = CHR ''9''"
  by code_simp+

fun base_text :: "nat \<Rightarrow> nat \<Rightarrow> string" where
  "base_text b n =
     (if n < b \<or> b < 2 then [digit_text n] else base_text b (n div b) @ [digit_text (n mod b)])"

declare base_text.simps [simp del]

definition dec_text :: "nat \<Rightarrow> string" where
  "dec_text n = base_text 10 n"

definition hex_text :: "nat \<Rightarrow> string" where
  "hex_text n = base_text 16 n"

definition int_text :: "int \<Rightarrow> string" where
  "int_text i = (if i < 0 then CHR ''-'' # dec_text (nat (- i)) else dec_text (nat i))"

text \<open>\<open>std::setw(w)\<close> with the default fill and adjustment: spaces on the left.\<close>

definition set_width :: "nat \<Rightarrow> string \<Rightarrow> string" where
  "set_width w s = replicate (w - length s) (CHR '' '') @ s"

section \<open>Extraction\<close>

definition is_space :: "char \<Rightarrow> bool" where
  "is_space c \<longleftrightarrow> char_int c = 32 \<or> (9 \<le> char_int c \<and> char_int c \<le> 13)"

text \<open>The value of a digit, in any base up to 16.\<close>

definition digit_of :: "char \<Rightarrow> nat option" where
  "digit_of c =
     (let n = char_int c in
      if 48 \<le> n \<and> n \<le> 57 then Some (nat (n - 48))
      else if 97 \<le> n \<and> n \<le> 102 then Some (nat (n - 87))
      else if 65 \<le> n \<and> n \<le> 70 then Some (nat (n - 55))
      else None)"

definition base_digit :: "nat \<Rightarrow> char \<Rightarrow> bool" where
  "base_digit b c \<longleftrightarrow> (case digit_of c of None \<Rightarrow> False | Some d \<Rightarrow> d < b)"

definition base_value :: "nat \<Rightarrow> string \<Rightarrow> nat" where
  "base_value b ds = foldl (\<lambda>v c. v * b + the (digit_of c)) 0 ds"

text \<open>An optional sign: whether it is a minus, and what follows.\<close>

fun split_sign :: "string \<Rightarrow> bool \<times> string" where
  "split_sign (c # cs) =
     (if c = CHR ''-'' then (True, cs) else if c = CHR ''+'' then (False, cs) else (False, c # cs))"
| "split_sign [] = (False, [])"

text \<open>In base 16 one zero may be followed by an \<open>x\<close>, and both are skipped.\<close>

fun skip_prefix :: "string \<Rightarrow> string" where
  "skip_prefix (z # x # cs) =
     (if z = CHR ''0'' \<and> (x = CHR ''x'' \<or> x = CHR ''X'') then cs else z # x # cs)"
| "skip_prefix cs = cs"

text \<open>
  The number at the start of a text, after white space: its sign and magnitude, or nothing
  when there is no digit where one is needed. What follows the digits is left alone.
\<close>

definition scan_number :: "nat \<Rightarrow> string \<Rightarrow> (bool \<times> nat) option" where
  "scan_number b s =
     (let (neg, s2) = split_sign (dropWhile is_space s);
          ds = takeWhile (base_digit b) (if b = 16 then skip_prefix s2 else s2)
      in if ds = [] then None else Some (neg, base_value b ds))"

text \<open>\<open>is >> std::hex >> value\<close> for an \<open>int\<close>: nothing when the stream fails.\<close>

definition extract_hex_int :: "string \<Rightarrow> int option" where
  "extract_hex_int s =
     (case scan_number 16 s of None \<Rightarrow> None
      | Some (neg, m) \<Rightarrow>
          (let v = (if neg then - int m else int m) in
           if int_min \<le> v \<and> v \<le> int_max then Some v else None))"

text \<open>A magnitude as an unsigned 64-bit value: a minus sign negates modulo \<open>2 ^ 64\<close>.\<close>

definition unsigned_of :: "bool \<Rightarrow> nat \<Rightarrow> nat" where
  "unsigned_of neg m = (if neg then (2 ^ 64 - m) mod 2 ^ 64 else m)"

text \<open>\<open>is >> std::hex >> size\<close> for a \<open>size_t\<close>.\<close>

definition extract_hex_size :: "string \<Rightarrow> nat option" where
  "extract_hex_size s =
     (case scan_number 16 s of None \<Rightarrow> None
      | Some (neg, m) \<Rightarrow> if m \<le> size_max then Some (unsigned_of neg m) else None)"

text \<open>\<open>std::stoull\<close> in base 10, with the two exceptions it throws.\<close>

datatype stoull_error = Invalid_Argument | Out_Of_Range

definition stoull :: "string \<Rightarrow> stoull_error + nat" where
  "stoull s =
     (case scan_number 10 s of None \<Rightarrow> Inl Invalid_Argument
      | Some (neg, m) \<Rightarrow> if m \<le> size_max then Inr (unsigned_of neg m) else Inl Out_Of_Range)"

section \<open>Searching\<close>

text \<open>
  A position that a search returns is \<open>Some\<close> index, and \<open>None\<close> stands for
  \<open>std::string::npos\<close>, the largest \<open>size_t\<close>, which no position of a string reaches.
\<close>

text \<open>\<open>s.find(d, pos)\<close>: the least position from \<open>pos\<close> on where \<open>d\<close> occurs.\<close>

fun find_from :: "string \<Rightarrow> string \<Rightarrow> nat \<Rightarrow> nat option" where
  "find_from [] d pos = (if d = [] then Some pos else None)"
| "find_from (c # cs) d pos = (if prefix d (c # cs) then Some pos else find_from cs d (pos + 1))"

definition str_find :: "string \<Rightarrow> string \<Rightarrow> nat \<Rightarrow> nat option" where
  "str_find s d pos = (if pos \<le> length s then find_from (drop pos s) d pos else None)"

text \<open>The last and the first position of a character that satisfies a test.\<close>

fun find_last :: "(char \<Rightarrow> bool) \<Rightarrow> string \<Rightarrow> nat option" where
  "find_last P [] = None"
| "find_last P (c # cs) =
     (case find_last P cs of Some i \<Rightarrow> Some (i + 1)
      | None \<Rightarrow> if P c then Some 0 else None)"

fun find_first :: "(char \<Rightarrow> bool) \<Rightarrow> string \<Rightarrow> nat option" where
  "find_first P [] = None"
| "find_first P (c # cs) =
     (if P c then Some 0 else map_option (\<lambda>i. i + 1) (find_first P cs))"

text \<open>\<open>s.substr(pos, n)\<close>, for \<open>pos\<close> within the string: at most \<open>n\<close> characters.\<close>

definition substr :: "string \<Rightarrow> nat \<Rightarrow> nat \<Rightarrow> string" where
  "substr s pos n = take n (drop pos s)"

text \<open>
  A text as the C string that \<open>c_str()\<close> gives to a function of the C library: it ends at
  the first zero byte.
\<close>

definition c_str :: "string \<Rightarrow> string" where
  "c_str s = takeWhile (\<lambda>c. c \<noteq> NUL) s"

section \<open>Facts: digits\<close>

lemma digit_text_cases:
  assumes "d < 16"
  obtains "d < 10" "char_int (digit_text d) = int (48 + d)"
  | "10 \<le> d" "d < 16" "char_int (digit_text d) = int (87 + d)"
proof -
  have "char_int (digit_text d) = (if d < 10 then int (48 + d) else int (87 + d))"
    using assms by (simp add: digit_text_def char_int_char_of)
  with that assms show thesis by (cases "d < 10") auto
qed

lemma digit_of_digit_text [simp]: "d < 16 \<Longrightarrow> digit_of (digit_text d) = Some d"
  by (erule digit_text_cases) (auto simp: digit_of_def Let_def nat_diff_distrib')

lemma base_digit_digit_text [simp]: "d < b \<Longrightarrow> b \<le> 16 \<Longrightarrow> base_digit b (digit_text d)"
  by (simp add: base_digit_def)

lemma digit_text_plain:
  assumes "d < 16"
  shows "\<not> is_space (digit_text d)" "digit_text d \<noteq> CHR ''-''" "digit_text d \<noteq> CHR ''+''"
    "digit_text d \<noteq> CHR ''x''" "digit_text d \<noteq> CHR ''X''"
proof -
  have "char_int (digit_text d) \<in> {48..57} \<union> {97..102}"
    using assms by (cases rule: digit_text_cases) auto
  moreover have "char_int (CHR ''-'') = 45" "char_int (CHR ''+'') = 43"
    "char_int (CHR ''x'') = 120" "char_int (CHR ''X'') = 88"
    by (simp_all add: char_int_def)
  ultimately show "\<not> is_space (digit_text d)" "digit_text d \<noteq> CHR ''-''"
    "digit_text d \<noteq> CHR ''+''" "digit_text d \<noteq> CHR ''x''" "digit_text d \<noteq> CHR ''X''"
    by (auto simp: is_space_def)
qed

section \<open>Facts: printing\<close>

lemma base_text_not_Nil [simp]: "base_text b n \<noteq> []"
  by (subst base_text.simps) simp

lemma base_text_digits:
  "2 \<le> b \<Longrightarrow> b \<le> 16 \<Longrightarrow> c \<in> set (base_text b n) \<Longrightarrow> \<exists>d < b. c = digit_text d"
proof (induction b n rule: base_text.induct)
  case (1 b n)
  show ?case
  proof (cases "n < b")
    case True
    with 1 show ?thesis by (subst (asm) (2) base_text.simps) auto
  next
    case False
    with 1 have "c \<in> set (base_text b (n div b)) \<or> c = digit_text (n mod b)"
      by (subst (asm) (2) base_text.simps) auto
    with 1 False show ?thesis by (auto intro: exI [of _ "n mod b"])
  qed
qed

lemma base_value_snoc: "base_value b (ds @ [c]) = base_value b ds * b + the (digit_of c)"
  by (simp add: base_value_def)

lemma base_value_base_text: "2 \<le> b \<Longrightarrow> b \<le> 16 \<Longrightarrow> base_value b (base_text b n) = n"
proof (induction b n rule: base_text.induct)
  case (1 b n)
  show ?case
  proof (cases "n < b")
    case True
    with 1 show ?thesis by (subst base_text.simps) (simp add: base_value_def)
  next
    case False
    have "n mod b < b" using "1.prems" by simp
    then have "n mod b < 16" using "1.prems" by linarith
    with False show ?thesis
      using 1 by (subst base_text.simps) (simp add: base_value_snoc)
  qed
qed

lemma length_base_text_le:
  "2 \<le> b \<Longrightarrow> 0 < k \<Longrightarrow> length (base_text b n) \<le> k \<longleftrightarrow> n < b ^ k"
proof (induction k arbitrary: n)
  case (Suc k)
  show ?case
  proof (cases "n < b")
    case True
    with Suc.prems have "n < b ^ Suc k"
      by (metis One_nat_def le_trans less_le_trans linorder_not_le numeral_2_eq_2 one_le_numeral
          power_increasing power_one_right Suc_le_mono le0 not_less_eq_eq)
    with True show ?thesis by (subst base_text.simps) simp
  next
    case False
    then have *: "length (base_text b n) = Suc (length (base_text b (n div b)))"
      using Suc.prems by (subst base_text.simps) simp
    show ?thesis
    proof (cases "k = 0")
      case True
      with False * show ?thesis by simp
    next
      case False
      then have "length (base_text b n) \<le> Suc k \<longleftrightarrow> n div b < b ^ k"
        using Suc * by simp
      also have "\<dots> \<longleftrightarrow> n < b ^ Suc k"
        using Suc.prems by (simp add: div_less_iff_less_mult mult.commute)
      finally show ?thesis .
    qed
  qed
qed simp

lemma dec_text_digits: "list_all (base_digit 10) (dec_text n)"
  unfolding list_all_iff dec_text_def by (auto dest: base_text_digits [rotated 2])

lemma hex_text_digits: "list_all (base_digit 16) (hex_text n)"
  unfolding list_all_iff hex_text_def by (auto dest: base_text_digits [rotated 2])

section \<open>Facts: reading what was printed\<close>

lemma split_sign_plain: "c \<noteq> CHR ''-'' \<Longrightarrow> c \<noteq> CHR ''+'' \<Longrightarrow> split_sign (c # cs) = (False, c # cs)"
  by simp

lemma skip_prefix_plain:
  "list_all (\<lambda>c. c \<noteq> CHR ''x'' \<and> c \<noteq> CHR ''X'') s \<Longrightarrow> skip_prefix s = s"
  by (cases s rule: skip_prefix.cases) auto

lemma is_space_blank [simp]: "is_space (CHR '' '')"
  by (simp add: is_space_def char_int_def)

lemma dropWhile_spaces:
  "dropWhile is_space (replicate k (CHR '' '') @ s) = dropWhile is_space s"
  by (induction k) simp_all

lemma scan_base_text:
  assumes "2 \<le> b" "b \<le> 16"
  shows "scan_number b (replicate k (CHR '' '') @ base_text b n) = Some (False, n)"
proof -
  have plain: "\<not> is_space c \<and> c \<noteq> CHR ''-'' \<and> c \<noteq> CHR ''+'' \<and> c \<noteq> CHR ''x'' \<and> c \<noteq> CHR ''X'' \<and> base_digit b c"
    if c: "c \<in> set (base_text b n)" for c
  proof -
    obtain d where "d < b" "c = digit_text d"
      using base_text_digits [OF assms c] by blast
    moreover from \<open>d < b\<close> assms have "d < 16" by simp
    ultimately show ?thesis using digit_text_plain [of d] assms by simp
  qed
  obtain c cs where s: "base_text b n = c # cs" by (cases "base_text b n") auto
  have "dropWhile is_space (base_text b n) = base_text b n"
    using plain by (simp add: s)
  moreover have "split_sign (base_text b n) = (False, base_text b n)"
    using plain by (simp add: s)
  moreover have "skip_prefix (base_text b n) = base_text b n"
    by (rule skip_prefix_plain) (use plain in \<open>auto simp: list_all_iff\<close>)
  moreover have "takeWhile (base_digit b) (base_text b n) = base_text b n"
    using plain by (simp add: takeWhile_eq_all_conv)
  ultimately show ?thesis
    using assms
    by (simp only: scan_number_def dropWhile_spaces base_value_base_text Let_def prod.case if_cancel
        base_text_not_Nil if_False)
qed

lemma stoull_dec_text: "n \<le> size_max \<Longrightarrow> stoull (dec_text n) = Inr n"
  using scan_base_text [of 10 0 n] by (simp add: stoull_def dec_text_def unsigned_of_def)

lemma extract_hex_size_hex_text:
  "n \<le> size_max \<Longrightarrow> extract_hex_size (set_width w (hex_text n)) = Some n"
  using scan_base_text [of 16 "w - length (hex_text n)" n]
  by (simp add: extract_hex_size_def hex_text_def set_width_def unsigned_of_def)

end
