(* ===== verification/HttpReply.thy ===== *)
theory HttpReply imports RequestParser StdText
begin

text \<open>
  \<open>full_server/reply.hpp\<close> and \<open>reply.cpp\<close>: the status codes, the buffers a reply is sent
  from and the stock replies. \<open>boost::lexical_cast<std::string>\<close> of a size is not part of
  the repository: it is the argument \<open>size_text\<close>, and what the code relies on is the
  locale \<open>size_printer\<close>.
\<close>

section \<open>Data\<close>

text \<open>
  The enumeration \<open>status_type\<close>. Its last constructor stands for a value that no enumerator
  names, such as that of a reply nothing has been stored in.
\<close>

datatype status_type =
    ok | created | accepted | no_content | multiple_choices | moved_permanently
  | moved_temporarily | not_modified | bad_request | unauthorized | forbidden | not_found
  | internal_server_error | not_implemented | bad_gateway | service_unavailable
  | other_status nat

fun status_code :: "status_type \<Rightarrow> nat" where
  "status_code ok = 200"
| "status_code created = 201"
| "status_code accepted = 202"
| "status_code no_content = 204"
| "status_code multiple_choices = 300"
| "status_code moved_permanently = 301"
| "status_code moved_temporarily = 302"
| "status_code not_modified = 304"
| "status_code bad_request = 400"
| "status_code unauthorized = 401"
| "status_code forbidden = 403"
| "status_code not_found = 404"
| "status_code internal_server_error = 500"
| "status_code not_implemented = 501"
| "status_code bad_gateway = 502"
| "status_code service_unavailable = 503"
| "status_code (other_status n) = n"

record reply =
  status :: status_type
  rep_headers :: "header list"
  content :: string

definition new_reply :: "nat \<Rightarrow> reply" where
  "new_reply garbage = \<lparr>status = other_status garbage, rep_headers = [], content = []\<rparr>"

section \<open>The status line\<close>

fun status_string :: "status_type \<Rightarrow> string" where
  "status_string ok = ''HTTP/1.0 200 OK'' @ crlf"
| "status_string created = ''HTTP/1.0 201 Created'' @ crlf"
| "status_string accepted = ''HTTP/1.0 202 Accepted'' @ crlf"
| "status_string no_content = ''HTTP/1.0 204 No Content'' @ crlf"
| "status_string multiple_choices = ''HTTP/1.0 300 Multiple Choices'' @ crlf"
| "status_string moved_permanently = ''HTTP/1.0 301 Moved Permanently'' @ crlf"
| "status_string moved_temporarily = ''HTTP/1.0 302 Moved Temporarily'' @ crlf"
| "status_string not_modified = ''HTTP/1.0 304 Not Modified'' @ crlf"
| "status_string bad_request = ''HTTP/1.0 400 Bad Request'' @ crlf"
| "status_string unauthorized = ''HTTP/1.0 401 Unauthorized'' @ crlf"
| "status_string forbidden = ''HTTP/1.0 403 Forbidden'' @ crlf"
| "status_string not_found = ''HTTP/1.0 404 Not Found'' @ crlf"
| "status_string internal_server_error = ''HTTP/1.0 500 Internal Server Error'' @ crlf"
| "status_string not_implemented = ''HTTP/1.0 501 Not Implemented'' @ crlf"
| "status_string bad_gateway = ''HTTP/1.0 502 Bad Gateway'' @ crlf"
| "status_string service_unavailable = ''HTTP/1.0 503 Service Unavailable'' @ crlf"
| "status_string (other_status n) = ''HTTP/1.0 500 Internal Server Error'' @ crlf"

section \<open>Buffers\<close>

text \<open>
  A \<open>const_buffer\<close> points into memory it does not own: a constant of the program, a header
  of the reply or its content. The bytes it stands for are those found there when they are
  written to the socket.
\<close>

datatype buffer =
    Static_Buffer string
  | Name_Buffer nat
  | Value_Buffer nat
  | Content_Buffer

fun buffer_bytes :: "reply \<Rightarrow> buffer \<Rightarrow> string" where
  "buffer_bytes rep (Static_Buffer s) = s"
| "buffer_bytes rep (Name_Buffer i) = h_name (rep_headers rep ! i)"
| "buffer_bytes rep (Value_Buffer i) = h_value (rep_headers rep ! i)"
| "buffer_bytes rep Content_Buffer = content rep"

definition name_value_separator :: string where
  "name_value_separator = '': ''"

definition to_buffer :: "status_type \<Rightarrow> buffer" where
  "to_buffer st = Static_Buffer (status_string st)"

definition to_buffers :: "reply \<Rightarrow> buffer list" where
  "to_buffers rep =
     [to_buffer (status rep)] @
     concat (map (\<lambda>i. [Name_Buffer i, Static_Buffer name_value_separator,
                       Value_Buffer i, Static_Buffer crlf]) [0..<length (rep_headers rep)]) @
     [Static_Buffer crlf, Content_Buffer]"

text \<open>The bytes of a gather-write, read from the reply as it is at that moment.\<close>

definition gather :: "reply \<Rightarrow> buffer list \<Rightarrow> string" where
  "gather rep bufs = concat (map (buffer_bytes rep) bufs)"

section \<open>Stock replies\<close>

fun stock_content :: "status_type \<Rightarrow> string" where
  "stock_content ok = ''''"
| "stock_content created =
     ''<html>'' @
     ''<head><title>Created</title></head>'' @
     ''<body><h1>201 Created</h1></body>'' @
     ''</html>''"
| "stock_content accepted =
     ''<html>'' @
     ''<head><title>Accepted</title></head>'' @
     ''<body><h1>202 Accepted</h1></body>'' @
     ''</html>''"
| "stock_content no_content =
     ''<html>'' @
     ''<head><title>No Content</title></head>'' @
     ''<body><h1>204 Content</h1></body>'' @
     ''</html>''"
| "stock_content multiple_choices =
     ''<html>'' @
     ''<head><title>Multiple Choices</title></head>'' @
     ''<body><h1>300 Multiple Choices</h1></body>'' @
     ''</html>''"
| "stock_content moved_permanently =
     ''<html>'' @
     ''<head><title>Moved Permanently</title></head>'' @
     ''<body><h1>301 Moved Permanently</h1></body>'' @
     ''</html>''"
| "stock_content moved_temporarily =
     ''<html>'' @
     ''<head><title>Moved Temporarily</title></head>'' @
     ''<body><h1>302 Moved Temporarily</h1></body>'' @
     ''</html>''"
| "stock_content not_modified =
     ''<html>'' @
     ''<head><title>Not Modified</title></head>'' @
     ''<body><h1>304 Not Modified</h1></body>'' @
     ''</html>''"
| "stock_content bad_request =
     ''<html>'' @
     ''<head><title>Bad Request</title></head>'' @
     ''<body><h1>400 Bad Request</h1></body>'' @
     ''</html>''"
| "stock_content unauthorized =
     ''<html>'' @
     ''<head><title>Unauthorized</title></head>'' @
     ''<body><h1>401 Unauthorized</h1></body>'' @
     ''</html>''"
| "stock_content forbidden =
     ''<html>'' @
     ''<head><title>Forbidden</title></head>'' @
     ''<body><h1>403 Forbidden</h1></body>'' @
     ''</html>''"
| "stock_content not_found =
     ''<html>'' @
     ''<head><title>Not Found</title></head>'' @
     ''<body><h1>404 Not Found</h1></body>'' @
     ''</html>''"
| "stock_content internal_server_error =
     ''<html>'' @
     ''<head><title>Internal Server Error</title></head>'' @
     ''<body><h1>500 Internal Server Error</h1></body>'' @
     ''</html>''"
| "stock_content not_implemented =
     ''<html>'' @
     ''<head><title>Not Implemented</title></head>'' @
     ''<body><h1>501 Not Implemented</h1></body>'' @
     ''</html>''"
| "stock_content bad_gateway =
     ''<html>'' @
     ''<head><title>Bad Gateway</title></head>'' @
     ''<body><h1>502 Bad Gateway</h1></body>'' @
     ''</html>''"
| "stock_content service_unavailable =
     ''<html>'' @
     ''<head><title>Service Unavailable</title></head>'' @
     ''<body><h1>503 Service Unavailable</h1></body>'' @
     ''</html>''"
| "stock_content (other_status n) =
     ''<html>'' @
     ''<head><title>Internal Server Error</title></head>'' @
     ''<body><h1>500 Internal Server Error</h1></body>'' @
     ''</html>''"

text \<open>\<open>std::vector::resize\<close>: cut, or fill up with empty headers.\<close>

definition resize :: "nat \<Rightarrow> header list \<Rightarrow> header list" where
  "resize n hs = take n hs @ replicate (n - length hs) new_header"

text \<open>The two headers of every reply, stored member by member in a vector of size two.\<close>

definition set_headers :: "(nat \<Rightarrow> string) \<Rightarrow> string \<Rightarrow> reply \<Rightarrow> reply" where
  "set_headers size_text mime rep =
     (let hs = resize 2 (rep_headers rep);
          hs = hs[0 := (hs ! 0)\<lparr>h_name := ''Content-Length''\<rparr>];
          hs = hs[0 := (hs ! 0)\<lparr>h_value := size_text (length (content rep))\<rparr>];
          hs = hs[1 := (hs ! 1)\<lparr>h_name := ''Content-Type''\<rparr>];
          hs = hs[1 := (hs ! 1)\<lparr>h_value := mime\<rparr>]
      in rep\<lparr>rep_headers := hs\<rparr>)"

definition stock_reply :: "(nat \<Rightarrow> string) \<Rightarrow> status_type \<Rightarrow> reply" where
  "stock_reply size_text st =
     set_headers size_text ''text/html''
       \<lparr>status = st, rep_headers = [], content = stock_content st\<rparr>"

section \<open>Printing a size\<close>

text \<open>
  What a reply relies on: the text of a size is its decimal numeral. The standard
  library's own conversion satisfies it.
\<close>

locale size_printer =
  fixes size_text :: "nat \<Rightarrow> string"
  assumes size_text_digits: "list_all (base_digit 10) (size_text n)"
    and size_text_value: "base_value 10 (size_text n) = n"
begin

lemma size_text_plain: "CR \<notin> set (size_text n)"
  using size_text_digits [of n]
  by (auto simp: list_all_iff base_digit_def digit_of_def char_int_def Let_def)

end

interpretation std_text: size_printer dec_text
  by unfold_locales (simp_all add: dec_text_digits, simp add: dec_text_def base_value_base_text)

section \<open>Shape of a reply\<close>

text \<open>The reply of a status, a content type and a content.\<close>

definition full_reply :: "(nat \<Rightarrow> string) \<Rightarrow> status_type \<Rightarrow> string \<Rightarrow> string \<Rightarrow> reply" where
  "full_reply size_text st mime body =
     \<lparr>status = st,
      rep_headers = [\<lparr>h_name = ''Content-Length'', h_value = size_text (length body)\<rparr>,
                     \<lparr>h_name = ''Content-Type'', h_value = mime\<rparr>],
      content = body\<rparr>"

lemma resize_2: "\<exists>a b. resize 2 hs = [a, b]"
proof -
  have "length (resize 2 hs) = 2" by (simp add: resize_def)
  then show ?thesis by (auto simp: numeral_2_eq_2 length_Suc_conv)
qed

lemma set_headers_full:
  "set_headers size_text mime rep = full_reply size_text (status rep) mime (content rep)"
proof -
  from resize_2 obtain a b where "resize 2 (rep_headers rep) = [a, b]" by blast
  then show ?thesis by (cases a; cases b) (simp add: set_headers_def full_reply_def Let_def)
qed

lemma stock_reply_full:
  "stock_reply size_text st = full_reply size_text st ''text/html'' (stock_content st)"
  by (simp add: stock_reply_def set_headers_full)

section \<open>Serialisation\<close>

definition header_text :: "header \<Rightarrow> string" where
  "header_text h = h_name h @ '': '' @ h_value h @ crlf"

lemma concat_map_nth:
  "concat (map (\<lambda>i. f (xs ! i)) [0..<length xs]) = concat (map f xs)"
proof -
  have "map (\<lambda>i. f (xs ! i)) [0..<length xs] = map f xs" by (rule nth_equalityI) simp_all
  then show ?thesis by simp
qed

lemma gather_to_buffers:
  "gather rep (to_buffers rep) =
     status_string (status rep) @ concat (map header_text (rep_headers rep)) @ crlf @ content rep"
proof -
  have "concat (map (buffer_bytes rep) (concat (map (\<lambda>i. [Name_Buffer i,
      Static_Buffer name_value_separator, Value_Buffer i, Static_Buffer crlf]) is))) =
      concat (map (\<lambda>i. header_text (rep_headers rep ! i)) is)" for "is"
    by (induction "is") (simp_all add: header_text_def name_value_separator_def)
  then show ?thesis
    by (simp add: gather_def to_buffers_def to_buffer_def concat_map_nth)
qed

text \<open>
  How the other side reads a reply: lines that end in CR LF up to an empty one, then the
  content.
\<close>

fun take_line :: "string \<Rightarrow> (string \<times> string) option" where
  "take_line (c # d # s) =
     (if c = CR \<and> d = LF then Some ([], s) else map_option (apfst (Cons c)) (take_line (d # s)))"
| "take_line _ = None"

lemma take_line_length: "take_line s = Some (l, r) \<Longrightarrow> length r < length s"
  by (induction s arbitrary: l rule: take_line.induct) (auto split: if_splits)

function read_head :: "string \<Rightarrow> (string list \<times> string) option" where
  "read_head s =
     (case take_line s of None \<Rightarrow> None
      | Some (l, r) \<Rightarrow> if l = [] then Some ([], r) else map_option (apfst (Cons l)) (read_head r))"
  by pat_completeness auto
termination
  by (relation "measure length") (auto dest: take_line_length)

declare read_head.simps [simp del]

lemma take_line_append: "CR \<notin> set l \<Longrightarrow> take_line (l @ crlf @ r) = Some (l, r)"
proof (induction l)
  case (Cons c l)
  then show ?case by (cases "l @ crlf @ r") (auto simp: crlf_def)
qed (simp add: crlf_def)

lemma read_head_line:
  "CR \<notin> set l \<Longrightarrow> l \<noteq> [] \<Longrightarrow>
     read_head (l @ crlf @ r) = map_option (apfst (Cons l)) (read_head r)"
  by (subst read_head.simps) (simp add: take_line_append)

lemma read_head_end: "read_head (crlf @ r) = Some ([], r)"
  using take_line_append [of "[]" r] by (subst read_head.simps) simp

lemma read_head_three:
  "\<lbrakk> CR \<notin> set a; a \<noteq> []; CR \<notin> set b; b \<noteq> []; CR \<notin> set c; c \<noteq> [] \<rbrakk>
   \<Longrightarrow> read_head (a @ crlf @ b @ crlf @ c @ crlf @ crlf @ body) = Some ([a, b, c], body)"
  by (simp add: read_head_line read_head_end)

section \<open>What the statuses say\<close>

text \<open>The code and the phrase that HTTP assigns to a status; an unnamed one counts as 500.\<close>

definition wire_code :: "status_type \<Rightarrow> nat" where
  "wire_code st = (case st of other_status n \<Rightarrow> 500 | _ \<Rightarrow> status_code st)"

fun reason :: "status_type \<Rightarrow> string" where
  "reason ok = ''OK''"
| "reason created = ''Created''"
| "reason accepted = ''Accepted''"
| "reason no_content = ''No Content''"
| "reason multiple_choices = ''Multiple Choices''"
| "reason moved_permanently = ''Moved Permanently''"
| "reason moved_temporarily = ''Moved Temporarily''"
| "reason not_modified = ''Not Modified''"
| "reason bad_request = ''Bad Request''"
| "reason unauthorized = ''Unauthorized''"
| "reason forbidden = ''Forbidden''"
| "reason not_found = ''Not Found''"
| "reason internal_server_error = ''Internal Server Error''"
| "reason not_implemented = ''Not Implemented''"
| "reason bad_gateway = ''Bad Gateway''"
| "reason service_unavailable = ''Service Unavailable''"
| "reason (other_status n) = ''Internal Server Error''"

definition status_text :: "status_type \<Rightarrow> string" where
  "status_text st = dec_text (wire_code st) @ '' '' @ reason st"

definition html_page :: "string \<Rightarrow> string \<Rightarrow> string" where
  "html_page title heading =
     ''<html><head><title>'' @ title @ ''</title></head><body><h1>'' @ heading @ ''</h1></body></html>''"

lemma dec_text_codes:
  "dec_text 200 = ''200''" "dec_text 201 = ''201''" "dec_text 202 = ''202''" "dec_text 204 = ''204''"
  "dec_text 300 = ''300''" "dec_text 301 = ''301''" "dec_text 302 = ''302''" "dec_text 304 = ''304''"
  "dec_text 400 = ''400''" "dec_text 401 = ''401''" "dec_text 403 = ''403''" "dec_text 404 = ''404''"
  "dec_text 500 = ''500''" "dec_text 501 = ''501''" "dec_text 502 = ''502''" "dec_text 503 = ''503''"
  by code_simp+

lemma status_string_eq: "status_string st = (''HTTP/1.0 '' @ status_text st) @ crlf"
  by (cases st) (simp_all add: status_text_def wire_code_def dec_text_codes)

lemma status_text_plain: "CR \<notin> set (status_text st)"
  by (cases st) (simp_all add: status_text_def wire_code_def dec_text_codes)

lemma full_reply_on_wire:
  assumes "size_printer size_text" and "CR \<notin> set mime"
  shows "read_head (gather (full_reply size_text st mime body) (to_buffers (full_reply size_text st mime body))) =
    Some ([''HTTP/1.0 '' @ status_text st,
           ''Content-Length: '' @ size_text (length body),
           ''Content-Type: '' @ mime], body)"
proof -
  let ?l1 = "''HTTP/1.0 '' @ status_text st"
  let ?l2 = "''Content-Length: '' @ size_text (length body)"
  let ?l3 = "''Content-Type: '' @ mime"
  have "gather (full_reply size_text st mime body) (to_buffers (full_reply size_text st mime body)) =
      ?l1 @ crlf @ ?l2 @ crlf @ ?l3 @ crlf @ crlf @ body"
    by (simp add: gather_to_buffers full_reply_def header_text_def status_string_eq)
  moreover have "CR \<notin> set ?l1" "CR \<notin> set ?l2" "CR \<notin> set ?l3"
    using assms size_printer.size_text_plain [OF assms(1)] status_text_plain [of st] by auto
  ultimately show ?thesis using read_head_three [of ?l1 ?l2 ?l3 body] by simp
qed

text \<open>
Every stock reply, gathered from its buffers and read line by line up to the empty line,
gives a status line with the code and the phrase of its status, a content length that is the
size of the page, the type text/html, and then exactly the page.
\<close>
lemma stock_reply_on_wire:
  assumes "size_printer size_text"
  shows "read_head (gather (stock_reply size_text st) (to_buffers (stock_reply size_text st))) =
    Some ([''HTTP/1.0 '' @ status_text st,
           ''Content-Length: '' @ size_text (length (stock_content st)),
           ''Content-Type: text/html''], stock_content st)"
  using full_reply_on_wire [OF assms, of "''text/html''" st "stock_content st"]
  by (simp add: stock_reply_full)

text \<open>
The page of a stock reply shows the code and the phrase that its status line announces, for
every status but two: that of 200 is empty, and that of 204 (No Content) says "204 Content".
\<close>
lemma stock_page_agrees:
  "stock_content st = html_page (reason st) (status_text st) \<longleftrightarrow> st \<notin> {ok, no_content}"
  by (cases st) (simp_all add: html_page_def status_text_def wire_code_def dec_text_codes)

end
