(* ===== verification/MimeTypes.thy ===== *)
theory MimeTypes imports Prelude
begin

text \<open>
  \<open>full_server/mime_types.cpp\<close>: the table of file extensions and its search. The C array
  ends with a null entry, the list with its end.
\<close>

definition mappings :: "(string \<times> string) list" where
  "mappings =
     [(''gif'', ''image/gif''),
      (''htm'', ''text/html''),
      (''html'', ''text/html''),
      (''jpg'', ''image/jpeg''),
      (''png'', ''image/png'')]"

fun search_mappings :: "(string \<times> string) list \<Rightarrow> string \<Rightarrow> string" where
  "search_mappings [] extension = ''text/plain''"
| "search_mappings ((ext, mime_type) # m) extension =
     (if ext = extension then mime_type else search_mappings m extension)"

definition extension_to_type :: "string \<Rightarrow> string" where
  "extension_to_type extension = search_mappings mappings extension"

lemma search_mappings_map_of:
  "search_mappings m e = (case map_of m e of None \<Rightarrow> ''text/plain'' | Some t \<Rightarrow> t)"
  by (induction m) auto

lemma extension_to_type_range:
  "extension_to_type e \<in> {''image/gif'', ''text/html'', ''image/jpeg'', ''image/png'', ''text/plain''}"
  by (simp add: extension_to_type_def mappings_def)

text \<open>An extension with an upper-case letter is not in the table.\<close>

lemma extension_to_type_plain:
  "e \<notin> {''gif'', ''htm'', ''html'', ''jpg'', ''png''} \<Longrightarrow> extension_to_type e = ''text/plain''"
  by (auto simp: extension_to_type_def mappings_def)

end
