(* ===== verification/RequestHandler.thy ===== *)
theory RequestHandler imports HttpReply MimeTypes
begin

text \<open>
  \<open>full_server/request_handler.cpp\<close>: URL decoding and the reply to a request. The file
  system is the argument \<open>fs\<close>: it gives the bytes of the file that a path opens for
  reading, or nothing when it does not open.
\<close>

section \<open>URL decoding\<close>

text \<open>
  The loop over \<open>in\<close> runs on the characters still to be read; \<open>i + 3 <= in.size()\<close> says
  that two more follow the percent sign. The result is the returned flag with \<open>out\<close>.
\<close>

fun url_decode_from :: "string \<Rightarrow> string \<Rightarrow> bool \<times> string" where
  "url_decode_from [] out = (True, out)"
| "url_decode_from (c # rest) out =
     (if c = CHR ''%'' then
        (if 2 \<le> length rest then
           (case extract_hex_int (take 2 rest) of
              Some val \<Rightarrow> url_decode_from (drop 2 rest) (out @ [int_char val])
            | None \<Rightarrow> (False, out))
         else (False, out))
      else if c = CHR ''+'' then url_decode_from rest (out @ [CHR '' ''])
      else url_decode_from rest (out @ [c]))"

definition url_decode :: "string \<Rightarrow> bool \<times> string" where
  "url_decode inp = url_decode_from inp []"

section \<open>The path of a request\<close>

text \<open>
  The decoded path with \<open>index.html\<close> added to a directory, or nothing when the request is
  refused.
\<close>

definition request_path :: "string \<Rightarrow> string option" where
  "request_path u =
     (let (decoded, path) = url_decode u in
      if \<not> decoded then None
      else if path = [] \<or> path ! 0 \<noteq> CHR ''/'' \<or> str_find path ''..'' 0 \<noteq> None then None
      else if path ! (length path - 1) = CHR ''/'' then Some (path @ ''index.html'')
      else Some path)"

text \<open>
  The part after the last dot, when that dot comes after the last slash (a position that is
  \<open>npos\<close> is larger than every other).
\<close>

definition path_extension :: "string \<Rightarrow> string" where
  "path_extension path =
     (let last_slash_pos = find_last (\<lambda>c. c = CHR ''/'') path;
          last_dot_pos = find_last (\<lambda>c. c = CHR ''.'') path
      in case last_dot_pos of None \<Rightarrow> []
         | Some d \<Rightarrow>
             (case last_slash_pos of None \<Rightarrow> []
              | Some s \<Rightarrow> if d > s then drop (d + 1) path else []))"

section \<open>The reply\<close>

text \<open>
  \<open>is.read(buf, 512)\<close> takes at most 512 bytes of what is left of the file; the loop appends
  what it got and ends when it got nothing.
\<close>

function read_chunks :: "string \<Rightarrow> string \<Rightarrow> string" where
  "read_chunks left acc =
     (let buf = take 512 left in
      if length buf > 0 then read_chunks (drop 512 left) (acc @ buf) else acc)"
  by pat_completeness auto
termination
  by (relation "measure (\<lambda>(left, acc). length left)") (auto simp: Let_def)

declare read_chunks.simps [simp del]

definition handle_request ::
    "(nat \<Rightarrow> string) \<Rightarrow> (string \<Rightarrow> string option) \<Rightarrow> string \<Rightarrow> request \<Rightarrow> reply \<Rightarrow> reply" where
  "handle_request size_text fs doc_root req rep =
     (case request_path (req_uri req) of
        None \<Rightarrow> stock_reply size_text bad_request
      | Some path \<Rightarrow>
          (let extension = path_extension path;
               full_path = doc_root @ path
           in case fs (c_str full_path) of
                None \<Rightarrow> stock_reply size_text not_found
              | Some bytes \<Rightarrow>
                  set_headers size_text (extension_to_type extension)
                    (rep\<lparr>status := ok, content := read_chunks bytes (content rep)\<rparr>)))"

section \<open>Facts: URL decoding\<close>

lemma url_decode_from_acc:
  "url_decode_from s (pre @ out) = (let (b, r) = url_decode_from s out in (b, pre @ r))"
proof (induction s out rule: url_decode_from.induct)
  case (2 c rest out)
  then show ?case by (auto simp: Let_def split: option.splits)
qed simp

lemma url_decode_step:
  "url_decode_from s out = (let (b, r) = url_decode s in (b, out @ r))"
  using url_decode_from_acc [of s out "[]"] by (simp add: url_decode_def)

definition is_hex :: "char \<Rightarrow> bool" where
  "is_hex c \<longleftrightarrow> base_digit 16 c"

definition hex_value :: "char \<Rightarrow> int" where
  "hex_value c = int (the (digit_of c))"

text \<open>
  What the two characters after a percent sign stand for: two hexadecimal digits, but also
  one digit before a character that is none, and a digit after a sign or a white space.
\<close>

definition escape_value :: "char \<Rightarrow> char \<Rightarrow> int option" where
  "escape_value x y =
     (if is_hex x then
        (if is_hex y then Some (16 * hex_value x + hex_value y)
         else if x = CHR ''0'' \<and> (y = CHR ''x'' \<or> y = CHR ''X'') then None
         else Some (hex_value x))
      else if \<not> is_hex y then None
      else if x = CHR ''-'' then Some (- hex_value y)
      else if x = CHR ''+'' \<or> is_space x then Some (hex_value y)
      else None)"

lemma is_hex_char_int:
  "is_hex c \<longleftrightarrow> char_int c \<in> {48..57} \<union> {97..102} \<union> {65..70}"
  by (auto simp: is_hex_def base_digit_def digit_of_def Let_def)

lemma is_space_char_int: "is_space c \<longleftrightarrow> char_int c \<in> {9..13} \<union> {32}"
  by (auto simp: is_space_def)

lemma char_int_signs:
  "char_int (CHR ''-'') = 45" "char_int (CHR ''+'') = 43" "char_int (CHR ''x'') = 120"
  "char_int (CHR ''X'') = 88" "char_int (CHR ''0'') = 48"
  by (simp_all add: char_int_def)

lemma char_eq_char_int: "c = d \<longleftrightarrow> char_int c = char_int d"
  by simp

lemma hex_value_range: "is_hex c \<Longrightarrow> 0 \<le> hex_value c \<and> hex_value c < 16"
  by (auto simp: is_hex_def base_digit_def hex_value_def split: option.splits)

lemma hex_not_special:
  assumes "is_hex c"
  shows "\<not> is_space c" "c \<noteq> CHR ''-''" "c \<noteq> CHR ''+''" "c \<noteq> CHR ''x''" "c \<noteq> CHR ''X''"
  using assms by (auto simp: is_hex_char_int is_space_char_int char_int_signs)

lemma space_not_sign: "is_space c \<Longrightarrow> c \<noteq> CHR ''-'' \<and> c \<noteq> CHR ''+''"
  by (auto simp: is_space_char_int char_int_signs)

text \<open>The number of one digit, and of two.\<close>

lemma base_digit_hex: "base_digit 16 = is_hex"
  by (simp add: is_hex_def fun_eq_iff)

lemma scan_hex: "scan_number 16 s =
   (let (neg, s2) = split_sign (dropWhile is_space s); ds = takeWhile is_hex (skip_prefix s2)
    in if ds = [] then None else Some (neg, base_value 16 ds))"
  by (simp add: scan_number_def base_digit_hex)

lemma base_value_one: "is_hex c \<Longrightarrow> base_value 16 [c] = nat (hex_value c)"
  by (simp add: base_value_def hex_value_def)

lemma base_value_two:
  "is_hex c \<Longrightarrow> is_hex d \<Longrightarrow> base_value 16 [c, d] = nat (16 * hex_value c + hex_value d)"
  by (simp add: base_value_def hex_value_def nat_add_distrib nat_mult_distrib)

lemma sign_not_special:
  "\<not> is_space (CHR ''-'')" "\<not> is_space (CHR ''+'')" "\<not> is_hex (CHR ''-'')" "\<not> is_hex (CHR ''+'')"
  by (auto simp: is_space_char_int is_hex_char_int char_int_signs)

lemma zero_is_hex: "is_hex (CHR ''0'')" "hex_value (CHR ''0'') = 0"
  by (auto simp: is_hex_char_int char_int_signs hex_value_def digit_of_def Let_def)

lemma scan_hex_first:
  assumes "is_hex x"
  shows "scan_number 16 [x, y] =
     (if is_hex y then Some (False, nat (16 * hex_value x + hex_value y))
      else if x = CHR ''0'' \<and> (y = CHR ''x'' \<or> y = CHR ''X'') then None
      else Some (False, nat (hex_value x)))"
proof (cases "is_hex y")
  case True
  then show ?thesis using assms hex_not_special [of x] hex_not_special [of y]
    by (simp add: scan_hex base_value_two)
next
  case False
  then show ?thesis using assms hex_not_special [of x]
    by (simp add: scan_hex base_value_one)
qed

lemma scan_hex_second:
  assumes "\<not> is_hex x"
  shows "scan_number 16 [x, y] =
     (if \<not> is_hex y then None
      else if x = CHR ''-'' then Some (True, nat (hex_value y))
      else if x = CHR ''+'' \<or> is_space x then Some (False, nat (hex_value y))
      else None)"
proof (cases "is_space x")
  case True
  then have "scan_number 16 [x, y] = scan_number 16 [y]" by (simp add: scan_number_def)
  moreover have "scan_number 16 [y] = (if is_hex y then Some (False, nat (hex_value y)) else None)"
    using hex_not_special [of y] sign_not_special
    by (cases "is_hex y") (auto simp: scan_hex base_value_one)
  ultimately show ?thesis using True space_not_sign [of x] by simp
next
  case False
  note ns = this
  show ?thesis
  proof (cases "x = CHR ''-'' \<or> x = CHR ''+''")
    case True
    then show ?thesis using sign_not_special
      by (cases "is_hex y") (auto simp: scan_hex base_value_one)
  next
    case False
    moreover have "x \<noteq> CHR ''0''" using assms zero_is_hex by auto
    ultimately show ?thesis using ns assms by (simp add: scan_hex)
  qed
qed

lemma extract_hex_int_two: "extract_hex_int [x, y] = escape_value x y"
  using hex_value_range [of x] hex_value_range [of y]
  by (cases "is_hex x")
    (auto simp: extract_hex_int_def scan_hex_first scan_hex_second escape_value_def int_min_def
      int_max_def)

end
