(* ===== verification/RequestGrammar.thy ===== *)
theory RequestGrammar imports RequestParser StdText
begin

text \<open>
  What the request parser accepts. The accepted texts are described by a grammar that does
  not mention the parser's states; the theorems show that the parser accepts exactly those
  texts and builds exactly the request the grammar assigns to them, which gives both the
  well-formedness of accepted requests and the acceptance of printed ones.
\<close>

section \<open>The grammar\<close>

text \<open>The value of a string of digits, most significant first.\<close>

definition digits_value :: "int \<Rightarrow> string \<Rightarrow> int" where
  "digits_value v ds = foldl (\<lambda>v c. v * 10 + (char_int c - 48)) v ds"

text \<open>
  A version number: at least one digit. The parser adds the code of the digit before it
  subtracts that of \<open>'0'\<close>, so a number is read without overflow when it stays 48 below
  the largest \<open>int\<close>.
\<close>

definition wf_number :: "string \<Rightarrow> bool" where
  "wf_number ds \<longleftrightarrow> ds \<noteq> [] \<and> list_all digit_char ds \<and> digits_value 0 ds \<le> int_max - 48"

definition wf_fold :: "string \<Rightarrow> string \<Rightarrow> bool" where
  "wf_fold ws tx \<longleftrightarrow>
     ws \<noteq> [] \<and> list_all (\<lambda>c. c = CHR '' '' \<or> c = HT) ws \<and>
     list_all text_char tx \<and> (case tx of [] \<Rightarrow> True | c # _ \<Rightarrow> c \<noteq> CHR '' '')"

definition extend_last :: "string \<Rightarrow> header list \<Rightarrow> header list" where
  "extend_last tx hs = butlast hs @ [(last hs)\<lparr>h_value := h_value (last hs) @ tx\<rparr>]"

text \<open>
  The header lines and the empty line that ends them, after the headers \<open>hs\<close>: a line gives
  a new header; a line that starts with white space continues the last one.
\<close>

inductive header_block :: "header list \<Rightarrow> string \<Rightarrow> header list \<Rightarrow> bool" where
  block_end: "header_block hs crlf hs"
| block_line:
    "\<lbrakk> nm \<noteq> []; list_all token_char nm; list_all text_char vl;
       header_block (hs @ [\<lparr>h_name = nm, h_value = vl\<rparr>]) s hs' \<rbrakk>
     \<Longrightarrow> header_block hs (nm @ '': '' @ vl @ crlf @ s) hs'"
| block_fold:
    "\<lbrakk> hs \<noteq> []; wf_fold ws tx; header_block (extend_last tx hs) s hs' \<rbrakk>
     \<Longrightarrow> header_block hs (ws @ tx @ crlf @ s) hs'"

definition uri_char :: "char \<Rightarrow> bool" where
  "uri_char c \<longleftrightarrow> text_char c \<and> c \<noteq> CHR '' ''"

inductive request_text :: "string \<Rightarrow> request \<Rightarrow> bool" where
  request_textI:
    "\<lbrakk> m \<noteq> []; list_all token_char m; list_all uri_char u; wf_number mj; wf_number mn;
       header_block [] s hs \<rbrakk>
     \<Longrightarrow> request_text
          (m @ '' '' @ u @ '' HTTP/'' @ mj @ ''.'' @ mn @ crlf @ s)
          \<lparr>req_method = m, req_uri = u, http_version_major = digits_value 0 mj,
           http_version_minor = digits_value 0 mn, headers = hs\<rparr>"

section \<open>Acceptance, state by state\<close>

text \<open>The parser, in state \<open>st\<close>, accepts a prefix of \<open>s\<close> and leaves \<open>rest\<close>.\<close>

definition accepts :: "parser_state \<Rightarrow> request \<Rightarrow> string \<Rightarrow> string \<Rightarrow> request \<Rightarrow> bool" where
  "accepts st req s rest q \<longleftrightarrow> parse st req s = Inr (TTrue, rest, expecting_newline_3, q)"

lemma accepts_Nil [simp]: "\<not> accepts st req [] rest q"
  by (simp add: accepts_def)

lemma accepts_Cons:
  "accepts st req (c # s) rest q \<longleftrightarrow>
     (consume st req c = Inr (TTrue, expecting_newline_3, q) \<and> rest = s) \<or>
     (\<exists>st' req'. consume st req c = Inr (Indeterminate, st', req') \<and> accepts st' req' s rest q)"
proof (cases "consume st req c")
  case (Inr a)
  obtain result st' req' where "a = (result, st', req')" by (cases a)
  with Inr show ?thesis by (cases result) (auto simp: accepts_def)
qed (simp add: accepts_def)

lemma accepts_newline_3 [simp]:
  "accepts expecting_newline_3 req s rest q \<longleftrightarrow> s = LF # rest \<and> q = req"
  by (cases s) (auto simp: accepts_Cons step_simps)

lemma accepts_newline_1 [simp]:
  "accepts expecting_newline_1 req s rest q \<longleftrightarrow>
     (\<exists>t. s = LF # t \<and> accepts header_line_start req t rest q)"
  by (cases s) (auto simp: accepts_Cons step_simps)

lemma accepts_newline_2 [simp]:
  "accepts expecting_newline_2 req s rest q \<longleftrightarrow>
     (\<exists>t. s = LF # t \<and> accepts header_line_start req t rest q)"
  by (cases s) (auto simp: accepts_Cons step_simps)

text \<open>A run ends at the first separator, so before a separator it is empty.\<close>

lemma run_Nil_iff:
  assumes "\<not> P sep"
  shows "(\<exists>run t. sep # s = run @ sep # t \<and> list_all P run \<and> Q run t) \<longleftrightarrow> Q [] s" (is "?l \<longleftrightarrow> ?r")
proof
  assume ?l
  then obtain run t where "sep # s = run @ sep # t" "list_all P run" "Q run t" by blast
  with assms show ?r by (cases run) auto
next
  assume ?r
  then show ?l by (intro exI [of _ "[]"] exI [of _ s]) simp
qed

text \<open>
  A state that collects the characters of a class and leaves on a separator outside it
  accepts a run of the class, the separator and what the next state accepts. \<open>add\<close> says
  what collecting does to the request.
\<close>

lemma accepts_run:
  assumes step_in: "\<And>r c. P r \<Longrightarrow> cls c \<Longrightarrow>
      consume st r c = Inr (Indeterminate, st, add r c)"
    and step_sep: "\<And>r. P r \<Longrightarrow> consume st r sep = Inr (Indeterminate, nxt, r)"
    and step_out: "\<And>r c. P r \<Longrightarrow> \<not> cls c \<Longrightarrow> c \<noteq> sep \<Longrightarrow> consume st r c = Inr (TFalse, st, r)"
    and P_add: "\<And>r c. P r \<Longrightarrow> cls c \<Longrightarrow> P (add r c)"
    and sep: "\<not> cls sep" and "P req"
  shows "accepts st req s rest q \<longleftrightarrow>
    (\<exists>run t. s = run @ sep # t \<and> list_all cls run \<and> accepts nxt (foldl add req run) t rest q)"
  using \<open>P req\<close>
proof (induction s arbitrary: req)
  case (Cons c s)
  consider "cls c" | "c = sep" | "\<not> cls c" "c \<noteq> sep" by blast
  then show ?case
  proof cases
    case 1
    then have "c \<noteq> sep" using sep by auto
    have "accepts st req (c # s) rest q \<longleftrightarrow> accepts st (add req c) s rest q"
      using step_in [OF Cons.prems 1] by (simp add: accepts_Cons)
    also have "\<dots> \<longleftrightarrow> (\<exists>run t. s = run @ sep # t \<and> list_all cls run \<and>
        accepts nxt (foldl add (add req c) run) t rest q)"
      using Cons.IH [OF P_add [OF Cons.prems 1]] .
    also have "\<dots> \<longleftrightarrow> (\<exists>run t. c # s = run @ sep # t \<and> list_all cls run \<and>
        accepts nxt (foldl add req run) t rest q)"
      (is "?l \<longleftrightarrow> ?r")
    proof
      assume ?l
      then obtain run t where "s = run @ sep # t" "list_all cls run"
        "accepts nxt (foldl add (add req c) run) t rest q" by blast
      with 1 show ?r by (intro exI [of _ "c # run"] exI [of _ t]) simp
    next
      assume ?r
      then obtain run t where r: "c # s = run @ sep # t" "list_all cls run"
        "accepts nxt (foldl add req run) t rest q" by blast
      with \<open>c \<noteq> sep\<close> obtain run' where "run = c # run'" by (cases run) auto
      with r show ?l by auto
    qed
    finally show ?thesis .
  next
    case 2
    show ?thesis
      unfolding 2 run_Nil_iff [of cls, OF sep]
      using step_sep [OF Cons.prems] by (simp add: accepts_Cons)
  next
    case 3
    have "\<not> (c # s = run @ sep # t \<and> list_all cls run)" for run t
      using 3 by (cases run) auto
    then show ?thesis
      using step_out [OF Cons.prems 3] by (auto simp: accepts_Cons)
  qed
qed simp

text \<open>A nonempty run starts with the character that its first state consumed.\<close>

lemma Cons_run_iff:
  "(\<exists>run t. c # s = run @ sep @ t \<and> run \<noteq> [] \<and> list_all P run \<and> Q run t) \<longleftrightarrow>
   P c \<and> (\<exists>run t. s = run @ sep @ t \<and> list_all P run \<and> Q (c # run) t)"
  (is "?l \<longleftrightarrow> ?r")
proof
  assume ?l
  then obtain run t where r: "c # s = run @ sep @ t" "run \<noteq> []" "list_all P run" "Q run t" by blast
  then obtain run' where "run = c # run'" by (cases run) auto
  with r show ?r by auto
next
  assume ?r
  then obtain run t where "P c" "s = run @ sep @ t" "list_all P run" "Q (c # run) t" by blast
  then show ?l by (intro exI [of _ "c # run"] exI [of _ t]) simp
qed

subsection \<open>The request line\<close>

lemma foldl_method [simp]:
  "foldl (\<lambda>r c. r\<lparr>req_method := req_method r @ [c]\<rparr>) r run = r\<lparr>req_method := req_method r @ run\<rparr>"
  by (induction run arbitrary: r) simp_all

lemma foldl_uri [simp]:
  "foldl (\<lambda>r c. r\<lparr>req_uri := req_uri r @ [c]\<rparr>) r run = r\<lparr>req_uri := req_uri r @ run\<rparr>"
  by (induction run arbitrary: r) simp_all

lemma accepts_method:
  "accepts method_chars req s rest q \<longleftrightarrow>
     (\<exists>m t. s = m @ '' '' @ t \<and> list_all token_char m \<and>
        accepts uri_chars (req\<lparr>req_method := req_method req @ m\<rparr>) t rest q)"
  by (subst accepts_run [where P = "\<lambda>_. True" and cls = token_char and nxt = uri_chars
        and add = "\<lambda>r c. r\<lparr>req_method := req_method r @ [c]\<rparr>" and sep = "CHR '' ''"])
    (auto simp: step_simps class_folds)

lemma accepts_method_start:
  "accepts method_start req s rest q \<longleftrightarrow>
     (\<exists>m t. s = m @ '' '' @ t \<and> m \<noteq> [] \<and> list_all token_char m \<and>
        accepts uri_chars (req\<lparr>req_method := req_method req @ m\<rparr>) t rest q)"
proof (cases s)
  case (Cons c s')
  have *: "accepts method_start req (c # s') rest q \<longleftrightarrow>
      token_char c \<and> accepts method_chars (req\<lparr>req_method := req_method req @ [c]\<rparr>) s' rest q"
    by (auto simp: accepts_Cons step_simps class_folds)
  show ?thesis
    unfolding Cons * accepts_method Cons_run_iff by simp
qed simp

lemma accepts_uri:
  "accepts uri_chars req s rest q \<longleftrightarrow>
     (\<exists>u t. s = u @ '' '' @ t \<and> list_all uri_char u \<and>
        accepts http_version_h (req\<lparr>req_uri := req_uri req @ u\<rparr>) t rest q)"
  by (subst accepts_run [where P = "\<lambda>_. True" and cls = uri_char and nxt = http_version_h
        and add = "\<lambda>r c. r\<lparr>req_uri := req_uri r @ [c]\<rparr>" and sep = "CHR '' ''"])
    (auto simp: step_simps class_folds uri_char_def)

lemma accepts_exactly:
  assumes "\<And>c'. consume st req c' = (if c' = c then continue_in nxt req' else refuse st req)"
  shows "accepts st req s rest q \<longleftrightarrow> (\<exists>t. s = c # t \<and> accepts nxt req' t rest q)"
  using assms by (cases s) (auto simp: accepts_Cons continue_in_def refuse_def)

lemma accepts_version:
  "accepts http_version_h req s rest q \<longleftrightarrow>
     (\<exists>t. s = ''HTTP/'' @ t \<and>
        accepts http_version_major_start
          (req\<lparr>http_version_major := 0, http_version_minor := 0\<rparr>) t rest q)"
proof -
  have "accepts http_version_h req s rest q \<longleftrightarrow>
      (\<exists>t. s = CHR ''H'' # t \<and> accepts http_version_t_1 req t rest q)" for s
    by (rule accepts_exactly) (simp add: consume_def)
  moreover have "accepts http_version_t_1 req s rest q \<longleftrightarrow>
      (\<exists>t. s = CHR ''T'' # t \<and> accepts http_version_t_2 req t rest q)" for s
    by (rule accepts_exactly) (simp add: consume_def)
  moreover have "accepts http_version_t_2 req s rest q \<longleftrightarrow>
      (\<exists>t. s = CHR ''T'' # t \<and> accepts http_version_p req t rest q)" for s
    by (rule accepts_exactly) (simp add: consume_def)
  moreover have "accepts http_version_p req s rest q \<longleftrightarrow>
      (\<exists>t. s = CHR ''P'' # t \<and> accepts http_version_slash req t rest q)" for s
    by (rule accepts_exactly) (simp add: consume_def)
  moreover have "accepts http_version_slash req s rest q \<longleftrightarrow>
      (\<exists>t. s = CHR ''/'' # t \<and> accepts http_version_major_start
          (req\<lparr>http_version_major := 0, http_version_minor := 0\<rparr>) t rest q)" for s
    by (rule accepts_exactly) (simp add: consume_def)
  ultimately show ?thesis by auto
qed

subsection \<open>Version numbers\<close>

lemma digit_char_bounds: "digit_char c \<Longrightarrow> 48 \<le> char_int c \<and> char_int c \<le> 57"
  by (simp add: digit_char_def is_digit_def char_simps)

lemma digits_value_simps [simp]:
  "digits_value v [] = v"
  "digits_value v (c # ds) = digits_value (v * 10 + (char_int c - 48)) ds"
  by (simp_all add: digits_value_def)

lemma digits_value_mono: "0 \<le> v \<Longrightarrow> list_all digit_char ds \<Longrightarrow> v \<le> digits_value v ds"
proof (induction ds arbitrary: v)
  case (Cons c ds)
  then have "48 \<le> char_int c" by (simp add: digit_char_bounds)
  with Cons.prems have "0 \<le> v * 10 + (char_int c - 48)" "v \<le> v * 10 + (char_int c - 48)" by auto
  with Cons show ?case by fastforce
qed simp

lemma add_digit_eq:
  "0 \<le> v \<Longrightarrow> digit_char c \<Longrightarrow> add_digit v c =
     (if v * 10 + char_int c \<le> int_max then Inr (v * 10 + (char_int c - 48)) else Inl Signed_Overflow)"
  using digit_char_bounds [of c]
  by (auto simp: add_digit_def int_result_def int_min_def int_max_def char_simps)

lemma accepts_digits:
  assumes digit: "\<And>r c. digit_char c \<Longrightarrow> c \<noteq> sep \<Longrightarrow> consume st r c =
        bind_res (add_digit (get r) c) (\<lambda>v. continue_in st (put v r))"
    and out: "\<And>r c. \<not> digit_char c \<Longrightarrow> c \<noteq> sep \<Longrightarrow> consume st r c = refuse st r"
    and leave: "\<And>r. consume st r sep = continue_in nxt r"
    and sep: "\<not> digit_char sep"
    and get_put: "\<And>r v. get (put v r) = v" "\<And>r v w. put v (put w r) = put v r"
      "\<And>r. put (get r) r = r"
    and "0 \<le> get req"
  shows "accepts st req s rest q \<longleftrightarrow>
    (\<exists>ds t. s = ds @ sep # t \<and> list_all digit_char ds \<and>
       (ds = [] \<or> digits_value (get req) ds \<le> int_max - 48) \<and>
       accepts nxt (put (digits_value (get req) ds) req) t rest q)"
    (is "_ \<longleftrightarrow> ?R req s")
  using \<open>0 \<le> get req\<close>
proof (induction s arbitrary: req)
  case (Cons c s)
  let ?v = "get req * 10 + (char_int c - 48)"
  consider "digit_char c" "c \<noteq> sep" | "c = sep" | "\<not> digit_char c" "c \<noteq> sep"
    using sep by blast
  then show ?case
  proof cases
    case 1
    then have v: "0 \<le> ?v" using Cons.prems by (auto dest: digit_char_bounds)
    have "accepts st req (c # s) rest q \<longleftrightarrow>
        ?v \<le> int_max - 48 \<and> accepts st (put ?v req) s rest q"
      using 1 Cons.prems by (auto simp: accepts_Cons digit add_digit_eq continue_in_def)
    also have "\<dots> \<longleftrightarrow> ?v \<le> int_max - 48 \<and> ?R (put ?v req) s"
      using Cons.IH [of "put ?v req"] v by (simp add: get_put)
    also have "\<dots> \<longleftrightarrow> ?R req (c # s)"
    proof
      assume *: "?v \<le> int_max - 48 \<and> ?R (put ?v req) s"
      then obtain ds t where "s = ds @ sep # t" "list_all digit_char ds"
        "ds = [] \<or> digits_value ?v ds \<le> int_max - 48"
        "accepts nxt (put (digits_value ?v ds) req) t rest q"
        by (auto simp: get_put)
      with 1 * show "?R req (c # s)" by (intro exI [of _ "c # ds"] exI [of _ t]) auto
    next
      assume "?R req (c # s)"
      then obtain ds t where r: "c # s = ds @ sep # t" "list_all digit_char ds"
        "ds = [] \<or> digits_value (get req) ds \<le> int_max - 48"
        "accepts nxt (put (digits_value (get req) ds) req) t rest q" by blast
      with 1 obtain ds' where ds: "ds = c # ds'" by (cases ds) auto
      with r v have "?v \<le> digits_value ?v ds'" by (intro digits_value_mono) auto
      with r ds show "?v \<le> int_max - 48 \<and> ?R (put ?v req) s" by (auto simp: get_put)
    qed
    finally show ?thesis .
  next
    case 2
    show ?thesis
      unfolding 2 run_Nil_iff [of digit_char, OF sep]
      by (simp add: accepts_Cons leave continue_in_def get_put)
  next
    case 3
    then have "\<not> accepts st req (c # s) rest q" by (simp add: accepts_Cons out refuse_def)
    moreover have "\<not> (c # s = ds @ sep # t \<and> list_all digit_char ds)" for ds t
      using 3 by (cases ds) auto
    ultimately show ?thesis by blast
  qed
qed simp

lemma accepts_number_start:
  assumes start: "\<And>c. consume st0 req c = (if digit_char c
        then bind_res (add_digit (get req) c) (\<lambda>v. continue_in st (put v req)) else refuse st0 req)"
    and digit: "\<And>r c. digit_char c \<Longrightarrow> c \<noteq> sep \<Longrightarrow> consume st r c =
        bind_res (add_digit (get r) c) (\<lambda>v. continue_in st (put v r))"
    and out: "\<And>r c. \<not> digit_char c \<Longrightarrow> c \<noteq> sep \<Longrightarrow> consume st r c = refuse st r"
    and leave: "\<And>r. consume st r sep = continue_in nxt r"
    and sep: "\<not> digit_char sep"
    and get_put: "\<And>r v. get (put v r) = v" "\<And>r v w. put v (put w r) = put v r"
      "\<And>r. put (get r) r = r"
    and zero: "get req = 0"
  shows "accepts st0 req s rest q \<longleftrightarrow>
    (\<exists>ds t. s = ds @ [sep] @ t \<and> wf_number ds \<and> accepts nxt (put (digits_value 0 ds) req) t rest q)"
proof (cases s)
  case Nil
  then show ?thesis by (simp add: wf_number_def)
next
  case (Cons c s')
  let ?Q = "\<lambda>ds t. digits_value 0 ds \<le> int_max - 48 \<and> accepts nxt (put (digits_value 0 ds) req) t rest q"
  have "accepts st0 req (c # s') rest q \<longleftrightarrow>
      digit_char c \<and> accepts st (put (char_int c - 48) req) s' rest q"
    using digit_char_bounds [of c]
    by (auto simp: accepts_Cons start zero add_digit_eq continue_in_def refuse_def int_max_def)
  also have "\<dots> \<longleftrightarrow> digit_char c \<and>
      (\<exists>ds t. s' = ds @ [sep] @ t \<and> list_all digit_char ds \<and> ?Q (c # ds) t)"
  proof (rule conj_cong)
    assume c: "digit_char c"
    let ?v = "char_int c - 48"
    from c have v: "0 \<le> ?v" "?v \<le> int_max - 48"
      by (auto dest: digit_char_bounds simp: int_max_def)
    have "accepts st (put ?v req) s' rest q \<longleftrightarrow>
        (\<exists>ds t. s' = ds @ sep # t \<and> list_all digit_char ds \<and>
          (ds = [] \<or> digits_value (get (put ?v req)) ds \<le> int_max - 48) \<and>
          accepts nxt (put (digits_value (get (put ?v req)) ds) (put ?v req)) t rest q)"
      by (rule accepts_digits) (use v in \<open>simp_all add: digit out leave sep get_put\<close>)
    moreover have "(ds = [] \<or> digits_value ?v ds \<le> int_max - 48) \<longleftrightarrow> digits_value ?v ds \<le> int_max - 48"
      for ds using v by auto
    ultimately show "accepts st (put ?v req) s' rest q \<longleftrightarrow>
        (\<exists>ds t. s' = ds @ [sep] @ t \<and> list_all digit_char ds \<and> ?Q (c # ds) t)"
      by (simp add: get_put)
  qed simp
  also have "\<dots> \<longleftrightarrow>
      (\<exists>ds t. c # s' = ds @ [sep] @ t \<and> ds \<noteq> [] \<and> list_all digit_char ds \<and> ?Q ds t)"
    by (rule Cons_run_iff [symmetric])
  finally show ?thesis unfolding Cons wf_number_def by blast
qed

lemma accepts_major:
  "http_version_major req = 0 \<Longrightarrow> accepts http_version_major_start req s rest q \<longleftrightarrow>
    (\<exists>ds t. s = ds @ ''.'' @ t \<and> wf_number ds \<and>
       accepts http_version_minor_start (req\<lparr>http_version_major := digits_value 0 ds\<rparr>) t rest q)"
  by (rule accepts_number_start [where get = http_version_major and st = http_version_major_digits
        and put = "\<lambda>v r. r\<lparr>http_version_major := v\<rparr>" and sep = "CHR ''.''"])
    (auto simp: consume_def class_folds)

lemma accepts_minor:
  "http_version_minor req = 0 \<Longrightarrow> accepts http_version_minor_start req s rest q \<longleftrightarrow>
    (\<exists>ds t. s = ds @ [CR] @ t \<and> wf_number ds \<and>
       accepts expecting_newline_1 (req\<lparr>http_version_minor := digits_value 0 ds\<rparr>) t rest q)"
  by (rule accepts_number_start [where get = http_version_minor and st = http_version_minor_digits
        and put = "\<lambda>v r. r\<lparr>http_version_minor := v\<rparr>" and sep = CR])
    (auto simp: consume_def class_folds)

subsection \<open>Header lines\<close>

lemma extend_last_Nil [simp]: "hs \<noteq> [] \<Longrightarrow> extend_last [] hs = hs"
  by (simp add: extend_last_def)

lemma extend_last_not_Nil [simp]: "extend_last tx hs \<noteq> []"
  by (simp add: extend_last_def)

lemma extend_last_twice [simp]:
  "hs \<noteq> [] \<Longrightarrow> extend_last b (extend_last a hs) = extend_last (a @ b) hs"
  by (simp add: extend_last_def)

lemma extend_last_snoc [simp]:
  "extend_last tx (hs @ [h]) = hs @ [h\<lparr>h_value := h_value h @ tx\<rparr>]"
  by (simp add: extend_last_def)

lemma update_back_value:
  "headers req \<noteq> [] \<Longrightarrow>
     update_back (push_value c) req = Inr (req\<lparr>headers := extend_last [c] (headers req)\<rparr>)"
  by (simp add: update_back_def push_value_def extend_last_def)

lemma foldl_value:
  "headers r \<noteq> [] \<Longrightarrow>
     foldl (\<lambda>r c. r\<lparr>headers := extend_last [c] (headers r)\<rparr>) r run =
     r\<lparr>headers := extend_last run (headers r)\<rparr>"
  by (induction run arbitrary: r) simp_all

lemma accepts_value:
  "headers req \<noteq> [] \<Longrightarrow> accepts header_value req s rest q \<longleftrightarrow>
    (\<exists>v t. s = v @ crlf @ t \<and> list_all text_char v \<and>
       accepts header_line_start (req\<lparr>headers := extend_last v (headers req)\<rparr>) t rest q)"
  by (subst accepts_run [where P = "\<lambda>r. headers r \<noteq> []" and cls = text_char
        and nxt = expecting_newline_2 and sep = CR
        and add = "\<lambda>r c. r\<lparr>headers := extend_last [c] (headers r)\<rparr>"])
    (auto simp: consume_def class_folds continue_in_def refuse_def update_back_value foldl_value
      crlf_def)

text \<open>What can follow a white space at the start of a header line, and the three ways it begins.\<close>

definition folded :: "request \<Rightarrow> string \<Rightarrow> request \<Rightarrow> string \<Rightarrow> bool" where
  "folded req rest q s \<longleftrightarrow> (\<exists>ws tx t. s = ws @ tx @ crlf @ t \<and> wf_fold (CHR '' '' # ws) tx \<and>
     accepts header_line_start (req\<lparr>headers := extend_last tx (headers req)\<rparr>) t rest q)"

lemma foldedE:
  assumes "folded req rest q s"
  obtains ws tx t where "s = ws @ tx @ crlf @ t" "wf_fold (CHR '' '' # ws) tx"
    "accepts header_line_start (req\<lparr>headers := extend_last tx (headers req)\<rparr>) t rest q"
  using assms unfolding folded_def by blast

lemma foldedI:
  "s = ws @ tx @ crlf @ t \<Longrightarrow> wf_fold (CHR '' '' # ws) tx \<Longrightarrow>
     accepts header_line_start (req\<lparr>headers := extend_last tx (headers req)\<rparr>) t rest q \<Longrightarrow>
     folded req rest q s"
  unfolding folded_def by blast

lemma folded_CR:
  assumes "headers req \<noteq> []"
  shows "folded req rest q (CR # s) \<longleftrightarrow> (\<exists>t. s = LF # t \<and> accepts header_line_start req t rest q)"
    (is "_ \<longleftrightarrow> ?T")
proof
  assume "folded req rest q (CR # s)"
  then show ?T
  proof (cases rule: foldedE)
    case (1 ws tx t)
    then have "ws = [] \<and> tx = []" by (cases ws; cases tx) (auto simp: wf_fold_def)
    with 1 assms show ?thesis by (auto simp: crlf_def)
  qed
next
  assume ?T
  then obtain t where "s = LF # t" "accepts header_line_start req t rest q" by blast
  with assms show "folded req rest q (CR # s)"
    by (intro foldedI [of _ "[]" "[]" t]) (simp_all add: crlf_def wf_fold_def)
qed

lemma folded_blank:
  assumes "c = CHR '' '' \<or> c = HT"
  shows "folded req rest q (c # s) \<longleftrightarrow> folded req rest q s"
proof
  assume "folded req rest q s"
  then show "folded req rest q (c # s)"
  proof (cases rule: foldedE)
    case (1 ws tx t)
    with assms show ?thesis by (intro foldedI [of _ "c # ws" tx t]) (auto simp: wf_fold_def)
  qed
next
  assume "folded req rest q (c # s)"
  then show "folded req rest q s"
  proof (cases rule: foldedE)
    case (1 ws tx t)
    with assms obtain ws' where "ws = c # ws'" by (cases ws; cases tx) (auto simp: wf_fold_def crlf_def)
    with 1 show ?thesis by (intro foldedI [of _ ws' tx t]) (auto simp: wf_fold_def)
  qed
qed

lemma folded_text:
  assumes "c \<noteq> CR" "c \<noteq> CHR '' ''" "c \<noteq> HT"
  shows "folded req rest q (c # s) \<longleftrightarrow>
    (\<exists>tx t. c # s = tx @ crlf @ t \<and> tx \<noteq> [] \<and> list_all text_char tx \<and>
       accepts header_line_start (req\<lparr>headers := extend_last tx (headers req)\<rparr>) t rest q)"
    (is "_ \<longleftrightarrow> ?T")
proof
  assume "folded req rest q (c # s)"
  then show ?T
  proof (cases rule: foldedE)
    case (1 ws tx t)
    then have "ws = [] \<and> tx \<noteq> []" using assms by (cases ws; cases tx) (auto simp: wf_fold_def crlf_def)
    with 1 show ?thesis by (auto simp: wf_fold_def)
  qed
next
  assume ?T
  then obtain tx t where r: "c # s = tx @ crlf @ t" "tx \<noteq> []" "list_all text_char tx"
    "accepts header_line_start (req\<lparr>headers := extend_last tx (headers req)\<rparr>) t rest q" by blast
  with assms have "wf_fold (CHR '' '' # []) tx" by (cases tx) (auto simp: wf_fold_def)
  with r show "folded req rest q (c # s)" by (intro foldedI [of _ "[]" tx t]) simp_all
qed

lemma accepts_lws_folded:
  "headers req \<noteq> [] \<Longrightarrow> accepts header_lws req s rest q \<longleftrightarrow> folded req rest q s"
proof (induction s)
  case Nil
  then show ?case by (simp add: folded_def crlf_def)
next
  case (Cons c s)
  consider "c = CR" | "c = CHR '' '' \<or> c = HT" | "c \<noteq> CR" "c \<noteq> CHR '' ''" "c \<noteq> HT" by blast
  then show ?case
  proof cases
    case 1
    then have "accepts header_lws req (c # s) rest q \<longleftrightarrow>
        (\<exists>t. s = LF # t \<and> accepts header_line_start req t rest q)"
      by (auto simp: accepts_Cons step_simps)
    with 1 Cons.prems show ?thesis by (simp add: folded_CR)
  next
    case 2
    with Cons show ?thesis
      by (simp add: folded_blank [OF 2]) (auto simp: accepts_Cons consume_def continue_in_def)
  next
    case 3
    then have "accepts header_lws req (c # s) rest q \<longleftrightarrow> text_char c \<and>
        accepts header_value (req\<lparr>headers := extend_last [c] (headers req)\<rparr>) s rest q"
      using Cons.prems
      by (auto simp: accepts_Cons consume_def class_folds continue_in_def refuse_def update_back_value)
    also have "\<dots> \<longleftrightarrow> folded req rest q (c # s)"
      unfolding folded_text [OF 3] Cons_run_iff by (simp add: accepts_value Cons.prems)
    finally show ?thesis .
  qed
qed

lemmas accepts_lws = accepts_lws_folded [unfolded folded_def]

lemma accepts_name:
  "headers req = hs @ [h] \<Longrightarrow> accepts header_name req s rest q \<longleftrightarrow>
    (\<exists>nm t. s = nm @ '':'' @ t \<and> list_all token_char nm \<and>
       accepts space_before_header_value
         (req\<lparr>headers := hs @ [h\<lparr>h_name := h_name h @ nm\<rparr>]\<rparr>) t rest q)"
proof (induction s arbitrary: req h)
  case (Cons c s)
  consider "c = CHR '':''" | "token_char c" | "\<not> token_char c" "c \<noteq> CHR '':''" by blast
  then show ?case
  proof cases
    case 1
    have "req\<lparr>headers := hs @ [h]\<rparr> = req" using Cons.prems by simp
    then show ?thesis
      by (simp add: 1 run_Nil_iff [where P = token_char] accepts_Cons consume_def continue_in_def)
  next
    case 2
    then have "c \<noteq> CHR '':''" by auto
    let ?h = "h\<lparr>h_name := h_name h @ [c]\<rparr>"
    have "accepts header_name req (c # s) rest q \<longleftrightarrow>
        accepts header_name (req\<lparr>headers := hs @ [?h]\<rparr>) s rest q"
      using 2 \<open>c \<noteq> CHR '':''\<close> Cons.prems
      by (simp add: accepts_Cons step_simps class_folds)
    also have "\<dots> \<longleftrightarrow> (\<exists>nm t. s = nm @ '':'' @ t \<and> list_all token_char nm \<and>
       accepts space_before_header_value
         (req\<lparr>headers := hs @ [h\<lparr>h_name := h_name h @ c # nm\<rparr>]\<rparr>) t rest q)"
      by (subst Cons.IH [of _ ?h]) simp_all
    also have "\<dots> \<longleftrightarrow> (\<exists>nm t. c # s = nm @ '':'' @ t \<and> nm \<noteq> [] \<and> list_all token_char nm \<and>
       accepts space_before_header_value
         (req\<lparr>headers := hs @ [h\<lparr>h_name := h_name h @ nm\<rparr>]\<rparr>) t rest q)"
      unfolding Cons_run_iff using 2 by simp
    finally show ?thesis
      using \<open>c \<noteq> CHR '':''\<close> by (auto simp: Cons_eq_append_conv)
  next
    case 3
    then have "\<not> accepts header_name req (c # s) rest q"
      by (simp add: accepts_Cons step_simps class_folds)
    moreover have "\<not> (c # s = nm @ '':'' @ t \<and> list_all token_char nm)" for nm t
      using 3 by (cases nm) auto
    ultimately show ?thesis by blast
  qed
qed simp

lemma accepts_space:
  "accepts space_before_header_value req s rest q \<longleftrightarrow>
    (\<exists>t. s = '' '' @ t \<and> accepts header_value req t rest q)"
  by (cases s) (auto simp: accepts_Cons step_simps)

text \<open>
  At the start of a line: the end of the block, a new header, or the continuation of the
  last one.
\<close>

lemma accepts_new_header:
  assumes "token_char c"
  shows "accepts header_line_start req (c # s) rest q \<longleftrightarrow>
    (\<exists>nm vl t. c # s = nm @ '': '' @ vl @ crlf @ t \<and> nm \<noteq> [] \<and> list_all token_char nm \<and>
       list_all text_char vl \<and>
       accepts header_line_start (req\<lparr>headers := headers req @ [\<lparr>h_name = nm, h_value = vl\<rparr>]\<rparr>) t rest q)"
proof -
  let ?Q = "\<lambda>nm t. \<exists>vl t'. t = '' '' @ vl @ crlf @ t' \<and> list_all text_char vl \<and>
       accepts header_line_start (req\<lparr>headers := headers req @ [\<lparr>h_name = nm, h_value = vl\<rparr>]\<rparr>) t' rest q"
  have "c \<noteq> CR" "c \<noteq> HT" "c \<noteq> CHR '' ''" using assms by auto
  then have "accepts header_line_start req (c # s) rest q \<longleftrightarrow>
      accepts header_name (req\<lparr>headers := headers req @ [\<lparr>h_name = [c], h_value = []\<rparr>]\<rparr>) s rest q"
    using assms by (simp add: accepts_Cons step_simps class_folds new_header_def)
  also have "\<dots> \<longleftrightarrow> (\<exists>nm t. s = nm @ '':'' @ t \<and> list_all token_char nm \<and> ?Q (c # nm) t)"
  proof -
    have "accepts space_before_header_value
        (req\<lparr>headers := headers req @ [\<lparr>h_name = c # nm, h_value = []\<rparr>]\<rparr>) t rest q \<longleftrightarrow>
        ?Q (c # nm) t" for nm t
      by (auto simp: accepts_space accepts_value)
    then show ?thesis
      by (simp add: accepts_name [of _ "headers req" "\<lparr>h_name = [c], h_value = []\<rparr>"])
  qed
  also have "\<dots> \<longleftrightarrow> (\<exists>nm t. c # s = nm @ '':'' @ t \<and> nm \<noteq> [] \<and> list_all token_char nm \<and> ?Q nm t)"
    unfolding Cons_run_iff using assms by simp
  finally show ?thesis by (simp, blast)
qed

lemma accepts_fold_start:
  assumes "headers req \<noteq> []" and "c = CHR '' '' \<or> c = HT"
  shows "accepts header_line_start req (c # s) rest q \<longleftrightarrow>
    (\<exists>ws tx t. s = ws @ tx @ crlf @ t \<and> wf_fold (c # ws) tx \<and>
       accepts header_line_start (req\<lparr>headers := extend_last tx (headers req)\<rparr>) t rest q)"
proof -
  have "accepts header_line_start req (c # s) rest q \<longleftrightarrow> accepts header_lws req s rest q"
    using assms by (auto simp: accepts_Cons step_simps)
  moreover have "wf_fold (c # ws) tx \<longleftrightarrow> wf_fold (CHR '' '' # ws) tx" for ws tx
    using assms(2) by (auto simp: wf_fold_def)
  ultimately show ?thesis by (simp add: accepts_lws assms(1))
qed

lemma header_block_accepted:
  "header_block hs s hs' \<Longrightarrow> headers req = hs \<Longrightarrow>
     accepts header_line_start req (s @ rest) rest (req\<lparr>headers := hs'\<rparr>)"
proof (induction arbitrary: req rule: header_block.induct)
  case (block_end hs)
  then show ?case by (auto simp: crlf_def accepts_Cons step_simps)
next
  case (block_line nm vl hs s hs')
  then obtain c nm' where nm: "nm = c # nm'" "token_char c" by (cases nm) auto
  let ?r = "req\<lparr>headers := headers req @ [\<lparr>h_name = nm, h_value = vl\<rparr>]\<rparr>"
  have "accepts header_line_start ?r (s @ rest) rest (req\<lparr>headers := hs'\<rparr>)"
    using block_line.IH [of ?r] block_line.prems by simp
  then have "\<exists>nm'' vl' t. c # nm' @ '': '' @ vl @ crlf @ s @ rest = nm'' @ '': '' @ vl' @ crlf @ t \<and>
      nm'' \<noteq> [] \<and> list_all token_char nm'' \<and> list_all text_char vl' \<and>
      accepts header_line_start (req\<lparr>headers := headers req @ [\<lparr>h_name = nm'', h_value = vl'\<rparr>]\<rparr>)
        t rest (req\<lparr>headers := hs'\<rparr>)"
    using block_line.hyps nm
    by (intro exI [of _ nm] exI [of _ vl] exI [of _ "s @ rest"]) simp
  with nm show ?case by (simp add: accepts_new_header)
next
  case (block_fold hs ws tx s hs')
  then obtain c ws' where ws: "ws = c # ws'" "c = CHR '' '' \<or> c = HT"
    by (cases ws) (auto simp: wf_fold_def)
  let ?r = "req\<lparr>headers := extend_last tx (headers req)\<rparr>"
  have "accepts header_line_start ?r (s @ rest) rest (req\<lparr>headers := hs'\<rparr>)"
    using block_fold.IH [of ?r] block_fold.prems by simp
  then have "\<exists>ws'' tx' t. ws' @ tx @ crlf @ s @ rest = ws'' @ tx' @ crlf @ t \<and> wf_fold (c # ws'') tx' \<and>
      accepts header_line_start (req\<lparr>headers := extend_last tx' (headers req)\<rparr>)
        t rest (req\<lparr>headers := hs'\<rparr>)"
    using block_fold.hyps ws
    by (intro exI [of _ ws'] exI [of _ tx] exI [of _ "s @ rest"]) simp
  with ws block_fold show ?case by (simp add: accepts_fold_start)
qed

lemma accepted_header_block:
  "accepts header_line_start req s rest q \<Longrightarrow>
     \<exists>b hs'. s = b @ rest \<and> header_block (headers req) b hs' \<and> q = req\<lparr>headers := hs'\<rparr>"
proof (induction s arbitrary: req rule: length_induct)
  case (1 s)
  then obtain c s' where s: "s = c # s'" by (cases s) auto
  consider "c = CR" | "headers req \<noteq> []" "c = CHR '' '' \<or> c = HT" | "token_char c"
    | "c \<noteq> CR" "\<not> token_char c" "headers req = [] \<or> (c \<noteq> CHR '' '' \<and> c \<noteq> HT)" by blast
  then show ?case
  proof cases
    case 1
    with "1.prems" s have "s = crlf @ rest" "q = req"
      by (auto simp: accepts_Cons step_simps crlf_def)
    then show ?thesis by (intro exI [of _ crlf] exI [of _ "headers req"]) (simp add: block_end)
  next
    case 2
    with "1.prems" s obtain ws tx t where r: "s' = ws @ tx @ crlf @ t" "wf_fold (c # ws) tx"
      "accepts header_line_start (req\<lparr>headers := extend_last tx (headers req)\<rparr>) t rest q"
      by (auto simp: accepts_fold_start)
    then have "length t < length s" by (simp add: s)
    with "1.IH" r(3) obtain b hs' where "t = b @ rest" "q = req\<lparr>headers := hs'\<rparr>"
      "header_block (extend_last tx (headers req)) b hs'" by fastforce
    moreover from this r 2 have "header_block (headers req) ((c # ws) @ tx @ crlf @ b) hs'"
      by (intro block_fold) auto
    ultimately show ?thesis
      using r s by (intro exI [of _ "(c # ws) @ tx @ crlf @ b"] exI [of _ hs']) simp
  next
    case 3
    with "1.prems" s obtain nm vl t where r: "s = nm @ '': '' @ vl @ crlf @ t" "nm \<noteq> []"
      "list_all token_char nm" "list_all text_char vl"
      "accepts header_line_start (req\<lparr>headers := headers req @ [\<lparr>h_name = nm, h_value = vl\<rparr>]\<rparr>) t rest q"
      by (auto simp: accepts_new_header)
    then have "length t < length s" by simp
    with "1.IH" r(5) obtain b hs' where "t = b @ rest" "q = req\<lparr>headers := hs'\<rparr>"
      "header_block (headers req @ [\<lparr>h_name = nm, h_value = vl\<rparr>]) b hs'" by fastforce
    moreover from this r have "header_block (headers req) (nm @ '': '' @ vl @ crlf @ b) hs'"
      by (intro block_line) auto
    ultimately show ?thesis
      using r by (intro exI [of _ "nm @ '': '' @ vl @ crlf @ b"] exI [of _ hs']) simp
  next
    case 4
    with "1.prems" s show ?thesis
      by (auto simp: accepts_Cons step_simps class_folds)
  qed
qed

section \<open>The accepted language\<close>

lemma accepts_request:
  "accepts method_start (new_request g1 g2) s rest q \<longleftrightarrow> (\<exists>b. s = b @ rest \<and> request_text b q)"
proof -
  have "accepts method_start (new_request g1 g2) s rest q \<longleftrightarrow>
      (\<exists>m u mj mn t. s = m @ '' '' @ u @ '' '' @ ''HTTP/'' @ mj @ ''.'' @ mn @ [CR] @ LF # t \<and>
        m \<noteq> [] \<and> list_all token_char m \<and> list_all uri_char u \<and> wf_number mj \<and> wf_number mn \<and>
        accepts header_line_start \<lparr>req_method = m, req_uri = u,
          http_version_major = digits_value 0 mj, http_version_minor = digits_value 0 mn,
          headers = []\<rparr> t rest q)"
    by (simp only: accepts_method_start accepts_uri accepts_version accepts_major accepts_minor
        accepts_newline_1 new_request_def request.simps append_Nil) blast
  also have "\<dots> \<longleftrightarrow> (\<exists>b. s = b @ rest \<and> request_text b q)" (is "?l \<longleftrightarrow> ?r")
  proof
    assume ?l
    then obtain m u mj mn t where r:
      "s = m @ '' '' @ u @ '' '' @ ''HTTP/'' @ mj @ ''.'' @ mn @ [CR] @ LF # t"
      "m \<noteq> []" "list_all token_char m" "list_all uri_char u" "wf_number mj" "wf_number mn"
      and acc: "accepts header_line_start \<lparr>req_method = m, req_uri = u,
          http_version_major = digits_value 0 mj, http_version_minor = digits_value 0 mn,
          headers = []\<rparr> t rest q" by blast
    from accepted_header_block [OF acc] obtain b hs where b: "t = b @ rest" "header_block [] b hs"
      "q = \<lparr>req_method = m, req_uri = u, http_version_major = digits_value 0 mj,
            http_version_minor = digits_value 0 mn, headers = hs\<rparr>" by auto
    from request_textI [OF r(2-) b(2)] show ?r
      unfolding r(1) b(1) b(3) by (intro exI conjI) (auto simp: crlf_def)
  next
    assume ?r
    then obtain b where b: "s = b @ rest" "request_text b q" by blast
    from b(2) show ?l
    proof cases
      case (request_textI m u mj mn t hs)
      then show ?thesis
        using header_block_accepted [OF request_textI(8), of "\<lparr>req_method = m, req_uri = u,
          http_version_major = digits_value 0 mj, http_version_minor = digits_value 0 mn,
          headers = []\<rparr>" rest]
        by (intro exI [of _ m] exI [of _ u] exI [of _ mj] exI [of _ mn] exI [of _ "t @ rest"])
          (simp add: b(1) crlf_def)
    qed
  qed
  finally show ?thesis .
qed

text \<open>Only the last state of the parser returns true.\<close>

lemma parse_true_state:
  "parse st req s = Inr (TTrue, rest, st', q) \<Longrightarrow> st' = expecting_newline_3"
proof (induction s arbitrary: st req)
  case (Cons c s)
  then obtain result st1 req1 where one: "consume st req c = Inr (result, st1, req1)"
    by (cases "consume st req c") auto
  with Cons show ?case by (cases result) (auto simp: consume_TTrue)
qed simp

text \<open>
C1: the parser, started in its first state on a fresh request, returns true exactly when the
input starts with a text of the grammar, whatever its state is then (it is the last one); it
leaves what follows that text unread and has built the request that the grammar assigns to the text.
\<close>

theorem parser_language:
  "parse method_start (new_request g1 g2) s = Inr (TTrue, rest, st, q) \<longleftrightarrow>
     st = expecting_newline_3 \<and> (\<exists>b. s = b @ rest \<and> request_text b q)"
  using accepts_request [of g1 g2 s rest q] parse_true_state by (auto simp: accepts_def)

section \<open>Printed requests\<close>

definition print_header :: "header \<Rightarrow> string" where
  "print_header h = h_name h @ '': '' @ h_value h @ crlf"

definition print_request :: "request \<Rightarrow> string" where
  "print_request r =
     req_method r @ '' '' @ req_uri r @ '' HTTP/'' @ dec_text (nat (http_version_major r)) @ ''.''
     @ dec_text (nat (http_version_minor r)) @ crlf @ concat (map print_header (headers r)) @ crlf"

definition wf_header :: "header \<Rightarrow> bool" where
  "wf_header h \<longleftrightarrow>
     h_name h \<noteq> [] \<and> list_all token_char (h_name h) \<and> list_all text_char (h_value h)"

definition wf_request :: "request \<Rightarrow> bool" where
  "wf_request r \<longleftrightarrow>
     req_method r \<noteq> [] \<and> list_all token_char (req_method r) \<and> list_all uri_char (req_uri r) \<and>
     0 \<le> http_version_major r \<and> http_version_major r \<le> int_max - 48 \<and>
     0 \<le> http_version_minor r \<and> http_version_minor r \<le> int_max - 48 \<and>
     list_all wf_header (headers r)"

lemma base_digit_10: "base_digit 10 = digit_char"
  by (rule ext) (auto simp: base_digit_def digit_of_def digit_char_def is_digit_def char_simps Let_def)

lemma digit_of_digit: "digit_char c \<Longrightarrow> digit_of c = Some (nat (char_int c - 48))"
  by (auto simp: digit_of_def Let_def dest: digit_char_bounds)

lemma digits_value_snoc: "digits_value v (ds @ [c]) = digits_value v ds * 10 + (char_int c - 48)"
  by (simp add: digits_value_def)

lemma digits_value_base_value:
  "list_all digit_char ds \<Longrightarrow> digits_value 0 ds = int (base_value 10 ds)"
proof (induction ds rule: rev_induct)
  case (snoc c ds)
  then have "digit_char c" by simp
  with snoc show ?case
    using digit_char_bounds [of c]
    by (simp add: digits_value_snoc base_value_snoc digit_of_digit)
qed (simp add: base_value_def)

lemma dec_text_number: "wf_number (dec_text n) \<longleftrightarrow> int n \<le> int_max - 48"
  and digits_value_dec_text: "digits_value 0 (dec_text n) = int n"
proof -
  have d: "list_all digit_char (dec_text n)"
    using dec_text_digits [of n] by (simp add: base_digit_10)
  then show v: "digits_value 0 (dec_text n) = int n"
    by (simp add: digits_value_base_value) (simp add: dec_text_def base_value_base_text)
  from d v show "wf_number (dec_text n) \<longleftrightarrow> int n \<le> int_max - 48"
    by (simp add: wf_number_def) (simp add: dec_text_def)
qed

lemma header_block_print:
  "list_all wf_header hs \<Longrightarrow> header_block hs0 (concat (map print_header hs) @ crlf) (hs0 @ hs)"
proof (induction hs arbitrary: hs0)
  case Nil
  then show ?case by (simp add: block_end)
next
  case (Cons h hs)
  then have "header_block (hs0 @ [h]) (concat (map print_header hs) @ crlf) (hs0 @ h # hs)"
    using Cons.IH [of "hs0 @ [h]"] by simp
  moreover obtain nm vl where h: "h = \<lparr>h_name = nm, h_value = vl\<rparr>" by (cases h)
  moreover from h have "print_header h = nm @ '': '' @ vl @ crlf" by (simp add: print_header_def)
  moreover from h Cons.prems have "nm \<noteq> []" "list_all token_char nm" "list_all text_char vl"
    by (auto simp: wf_header_def)
  ultimately show ?case
    using block_line [of nm vl hs0 "concat (map print_header hs) @ crlf" "hs0 @ h # hs"] by simp
qed

lemma request_text_print:
  assumes "wf_request r"
  shows "request_text (print_request r) r"
proof -
  let ?mj = "dec_text (nat (http_version_major r))" and ?mn = "dec_text (nat (http_version_minor r))"
  have "header_block [] (concat (map print_header (headers r)) @ crlf) (headers r)"
    using assms header_block_print [of "headers r" "[]"] by (simp add: wf_request_def)
  with assms have "request_text (print_request r)
      \<lparr>req_method = req_method r, req_uri = req_uri r, http_version_major = digits_value 0 ?mj,
       http_version_minor = digits_value 0 ?mn, headers = headers r\<rparr>"
    unfolding print_request_def wf_request_def
    by (intro request_textI) (auto simp: dec_text_number)
  moreover from assms have "\<lparr>req_method = req_method r, req_uri = req_uri r,
      http_version_major = digits_value 0 ?mj, http_version_minor = digits_value 0 ?mn,
      headers = headers r\<rparr> = r"
    by (cases r) (simp add: digits_value_dec_text wf_request_def)
  ultimately show ?thesis by simp
qed

text \<open>
C15: a well-formed request, printed in the usual way (one line per header, versions in decimal)
and followed by anything, is parsed back to itself, and what follows it is left unread.
\<close>
theorem print_parse:
  assumes "wf_request r"
  shows "parse method_start (new_request g1 g2) (print_request r @ rest) =
    Inr (TTrue, rest, expecting_newline_3, r)"
  using accepts_request [of g1 g2 "print_request r @ rest" rest r] request_text_print [OF assms]
  by (simp add: accepts_def)

definition sample_request :: request where
  "sample_request =
     \<lparr>req_method = ''GET'', req_uri = ''/a.html'', http_version_major = 1, http_version_minor = 0,
      headers = [\<lparr>h_name = ''Host'', h_value = ''localhost''\<rparr>]\<rparr>"

lemma wf_sample_request: "wf_request sample_request"
  by (simp add: sample_request_def wf_request_def wf_header_def uri_char_def token_char_def
      not_token_def text_char_def is_char_def is_ctl_def is_tspecial_def char_int_def int_max_def)

theorem print_parse_witness:
  "wf_request sample_request \<and>
   parse method_start (new_request 7 9) (print_request sample_request @ ''rest'') =
     Inr (TTrue, ''rest'', expecting_newline_3, sample_request)"
  using print_parse [OF wf_sample_request, of 7 9 "''rest''"] wf_sample_request by simp

end
