(* ===== verification/RequestSafety.thy ===== *)
theory RequestSafety imports RequestGrammar
begin

text \<open>
  What the parser does on inputs it does not accept. The theory shows which undefined
  behaviour is possible and on exactly which inputs, that \<open>headers.back()\<close> never meets an
  empty vector, and that the two uninitialised members of a fresh request are never read.
\<close>

section \<open>What has been consumed\<close>

text \<open>
  The text that a fresh parser has consumed when it is in one of the states up to the end of
  the version, in terms of the request it has built. The states after the version put no
  condition here.
\<close>

definition line_head :: "request \<Rightarrow> string" where
  "line_head req = req_method req @ '' '' @ req_uri req @ '' ''"

definition wf_line :: "request \<Rightarrow> bool" where
  "wf_line req \<longleftrightarrow>
     req_method req \<noteq> [] \<and> list_all token_char (req_method req) \<and> list_all uri_char (req_uri req)"

fun consumed :: "parser_state \<Rightarrow> request \<Rightarrow> string \<Rightarrow> bool" where
  "consumed method_start req p \<longleftrightarrow> p = [] \<and> req_method req = [] \<and> req_uri req = [] \<and> headers req = []"
| "consumed method_chars req p \<longleftrightarrow> p = req_method req \<and> wf_line req \<and> req_uri req = [] \<and> headers req = []"
| "consumed uri_start req p \<longleftrightarrow> False"
| "consumed uri_chars req p \<longleftrightarrow>
     p = req_method req @ '' '' @ req_uri req \<and> wf_line req \<and> headers req = []"
| "consumed http_version_h req p \<longleftrightarrow> p = line_head req \<and> wf_line req \<and> headers req = []"
| "consumed http_version_t_1 req p \<longleftrightarrow> p = line_head req @ ''H'' \<and> wf_line req \<and> headers req = []"
| "consumed http_version_t_2 req p \<longleftrightarrow> p = line_head req @ ''HT'' \<and> wf_line req \<and> headers req = []"
| "consumed http_version_p req p \<longleftrightarrow> p = line_head req @ ''HTT'' \<and> wf_line req \<and> headers req = []"
| "consumed http_version_slash req p \<longleftrightarrow> p = line_head req @ ''HTTP'' \<and> wf_line req \<and> headers req = []"
| "consumed http_version_major_start req p \<longleftrightarrow>
     p = line_head req @ ''HTTP/'' \<and> wf_line req \<and> headers req = [] \<and>
     http_version_major req = 0 \<and> http_version_minor req = 0"
| "consumed http_version_major_digits req p \<longleftrightarrow>
     wf_line req \<and> headers req = [] \<and> http_version_minor req = 0 \<and>
     (\<exists>ds. p = line_head req @ ''HTTP/'' @ ds \<and> wf_number ds \<and> http_version_major req = digits_value 0 ds)"
| "consumed http_version_minor_start req p \<longleftrightarrow>
     wf_line req \<and> headers req = [] \<and> http_version_minor req = 0 \<and>
     (\<exists>ds. p = line_head req @ ''HTTP/'' @ ds @ ''.'' \<and> wf_number ds)"
| "consumed http_version_minor_digits req p \<longleftrightarrow>
     wf_line req \<and> headers req = [] \<and>
     (\<exists>ds es. p = line_head req @ ''HTTP/'' @ ds @ ''.'' @ es \<and> wf_number ds \<and> wf_number es \<and>
        http_version_minor req = digits_value 0 es)"
| "consumed expecting_newline_1 req p \<longleftrightarrow> headers req = []"
| "consumed header_line_start req p \<longleftrightarrow> True"
| "consumed expecting_newline_3 req p \<longleftrightarrow> True"
| "consumed _ req p \<longleftrightarrow> headers req \<noteq> []"

lemma consumed_fresh: "consumed method_start (new_request g1 g2) []"
  by (simp add: new_request_def)

lemma add_digit_Inr:
  "0 \<le> v \<Longrightarrow> digit_char c \<Longrightarrow> add_digit v c = Inr w \<longleftrightarrow>
     w = v * 10 + (char_int c - 48) \<and> w \<le> int_max - 48"
  by (auto simp: add_digit_eq)

lemma add_digit_Inl:
  "0 \<le> v \<Longrightarrow> digit_char c \<Longrightarrow> add_digit v c = Inl u \<longleftrightarrow>
     u = Signed_Overflow \<and> v * 10 + (char_int c - 48) > int_max - 48"
  by (auto simp: add_digit_eq)

lemma wf_number_value: "wf_number ds \<Longrightarrow> 0 \<le> digits_value 0 ds"
  by (auto simp: wf_number_def intro: digits_value_mono)

lemma wf_number_snoc:
  "ds = [] \<or> wf_number ds \<Longrightarrow>
     wf_number (ds @ [c]) \<longleftrightarrow> digit_char c \<and> digits_value 0 (ds @ [c]) \<le> int_max - 48"
  by (auto simp: wf_number_def)

text \<open>A step keeps the invariant, and only a version digit can go wrong.\<close>

lemma consume_consumed:
  assumes "consumed st req p" and "consume st req c = Inr (Indeterminate, st', req')"
  shows "consumed st' req' (p @ [c])"
proof -
  consider "st = http_version_major_start" | "st = http_version_major_digits"
    | "st = http_version_minor_start" | "st = http_version_minor_digits"
    | "st \<notin> {http_version_major_start, http_version_major_digits,
             http_version_minor_start, http_version_minor_digits}" by blast
  then show ?thesis
  proof cases
    case 1
    then show ?thesis using assms
      by (auto simp: step_simps class_folds line_head_def wf_line_def add_digit_Inr
          wf_number_snoc [of "[]", simplified] split: if_splits intro!: exI [of _ "[c]"])
  next
    case 2
    with assms obtain ds where "p = line_head req @ ''HTTP/'' @ ds" "wf_number ds"
      "http_version_major req = digits_value 0 ds" by auto
    with 2 assms show ?thesis
      by (auto simp: step_simps class_folds line_head_def wf_line_def add_digit_Inr wf_number_value
          wf_number_snoc digits_value_snoc split: if_splits intro!: exI [of _ "ds @ [c]"])
  next
    case 3
    with assms obtain ds where "p = line_head req @ ''HTTP/'' @ ds @ ''.''" "wf_number ds" by auto
    moreover from 3 assms have "wf_number [c]" "st' = http_version_minor_digits"
      "req' = req\<lparr>http_version_minor := char_int c - 48\<rparr>"
      by (auto simp: step_simps class_folds add_digit_Inr wf_number_snoc [of "[]", simplified]
          split: if_splits)
    ultimately show ?thesis using 3 assms
      by (simp add: line_head_def wf_line_def)
        (intro exI [of _ ds] exI [of _ "[c]"], simp)
  next
    case 4
    with assms obtain ds es where "p = line_head req @ ''HTTP/'' @ ds @ ''.'' @ es" "wf_number ds"
      "wf_number es" "http_version_minor req = digits_value 0 es" by auto
    moreover from 4 assms \<open>wf_number es\<close> \<open>http_version_minor req = digits_value 0 es\<close>
    have "(wf_number (es @ [c]) \<and> st' = http_version_minor_digits \<and>
        req' = req\<lparr>http_version_minor := digits_value 0 (es @ [c])\<rparr>) \<or>
        (st' = expecting_newline_1 \<and> req' = req)"
      by (auto simp: step_simps class_folds add_digit_Inr wf_number_value wf_number_snoc
          digits_value_snoc split: if_splits)
    ultimately show ?thesis using 4 assms(1)
      by (elim disjE conjE; simp add: line_head_def wf_line_def)
        (intro exI [of _ ds] exI [of _ "es @ [c]"], simp)
  next
    case 5
    with assms show ?thesis
      by (cases st)
        (auto simp: step_simps class_folds line_head_def wf_line_def uri_char_def new_header_def
          split: if_splits)
  qed
qed

lemma parse_consumed:
  "consumed st req p \<Longrightarrow> parse st req s = Inr (Indeterminate, rest, st', req') \<Longrightarrow>
     consumed st' req' (p @ s)"
proof (induction s arbitrary: st req p)
  case (Cons c s)
  then obtain st1 req1 where "consume st req c = Inr (Indeterminate, st1, req1)"
    "parse st1 req1 s = Inr (Indeterminate, rest, st', req')"
    by (auto split: prod.splits if_splits) (metis tribool.exhaust)
  with Cons.IH [of st1 req1 "p @ [c]"] Cons.prems(1) show ?case
    by (simp add: consume_consumed)
qed simp

section \<open>Undefined behaviour\<close>

text \<open>The text up to and including a version number that is too large.\<close>

definition overflowing_text :: "string \<Rightarrow> bool" where
  "overflowing_text s \<longleftrightarrow>
     (\<exists>m u ds t. m \<noteq> [] \<and> list_all token_char m \<and> list_all uri_char u \<and> list_all digit_char ds \<and>
        digits_value 0 ds > int_max - 48 \<and>
        (s = m @ '' '' @ u @ '' HTTP/'' @ ds @ t \<or>
         (\<exists>es. wf_number es \<and> s = m @ '' '' @ u @ '' HTTP/'' @ es @ ''.'' @ ds @ t)))"

lemma overflowing_major:
  "\<lbrakk> m \<noteq> []; list_all token_char m; list_all uri_char u; list_all digit_char ds;
     digits_value 0 ds > int_max - 48 \<rbrakk>
   \<Longrightarrow> overflowing_text (m @ '' '' @ u @ '' HTTP/'' @ ds @ t)"
  unfolding overflowing_text_def by blast

lemma overflowing_minor:
  "\<lbrakk> m \<noteq> []; list_all token_char m; list_all uri_char u; list_all digit_char ds;
     digits_value 0 ds > int_max - 48; wf_number es \<rbrakk>
   \<Longrightarrow> overflowing_text (m @ '' '' @ u @ '' HTTP/'' @ es @ ''.'' @ ds @ t)"
  unfolding overflowing_text_def by blast

lemma consume_crash:
  assumes "consumed st req p" and "consume st req c = Inl e"
  shows "e = Signed_Overflow \<and> overflowing_text (p @ c # s)"
proof -
  consider "st = http_version_major_start" | "st = http_version_major_digits"
    | "st = http_version_minor_start" | "st = http_version_minor_digits"
    | "st \<notin> {http_version_major_start, http_version_major_digits,
             http_version_minor_start, http_version_minor_digits}" by blast
  then show ?thesis
  proof cases
    case 2
    with assms obtain ds where ds: "p = line_head req @ ''HTTP/'' @ ds" "wf_number ds"
      "http_version_major req = digits_value 0 ds" by auto
    with 2 assms have "e = Signed_Overflow" "digit_char c" "digits_value 0 (ds @ [c]) > int_max - 48"
      by (auto simp: step_simps class_folds add_digit_Inl wf_number_value digits_value_snoc
          split: if_splits)
    with 2 assms ds show ?thesis
      using overflowing_major [of "req_method req" "req_uri req" "ds @ [c]" s]
      by (simp add: wf_line_def wf_number_def line_head_def)
  next
    case 4
    with assms obtain ds es where ds: "p = line_head req @ ''HTTP/'' @ es @ ''.'' @ ds"
      "wf_number es" "wf_number ds" "http_version_minor req = digits_value 0 ds" by auto
    with 4 assms have "e = Signed_Overflow" "digit_char c" "digits_value 0 (ds @ [c]) > int_max - 48"
      by (auto simp: step_simps class_folds add_digit_Inl wf_number_value digits_value_snoc
          split: if_splits)
    with 4 assms ds show ?thesis
      using overflowing_minor [of "req_method req" "req_uri req" "ds @ [c]" es s]
      by (simp add: wf_line_def wf_number_def line_head_def)
  qed (use assms digit_char_bounds [of c] in \<open>cases st;
      auto simp: step_simps class_folds add_digit_Inl int_max_def split: if_splits\<close>)+
qed

lemma parse_crash:
  "consumed st req p \<Longrightarrow> parse st req s = Inl e \<Longrightarrow> e = Signed_Overflow \<and> overflowing_text (p @ s)"
proof (induction s arbitrary: st req p)
  case (Cons c s)
  show ?case
  proof (cases "consume st req c")
    case (Inl e')
    with Cons.prems have "e = e'" by simp
    with consume_crash [OF Cons.prems(1) Inl] show ?thesis by simp
  next
    case (Inr a)
    then obtain st1 req1 where "consume st req c = Inr (Indeterminate, st1, req1)"
      "parse st1 req1 s = Inl e" using Cons.prems(2)
      by (cases a) (auto split: prod.splits if_splits, metis tribool.exhaust)
    with Cons.IH [of st1 req1 "p @ [c]"] Cons.prems(1) show ?thesis
      by (simp add: consume_consumed)
  qed
qed simp

text \<open>The parser runs over the parts of a request line.\<close>

lemma parse_step:
  "consume st req c = Inr (Indeterminate, st', req') \<Longrightarrow> parse st req (c # s) = parse st' req' s"
  by simp

lemma parse_method_run:
  "list_all token_char m \<Longrightarrow>
     parse method_chars req (m @ t) = parse method_chars (req\<lparr>req_method := req_method req @ m\<rparr>) t"
proof (induction m arbitrary: req)
  case (Cons c m)
  then have "consume method_chars req c =
      Inr (Indeterminate, method_chars, req\<lparr>req_method := req_method req @ [c]\<rparr>)"
    by (auto simp: step_simps class_folds)
  with Cons show ?case by simp
qed simp

lemma parse_uri_run:
  "list_all uri_char u \<Longrightarrow>
     parse uri_chars req (u @ t) = parse uri_chars (req\<lparr>req_uri := req_uri req @ u\<rparr>) t"
proof (induction u arbitrary: req)
  case (Cons c u)
  then have "consume uri_chars req c =
      Inr (Indeterminate, uri_chars, req\<lparr>req_uri := req_uri req @ [c]\<rparr>)"
    by (auto simp: step_simps class_folds uri_char_def)
  with Cons show ?case by simp
qed simp

lemma parse_line:
  assumes "m \<noteq> []" "list_all token_char m" "list_all uri_char u"
  shows "parse method_start (new_request g1 g2) (m @ '' '' @ u @ '' HTTP/'' @ t) =
    parse http_version_major_start
      \<lparr>req_method = m, req_uri = u, http_version_major = 0, http_version_minor = 0, headers = []\<rparr> t"
proof -
  obtain c m' where m: "m = c # m'" "token_char c" using assms by (cases m) auto
  have "parse method_start (new_request g1 g2) (m @ '' '' @ u @ '' HTTP/'' @ t) =
      parse method_chars ((new_request g1 g2)\<lparr>req_method := [c]\<rparr>) (m' @ '' '' @ u @ '' HTTP/'' @ t)"
    using m by (simp add: step_simps class_folds new_request_def)
  also have "\<dots> = parse uri_chars ((new_request g1 g2)\<lparr>req_method := m\<rparr>) (u @ '' HTTP/'' @ t)"
    using assms m by (simp add: parse_method_run step_simps)
  also have "\<dots> = parse http_version_h ((new_request g1 g2)\<lparr>req_method := m, req_uri := u\<rparr>) (''HTTP/'' @ t)"
    using assms by (simp add: parse_uri_run step_simps new_request_def)
  finally show ?thesis by (simp add: step_simps new_request_def)
qed

lemma parse_number_run:
  assumes step: "\<And>r c. digit_char c \<Longrightarrow> c \<noteq> sep \<Longrightarrow> consume st r c =
        bind_res (add_digit (get r) c) (\<lambda>v. continue_in st (put v r))"
    and sep: "\<not> digit_char sep"
    and get_put: "\<And>r v. get (put v r) = v" "\<And>r v w. put v (put w r) = put v r"
      "\<And>r. put (get r) r = r"
  shows "0 \<le> get req \<Longrightarrow> get req \<le> int_max - 48 \<Longrightarrow> list_all digit_char ds \<Longrightarrow>
    parse st req (ds @ t) =
      (if digits_value (get req) ds \<le> int_max - 48
       then parse st (put (digits_value (get req) ds) req) t else Inl Signed_Overflow)"
proof (induction ds arbitrary: req)
  case (Cons c ds)
  then have c: "digit_char c" "c \<noteq> sep" using sep by auto
  let ?v = "get req * 10 + (char_int c - 48)"
  have v: "0 \<le> ?v" using c Cons.prems by (auto dest: digit_char_bounds)
  show ?case
  proof (cases "?v \<le> int_max - 48")
    case True
    then have "add_digit (get req) c = Inr ?v"
      using add_digit_Inr [OF Cons.prems(1) c(1)] by simp
    then have "parse st req ((c # ds) @ t) = parse st (put ?v req) (ds @ t)"
      by (simp add: step [OF c] continue_in_def)
    with Cons.IH [of "put ?v req"] True v Cons.prems show ?thesis
      by (simp add: get_put)
  next
    case False
    then have "add_digit (get req) c = Inl Signed_Overflow"
      using add_digit_Inl [OF Cons.prems(1) c(1)] by simp
    moreover have "?v \<le> digits_value ?v ds"
      using v Cons.prems by (intro digits_value_mono) auto
    ultimately show ?thesis using False by (simp add: step [OF c])
  qed
qed (simp add: get_put)

lemma parse_major_run:
  assumes "ds \<noteq> []" "list_all digit_char ds" "http_version_major req = 0"
  shows "parse http_version_major_start req (ds @ t) =
    (if wf_number ds
     then parse http_version_major_digits (req\<lparr>http_version_major := digits_value 0 ds\<rparr>) t
     else Inl Signed_Overflow)"
proof -
  obtain c ds' where ds: "ds = c # ds'" "digit_char c" using assms by (cases ds) auto
  let ?v = "char_int c - 48"
  have v: "0 \<le> ?v" "?v \<le> int_max - 48"
    using digit_char_bounds [OF ds(2)] by (auto simp: int_max_def)
  then have "add_digit 0 c = Inr ?v" using ds by (simp add: add_digit_Inr)
  then have "parse http_version_major_start req (ds @ t) =
      parse http_version_major_digits (req\<lparr>http_version_major := ?v\<rparr>) (ds' @ t)"
    using ds assms by (simp add: step_simps class_folds)
  also have "\<dots> = (if wf_number ds
     then parse http_version_major_digits (req\<lparr>http_version_major := digits_value 0 ds\<rparr>) t
     else Inl Signed_Overflow)"
    using v ds assms
    by (subst parse_number_run [where get = http_version_major and sep = "CHR ''.''"
          and put = "\<lambda>v r. r\<lparr>http_version_major := v\<rparr>"])
      (auto simp: consume_def class_folds wf_number_def)
  finally show ?thesis .
qed

lemma parse_minor_run:
  assumes "ds \<noteq> []" "list_all digit_char ds" "http_version_minor req = 0"
  shows "parse http_version_minor_start req (ds @ t) =
    (if wf_number ds
     then parse http_version_minor_digits (req\<lparr>http_version_minor := digits_value 0 ds\<rparr>) t
     else Inl Signed_Overflow)"
proof -
  obtain c ds' where ds: "ds = c # ds'" "digit_char c" using assms by (cases ds) auto
  let ?v = "char_int c - 48"
  have v: "0 \<le> ?v" "?v \<le> int_max - 48"
    using digit_char_bounds [OF ds(2)] by (auto simp: int_max_def)
  then have "add_digit 0 c = Inr ?v" using ds by (simp add: add_digit_Inr)
  then have "parse http_version_minor_start req (ds @ t) =
      parse http_version_minor_digits (req\<lparr>http_version_minor := ?v\<rparr>) (ds' @ t)"
    using ds assms by (simp add: step_simps class_folds)
  also have "\<dots> = (if wf_number ds
     then parse http_version_minor_digits (req\<lparr>http_version_minor := digits_value 0 ds\<rparr>) t
     else Inl Signed_Overflow)"
    using v ds assms
    by (subst parse_number_run [where get = http_version_minor and sep = CR
          and put = "\<lambda>v r. r\<lparr>http_version_minor := v\<rparr>"])
      (auto simp: consume_def class_folds wf_number_def)
  finally show ?thesis .
qed

lemma overflowing_crashes:
  assumes "overflowing_text s"
  shows "parse method_start (new_request g1 g2) s = Inl Signed_Overflow"
proof -
  from assms obtain m u ds t where wf: "m \<noteq> []" "list_all token_char m" "list_all uri_char u"
    "list_all digit_char ds" "digits_value 0 ds > int_max - 48"
    and s: "s = m @ '' '' @ u @ '' HTTP/'' @ ds @ t \<or>
      (\<exists>es. wf_number es \<and> s = m @ '' '' @ u @ '' HTTP/'' @ es @ ''.'' @ ds @ t)"
    unfolding overflowing_text_def by blast
  from wf(5) have ds: "ds \<noteq> []" "\<not> wf_number ds" by (auto simp: wf_number_def int_max_def)
  from s show ?thesis
  proof
    assume "s = m @ '' '' @ u @ '' HTTP/'' @ ds @ t"
    with wf ds show ?thesis by (simp add: parse_line [simplified] parse_major_run)
  next
    assume "\<exists>es. wf_number es \<and> s = m @ '' '' @ u @ '' HTTP/'' @ es @ ''.'' @ ds @ t"
    then obtain es where es: "wf_number es" "es \<noteq> []" "list_all digit_char es"
      and s: "s = m @ '' '' @ u @ '' HTTP/'' @ es @ ''.'' @ ds @ t" by (auto simp: wf_number_def)
    let ?r = "\<lparr>req_method = m, req_uri = u, http_version_major = digits_value 0 es,
      http_version_minor = 0, headers = []\<rparr>"
    have "parse method_start (new_request g1 g2) s =
        parse http_version_major_digits ?r (''.'' @ ds @ t)"
      using wf es unfolding s by (simp add: parse_line [simplified] parse_major_run)
    also have "\<dots> = parse http_version_minor_start ?r (ds @ t)"
      by (simp add: step_simps)
    also have "\<dots> = Inl Signed_Overflow"
      using wf ds by (simp add: parse_minor_run)
    finally show ?thesis .
  qed
qed

text \<open>
C6: on a fresh request the parser runs into undefined behaviour exactly when the text starts
with a request line whose major or minor version is larger than 2147483599; the undefined
behaviour is then the overflow of the \<open>int\<close> that accumulates the digits, and in particular
never a use of \<open>headers.back()\<close> on an empty vector.
\<close>
theorem parser_undefined_iff:
  "parse method_start (new_request g1 g2) s = Inl e \<longleftrightarrow> e = Signed_Overflow \<and> overflowing_text s"
  using parse_crash [OF consumed_fresh, of g1 g2 s e] overflowing_crashes [of s g1 g2] by auto

section \<open>Uninitialised members\<close>

text \<open>
  Until the slash of the version has been read, the version members of the request hold
  whatever memory held. \<open>visible\<close> is what of a request may be looked at in a state.
\<close>

definition version_unset :: "parser_state \<Rightarrow> bool" where
  "version_unset st \<longleftrightarrow> st \<in> {method_start, method_chars, uri_start, uri_chars, http_version_h,
     http_version_t_1, http_version_t_2, http_version_p, http_version_slash}"

definition visible :: "parser_state \<Rightarrow> request \<Rightarrow> request" where
  "visible st req =
     (if version_unset st then req\<lparr>http_version_major := 0, http_version_minor := 0\<rparr> else req)"

fun visible_result :: "parse_result \<Rightarrow> parse_result" where
  "visible_result (Inl e) = Inl e"
| "visible_result (Inr (r, rest, st, req)) = Inr (r, rest, st, visible st req)"

lemma visible_eqE:
  assumes "visible st r = visible st r'"
  obtains "r = r'" | a b where "version_unset st" "r' = r\<lparr>http_version_major := a, http_version_minor := b\<rparr>"
proof (cases "version_unset st")
  case True
  with assms have "r' = r\<lparr>http_version_major := http_version_major r',
      http_version_minor := http_version_minor r'\<rparr>"
    by (cases r; cases r') (simp add: visible_def)
  with True that show thesis by blast
qed (use assms that in \<open>simp add: visible_def\<close>)

lemma consume_ignores_unset:
  assumes "version_unset st" and "r' = r\<lparr>http_version_major := a, http_version_minor := b\<rparr>"
  shows "\<exists>res st' q q'. consume st r c = Inr (res, st', q) \<and> consume st r' c = Inr (res, st', q') \<and>
    visible st' q = visible st' q'"
  using assms by (cases st) (simp_all add: step_simps visible_def version_unset_def)

lemma parse_ignores_unset:
  "visible st r = visible st r' \<Longrightarrow> visible_result (parse st r s) = visible_result (parse st r' s)"
proof (induction s arbitrary: st r r')
  case (Cons c s)
  from Cons.prems show ?case
  proof (cases rule: visible_eqE)
    case (2 a b)
    from consume_ignores_unset [OF 2] obtain res st' q q' where
      "consume st r c = Inr (res, st', q)" "consume st r' c = Inr (res, st', q')"
      "visible st' q = visible st' q'" by blast
    with Cons.IH [of st' q q'] show ?thesis by simp
  qed simp
qed simp

text \<open>
C23: the version members of a fresh request are uninitialised memory, and the parser never reads
them: whatever they hold, every outcome (the result, the bytes left unread, the state, the
undefined behaviour, and every member of the request that the parser has set) is the same.
\<close>
theorem uninitialised_never_read:
  "visible_result (parse method_start (new_request g1 g2) s) =
   visible_result (parse method_start (new_request h1 h2) s)"
  by (rule parse_ignores_unset) (simp add: visible_def version_unset_def new_request_def)

end
