(* ===== verification/HttpConnection.thy ===== *)
theory HttpConnection imports RequestHandler RequestSafety
begin

text \<open>
  \<open>full_server/connection.cpp\<close>: one connection, from its first read to the write of its
  reply. The asynchronous operations are events: an operation that a member function starts
  is kept as pending, and its completion runs the handler that was bound to it.
\<close>

section \<open>State\<close>

text \<open>
  The socket, as the bytes that came in and went out on it so far and whether
  \<open>shutdown(shutdown_both)\<close> was called.
\<close>

record tcp_socket =
  received :: string
  sent :: string
  shut_down :: bool

definition new_socket :: tcp_socket where
  "new_socket = \<lparr>received = [], sent = [], shut_down = False\<rparr>"

text \<open>
  At most one operation is pending. A write holds the list of buffers that
  \<open>reply_.to_buffers()\<close> made, which point into the reply, and how many bytes are out. With
  no operation the last reference to the connection is gone, and its socket is closed.
\<close>

datatype pending_op = No_Op | Reading | Writing "buffer list" nat

record connection =
  socket :: tcp_socket
  buffer_data :: string
  conn_request :: request
  parser :: parser_state
  conn_reply :: reply
  pending :: pending_op

definition buffer_size :: nat where "buffer_size = 8192"

text \<open>
  What the constructors leave unset is arbitrary: the bytes of the buffer, the two version
  numbers and the status.
\<close>

definition new_connection :: "string \<Rightarrow> int \<Rightarrow> int \<Rightarrow> nat \<Rightarrow> connection" where
  "new_connection junk g1 g2 g3 =
     \<lparr>socket = new_socket, buffer_data = junk, conn_request = new_request g1 g2,
      parser = method_start, conn_reply = new_reply g3, pending = No_Op\<rparr>"

section \<open>Member functions\<close>

type_synonym handler = "request \<Rightarrow> reply \<Rightarrow> reply"

definition start :: "connection \<Rightarrow> connection" where
  "start c = c\<lparr>pending := Reading\<rparr>"

definition async_write_reply :: "connection \<Rightarrow> connection" where
  "async_write_reply c = c\<lparr>pending := Writing (to_buffers (conn_reply c)) 0\<rparr>"

text \<open>
  The handlers run after their operation has completed, with none pending. The parser's
  \<open>bad_request\<close> page needs the text of a size, and the handler is the one that the server
  hands to all its connections.
\<close>

definition handle_read ::
    "(nat \<Rightarrow> string) \<Rightarrow> handler \<Rightarrow> bool \<Rightarrow> nat \<Rightarrow> connection \<Rightarrow> ub + connection" where
  "handle_read size_text handler e bytes_transferred c =
     (if \<not> e then
        bind_res (parse (parser c) (conn_request c) (take bytes_transferred (buffer_data c)))
          (\<lambda>(result, rest, st, req).
             let c = c\<lparr>parser := st, conn_request := req\<rparr> in
             if result = TTrue then
               Inr (async_write_reply (c\<lparr>conn_reply := handler (conn_request c) (conn_reply c)\<rparr>))
             else if result = TFalse then
               Inr (async_write_reply (c\<lparr>conn_reply := stock_reply size_text bad_request\<rparr>))
             else Inr (c\<lparr>pending := Reading\<rparr>))
      else Inr c)"

definition handle_write :: "bool \<Rightarrow> connection \<Rightarrow> connection" where
  "handle_write e c =
     (if \<not> e then c\<lparr>socket := (socket c)\<lparr>shut_down := True\<rparr>\<rparr> else c)"

section \<open>Events\<close>

text \<open>
  What the network does to a connection. \<open>async_read_some\<close> puts some bytes at the start of
  the buffer and completes, or fails; \<open>async_write\<close> takes bytes from the buffers, as they
  are at that moment, until all are out, and then completes, or it fails on the way.
\<close>

datatype event = Read_Some string | Read_Fails | Bytes_Out nat | Write_Completes | Write_Fails

definition fill_buffer :: "string \<Rightarrow> string \<Rightarrow> string" where
  "fill_buffer bytes buf = bytes @ drop (length bytes) buf"

definition receive :: "string \<Rightarrow> connection \<Rightarrow> connection" where
  "receive bytes c = c\<lparr>buffer_data := fill_buffer bytes (buffer_data c),
     socket := (socket c)\<lparr>received := received (socket c) @ bytes\<rparr>\<rparr>"

definition transmit :: "string \<Rightarrow> connection \<Rightarrow> connection" where
  "transmit bytes c = c\<lparr>socket := (socket c)\<lparr>sent := sent (socket c) @ bytes\<rparr>\<rparr>"

text \<open>The connection after an event; nothing when the event cannot happen to it.\<close>

fun on_event ::
    "(nat \<Rightarrow> string) \<Rightarrow> handler \<Rightarrow> connection \<Rightarrow> event \<Rightarrow> (ub + connection) option" where
  "on_event size_text handler c (Read_Some bytes) =
     (if pending c = Reading \<and> 0 < length bytes \<and> length bytes \<le> buffer_size
      then Some (handle_read size_text handler False (length bytes)
             (receive bytes (c\<lparr>pending := No_Op\<rparr>)))
      else None)"
| "on_event size_text handler c Read_Fails =
     (if pending c = Reading
      then Some (handle_read size_text handler True 0 (c\<lparr>pending := No_Op\<rparr>)) else None)"
| "on_event size_text handler c (Bytes_Out k) =
     (case pending c of
        Writing bufs n \<Rightarrow>
          (let left = drop n (gather (conn_reply c) bufs) in
           if 0 < k \<and> k \<le> length left
           then Some (Inr (transmit (take k left) (c\<lparr>pending := Writing bufs (n + k)\<rparr>)))
           else None)
      | _ \<Rightarrow> None)"
| "on_event size_text handler c Write_Completes =
     (case pending c of
        Writing bufs n \<Rightarrow>
          (if n = length (gather (conn_reply c) bufs)
           then Some (Inr (handle_write False (c\<lparr>pending := No_Op\<rparr>))) else None)
      | _ \<Rightarrow> None)"
| "on_event size_text handler c Write_Fails =
     (case pending c of
        Writing bufs n \<Rightarrow> Some (Inr (handle_write True (c\<lparr>pending := No_Op\<rparr>)))
      | _ \<Rightarrow> None)"

text \<open>A sequence of events; it ends at undefined behaviour.\<close>

fun on_events ::
    "(nat \<Rightarrow> string) \<Rightarrow> handler \<Rightarrow> connection \<Rightarrow> event list \<Rightarrow> (ub + connection) option" where
  "on_events size_text handler c [] = Some (Inr c)"
| "on_events size_text handler c (ev # evs) =
     (case on_event size_text handler c ev of
        None \<Rightarrow> None
      | Some (Inl u) \<Rightarrow> (if evs = [] then Some (Inl u) else None)
      | Some (Inr c') \<Rightarrow> on_events size_text handler c' evs)"

definition conn_step :: "(nat \<Rightarrow> string) \<Rightarrow> handler \<Rightarrow> connection \<Rightarrow> connection \<Rightarrow> bool" where
  "conn_step size_text handler c c' \<longleftrightarrow> (\<exists>ev. on_event size_text handler c ev = Some (Inr c'))"

section \<open>What a connection promises\<close>

text \<open>
  The reply to a stream of bytes, in one piece: none while the request is incomplete.
\<close>

definition stream_reply ::
    "(nat \<Rightarrow> string) \<Rightarrow> handler \<Rightarrow> connection \<Rightarrow> string \<Rightarrow> ub + reply option" where
  "stream_reply size_text handler c0 s =
     bind_res (parse (parser c0) (conn_request c0) s) (\<lambda>(result, rest, st, req).
       Inr (if result = TTrue then Some (handler req (conn_reply c0))
            else if result = TFalse then Some (stock_reply size_text bad_request)
            else None))"

definition reply_bytes :: "reply \<Rightarrow> string" where
  "reply_bytes rep = gather rep (to_buffers rep)"

text \<open>
  The invariant of a connection that started as \<open>c0\<close>. While it reads, it has parsed just
  what came in, and sent nothing. While it writes, the reply is that of the stream so far,
  and what is out is the start of it. Closed, the same holds; and it was shut down only
  with the whole reply out.
\<close>

definition conn_inv ::
    "(nat \<Rightarrow> string) \<Rightarrow> handler \<Rightarrow> connection \<Rightarrow> connection \<Rightarrow> bool" where
  "conn_inv size_text handler c0 c \<longleftrightarrow>
     (let s = received (socket c); out = sent (socket c) in
      case pending c of
        Reading \<Rightarrow> parse (parser c0) (conn_request c0) s = Inr (Indeterminate, [], parser c, conn_request c) \<and>
          conn_reply c = conn_reply c0 \<and> out = [] \<and> \<not> shut_down (socket c)
      | Writing bufs n \<Rightarrow> stream_reply size_text handler c0 s = Inr (Some (conn_reply c)) \<and>
          bufs = to_buffers (conn_reply c) \<and> n \<le> length (reply_bytes (conn_reply c)) \<and>
          out = take n (reply_bytes (conn_reply c)) \<and> \<not> shut_down (socket c)
      | No_Op \<Rightarrow>
          (\<exists>r. stream_reply size_text handler c0 s = Inr r \<and>
             (case r of None \<Rightarrow> out = [] \<and> \<not> shut_down (socket c)
              | Some rep \<Rightarrow> prefix out (reply_bytes rep) \<and>
                  (shut_down (socket c) \<longrightarrow> out = reply_bytes rep))))"

lemma stream_reply_Indeterminate:
  "parse (parser c0) (conn_request c0) s = Inr (Indeterminate, rest, st, req) \<Longrightarrow>
     stream_reply size_text handler c0 s = Inr None"
  by (simp add: stream_reply_def)

lemma take_fill_buffer [simp]: "take (length bytes) (fill_buffer bytes buf) = bytes"
  by (simp add: fill_buffer_def)

lemma read_some_result:
  assumes inv: "conn_inv size_text handler c0 c" and p: "pending c = Reading"
  shows "handle_read size_text handler False (length bytes) (receive bytes (c\<lparr>pending := No_Op\<rparr>)) =
    bind_res (parse (parser c0) (conn_request c0) (received (socket c) @ bytes))
      (\<lambda>(result, rest, st, req).
         let c' = (receive bytes c)\<lparr>parser := st, conn_request := req\<rparr> in
         Inr (if result = TTrue then async_write_reply (c'\<lparr>conn_reply := handler req (conn_reply c0)\<rparr>)
              else if result = TFalse then async_write_reply (c'\<lparr>conn_reply := stock_reply size_text bad_request\<rparr>)
              else c'))"
proof -
  have s: "parse (parser c0) (conn_request c0) (received (socket c)) =
      Inr (Indeterminate, [], parser c, conn_request c)" "conn_reply c = conn_reply c0"
    using inv p by (auto simp: conn_inv_def Let_def)
  show ?thesis
    using p unfolding parse_append s
    by (cases "parse (parser c) (conn_request c) bytes")
      (auto simp: handle_read_def receive_def async_write_reply_def s Let_def split: prod.splits)
qed

lemma conn_inv_read:
  assumes inv: "conn_inv size_text handler c0 c" and p: "pending c = Reading"
    and step: "handle_read size_text handler False (length bytes) (receive bytes (c\<lparr>pending := No_Op\<rparr>)) = Inr c'"
  shows "conn_inv size_text handler c0 c'"
proof -
  obtain result rest st req where
    parsed: "parse (parser c0) (conn_request c0) (received (socket c) @ bytes) = Inr (result, rest, st, req)"
    using step unfolding read_some_result [OF inv p] by (auto simp: Let_def)
  have old: "conn_reply c = conn_reply c0" "sent (socket c) = []" "\<not> shut_down (socket c)"
    using inv p by (auto simp: conn_inv_def Let_def)
  have rest: "result = Indeterminate \<Longrightarrow> rest = []"
    using parsed parse_Indeterminate_rest by blast
  show ?thesis
    using step old rest p unfolding read_some_result [OF inv p] parsed
    by (cases result)
      (auto simp: conn_inv_def Let_def async_write_reply_def receive_def stream_reply_def parsed)
qed

lemma conn_inv_event:
  assumes inv: "conn_inv size_text handler c0 c"
    and ev: "on_event size_text handler c ev = Some (Inr c')"
  shows "conn_inv size_text handler c0 c'"
proof (cases ev)
  case (Read_Some bytes)
  with ev inv show ?thesis by (auto split: if_splits intro: conn_inv_read)
next
  case Read_Fails
  with ev inv show ?thesis
    by (auto simp: handle_read_def conn_inv_def Let_def stream_reply_Indeterminate split: if_splits)
next
  case (Bytes_Out k)
  with ev obtain bufs n where p: "pending c = Writing bufs n"
    by (auto split: pending_op.splits)
  with inv have "bufs = to_buffers (conn_reply c)" by (simp add: conn_inv_def Let_def)
  then have "gather (conn_reply c) bufs = reply_bytes (conn_reply c)" by (simp add: reply_bytes_def)
  with ev inv p Bytes_Out show ?thesis
    by (auto simp: conn_inv_def Let_def transmit_def take_add split: if_splits)
next
  case Write_Completes
  with ev inv show ?thesis
    by (auto simp: conn_inv_def Let_def handle_write_def reply_bytes_def take_is_prefix
        split: pending_op.splits if_splits)
next
  case Write_Fails
  with ev inv show ?thesis
    by (auto simp: conn_inv_def Let_def handle_write_def reply_bytes_def take_is_prefix
        split: pending_op.splits)
qed

lemma conn_inv_start:
  "conn_inv size_text handler (new_connection junk g1 g2 g3) (start (new_connection junk g1 g2 g3))"
  by (simp add: conn_inv_def start_def new_connection_def new_socket_def Let_def)

interpretation http_connection: invariant_system
  "\<lambda>c. c = start (new_connection junk g1 g2 g3)" "conn_step size_text handler"
  "conn_inv size_text handler (new_connection junk g1 g2 g3)"
  for junk g1 g2 g3 size_text handler
  by unfold_locales (auto simp: conn_inv_start conn_step_def intro: conn_inv_event)

lemma on_events_steps:
  "on_events size_text handler c evs = Some (Inr c') \<Longrightarrow> (conn_step size_text handler)\<^sup>*\<^sup>* c c'"
proof (induction evs arbitrary: c)
  case (Cons ev evs)
  then obtain c1 where "on_event size_text handler c ev = Some (Inr c1)"
    "on_events size_text handler c1 evs = Some (Inr c')"
    by (auto split: option.splits sum.splits if_splits)
  with Cons.IH show ?case
    by (auto simp: conn_step_def intro: converse_rtranclp_into_rtranclp)
qed simp

lemma on_events_inv:
  assumes "on_events size_text handler (start (new_connection junk g1 g2 g3)) evs = Some (Inr c)"
  shows "conn_inv size_text handler (new_connection junk g1 g2 g3) c"
  using http_connection.inv_rtranclp [OF on_events_steps [OF assms]] conn_inv_start by blast

lemma on_events_append:
  "on_events size_text handler c evs = Some (Inr c') \<Longrightarrow>
     on_events size_text handler c (evs @ evs') = on_events size_text handler c' evs'"
  by (induction evs arbitrary: c) (auto split: option.splits sum.splits if_splits)

section \<open>Feeding a stream\<close>

text \<open>
  The bytes of a reply go out and the write completes, in one piece.
\<close>

definition flush_events :: "reply \<Rightarrow> event list" where
  "flush_events rep = [Bytes_Out (length (reply_bytes rep)), Write_Completes]"

lemma flush_reply:
  assumes "pending c = Writing (to_buffers (conn_reply c)) 0" "reply_bytes (conn_reply c) \<noteq> []"
  shows "\<exists>c'. on_events size_text handler c (flush_events (conn_reply c)) = Some (Inr c') \<and>
    pending c' = No_Op \<and> sent (socket c') = sent (socket c) @ reply_bytes (conn_reply c) \<and>
    received (socket c') = received (socket c) \<and> shut_down (socket c')"
  using assms by (simp add: flush_events_def transmit_def handle_write_def Let_def
      reply_bytes_def [symmetric])

text \<open>More input does not change a reply once there is one, or undefined behaviour.\<close>

lemma stream_reply_append:
  "stream_reply size_text handler c0 s = Inr (Some rep) \<Longrightarrow>
     stream_reply size_text handler c0 (s @ t) = Inr (Some rep)"
  "stream_reply size_text handler c0 s = Inl u \<Longrightarrow> stream_reply size_text handler c0 (s @ t) = Inl u"
  by (cases "parse (parser c0) (conn_request c0) s",
      auto simp: stream_reply_def parse_append split: if_splits)+

lemma read_event:
  assumes inv: "conn_inv size_text handler c0 c" and p: "pending c = Reading"
    and len: "bytes \<noteq> []" "length bytes \<le> buffer_size"
    and r: "stream_reply size_text handler c0 (received (socket c) @ bytes) = Inr r"
  shows "\<exists>c'. on_event size_text handler c (Read_Some bytes) = Some (Inr c') \<and>
    conn_inv size_text handler c0 c' \<and> received (socket c') = received (socket c) @ bytes \<and>
    sent (socket c') = [] \<and>
    pending c' = (case r of None \<Rightarrow> Reading | Some rep \<Rightarrow> Writing (to_buffers rep) 0) \<and>
    (\<forall>rep. r = Some rep \<longrightarrow> conn_reply c' = rep)"
proof -
  obtain result rest st req where parsed:
    "parse (parser c0) (conn_request c0) (received (socket c) @ bytes) = Inr (result, rest, st, req)"
    using r by (auto simp: stream_reply_def)
  let ?c' = "(receive bytes c)\<lparr>parser := st, conn_request := req\<rparr>"
  let ?d = "if result = TTrue then async_write_reply (?c'\<lparr>conn_reply := handler req (conn_reply c0)\<rparr>)
     else if result = TFalse then async_write_reply (?c'\<lparr>conn_reply := stock_reply size_text bad_request\<rparr>)
     else ?c'"
  have "on_event size_text handler c (Read_Some bytes) = Some (Inr ?d)"
    using p len parsed by (simp add: read_some_result [OF inv p] Let_def)
  moreover from conn_inv_event [OF inv this] have "conn_inv size_text handler c0 ?d" .
  moreover have "sent (socket c) = []" using inv p by (simp add: conn_inv_def Let_def)
  ultimately show ?thesis
    using p r parsed
    by (intro exI [of _ ?d]) (auto simp: receive_def async_write_reply_def stream_reply_def)
qed

text \<open>
  Reading on, packet by packet, until the stream read so far is decisive.
\<close>

lemma feed_packets:
  assumes "conn_inv size_text handler c0 c" "pending c = Reading"
    and "\<forall>p \<in> set packets. p \<noteq> [] \<and> length p \<le> buffer_size"
    and "stream_reply size_text handler c0 (received (socket c) @ concat packets) = Inr (Some rep)"
  shows "\<exists>k \<le> length packets. \<exists>c'.
    on_events size_text handler c (map Read_Some (take k packets)) = Some (Inr c') \<and>
    pending c' = Writing (to_buffers rep) 0 \<and> conn_reply c' = rep \<and> sent (socket c') = []"
  using assms
proof (induction packets arbitrary: c)
  case Nil
  then show ?case by (auto simp: conn_inv_def Let_def stream_reply_Indeterminate)
next
  case (Cons p packets)
  let ?s = "received (socket c) @ p"
  from Cons.prems(4) have all: "stream_reply size_text handler c0 (?s @ concat packets) = Inr (Some rep)"
    by simp
  then obtain r where r: "stream_reply size_text handler c0 ?s = Inr r"
    by (cases "stream_reply size_text handler c0 ?s")
      (auto dest: stream_reply_append(2) [where t = "concat packets"])
  from Cons.prems(3) have len: "p \<noteq> []" "length p \<le> buffer_size" by auto
  obtain c1 where c1: "on_event size_text handler c (Read_Some p) = Some (Inr c1)"
    "conn_inv size_text handler c0 c1" "received (socket c1) = ?s" "sent (socket c1) = []"
    "pending c1 = (case r of None \<Rightarrow> Reading | Some rep \<Rightarrow> Writing (to_buffers rep) 0)"
    "\<forall>rep. r = Some rep \<longrightarrow> conn_reply c1 = rep"
    using read_event [OF Cons.prems(1,2) len r] by blast
  show ?case
  proof (cases r)
    case None
    with c1 Cons.prems all obtain k c' where "k \<le> length packets"
      "on_events size_text handler c1 (map Read_Some (take k packets)) = Some (Inr c')"
      "pending c' = Writing (to_buffers rep) 0" "conn_reply c' = rep" "sent (socket c') = []"
      using Cons.IH [of c1] by auto
    with c1 show ?thesis
      by (intro exI [of _ "Suc k"]) (simp del: on_event.simps)
  next
    case (Some rep')
    with r all have "rep' = rep" using stream_reply_append(1) by fastforce
    with c1 Some show ?thesis
      by (intro exI [of _ "Suc 0"]) (simp del: on_event.simps)
  qed
qed

text \<open>A stream with undefined behaviour in it is read up to the packet that runs into it.\<close>

lemma read_event_crash:
  assumes inv: "conn_inv size_text handler c0 c" and p: "pending c = Reading"
    and len: "bytes \<noteq> []" "length bytes \<le> buffer_size"
  shows "on_event size_text handler c (Read_Some bytes) = Some (Inl u) \<longleftrightarrow>
    stream_reply size_text handler c0 (received (socket c) @ bytes) = Inl u"
  using p len by (auto simp: read_some_result [OF inv p] stream_reply_def Let_def)

lemma feed_packets_crash:
  assumes "conn_inv size_text handler c0 c" "pending c = Reading"
    and "\<forall>p \<in> set packets. p \<noteq> [] \<and> length p \<le> buffer_size"
    and "stream_reply size_text handler c0 (received (socket c) @ concat packets) = Inl u"
  shows "\<exists>k \<le> length packets.
    on_events size_text handler c (map Read_Some (take k packets)) = Some (Inl u)"
  using assms
proof (induction packets arbitrary: c)
  case Nil
  then show ?case by (auto simp: conn_inv_def Let_def stream_reply_Indeterminate)
next
  case (Cons p packets)
  let ?s = "received (socket c) @ p"
  from Cons.prems(4) have all: "stream_reply size_text handler c0 (?s @ concat packets) = Inl u"
    by simp
  from Cons.prems(3) have len: "p \<noteq> []" "length p \<le> buffer_size" by auto
  show ?case
  proof (cases "stream_reply size_text handler c0 ?s")
    case (Inl v)
    with all have "v = u" using stream_reply_append(2) by fastforce
    with Inl have "on_event size_text handler c (Read_Some p) = Some (Inl u)"
      using read_event_crash [OF Cons.prems(1,2) len] by simp
    then show ?thesis by (intro exI [of _ "Suc 0"]) (simp del: on_event.simps)
  next
    case (Inr r)
    obtain c1 where c1: "on_event size_text handler c (Read_Some p) = Some (Inr c1)"
      "conn_inv size_text handler c0 c1" "received (socket c1) = ?s"
      "pending c1 = (case r of None \<Rightarrow> Reading | Some rep \<Rightarrow> Writing (to_buffers rep) 0)"
      using read_event [OF Cons.prems(1,2) len Inr] by blast
    from Inr all have "r = None" using stream_reply_append(1) by (cases r) fastforce+
    with c1 Cons.prems all obtain k where "k \<le> length packets"
      "on_events size_text handler c1 (map Read_Some (take k packets)) = Some (Inl u)"
      using Cons.IH [of c1] by auto
    with c1 show ?thesis
      by (intro exI [of _ "Suc k"]) (simp del: on_event.simps)
  qed
qed

text \<open>The bytes that the reads of a sequence of events bring.\<close>

fun event_bytes :: "event \<Rightarrow> string" where
  "event_bytes (Read_Some bytes) = bytes"
| "event_bytes _ = []"

definition read_bytes :: "event list \<Rightarrow> string" where
  "read_bytes evs = concat (map event_bytes evs)"

lemma read_bytes_packets [simp]: "read_bytes (map Read_Some ps) = concat ps"
  by (simp add: read_bytes_def o_def)

lemma on_event_received:
  assumes "on_event size_text handler c ev = Some (Inr c')"
  shows "received (socket c') = received (socket c) @ event_bytes ev"
  using assms
  by (cases ev)
    (auto simp: handle_read_def handle_write_def transmit_def receive_def async_write_reply_def Let_def
      split: if_splits pending_op.splits)

lemma on_events_crash:
  assumes "conn_inv size_text handler c0 c" and "on_events size_text handler c evs = Some (Inl u)"
  shows "stream_reply size_text handler c0 (received (socket c) @ read_bytes evs) = Inl u"
  using assms
proof (induction evs arbitrary: c)
  case (Cons ev evs)
  show ?case
  proof (cases "on_event size_text handler c ev")
    case (Some r)
    show ?thesis
    proof (cases r)
      case (Inl v)
      with Some Cons.prems(2) have last: "evs = []" "v = u" by (auto split: if_splits)
      from Some Inl obtain bytes where ev: "ev = Read_Some bytes" "pending c = Reading"
        "bytes \<noteq> []" "length bytes \<le> buffer_size"
        by (cases ev) (auto simp: handle_read_def Let_def split: if_splits pending_op.splits)
      with Some Inl last show ?thesis
        using read_event_crash [OF Cons.prems(1) ev(2,3,4), of u] by (simp add: read_bytes_def)
    next
      case (Inr c1)
      with Some Cons.prems have "on_events size_text handler c1 evs = Some (Inl u)" by simp
      from Cons.IH [OF conn_inv_event this] Some Inr Cons.prems(1)
      show ?thesis using on_event_received [of size_text handler c ev c1] by (simp add: read_bytes_def)
    qed
  qed (use Cons.prems in simp)
qed simp

section \<open>The properties\<close>

lemma stock_reply_bytes: "reply_bytes (stock_reply size_text st) \<noteq> []"
  by (cases st) (simp_all add: reply_bytes_def gather_to_buffers stock_reply_def set_headers_def Let_def)

lemma start_new [simp]:
  "pending (start c) = Reading" "received (socket (start (new_connection junk g1 g2 g3))) = []"
  by (simp_all add: start_def new_connection_def new_socket_def)

text \<open>
C4: on every sequence of network events, what a connection has sent is the start of the one
reply to the bytes it has received so far, in whatever packets they came. While they hold no
decisive request it sends nothing and does not write; once they do it reads no more, and it
calls shutdown only when the whole reply is out.
\<close>

theorem connection_safety:
  fixes junk g1 g2 g3
  defines "c0 \<equiv> new_connection junk g1 g2 g3"
  assumes run: "on_events size_text handler (start c0) evs = Some (Inr c)"
  shows "case stream_reply size_text handler c0 (received (socket c)) of
      Inl u \<Rightarrow> False
    | Inr None \<Rightarrow> sent (socket c) = [] \<and> \<not> shut_down (socket c) \<and> pending c \<in> {Reading, No_Op}
    | Inr (Some rep) \<Rightarrow> prefix (sent (socket c)) (reply_bytes rep) \<and> pending c \<noteq> Reading \<and>
        (shut_down (socket c) \<longrightarrow> sent (socket c) = reply_bytes rep \<and> pending c = No_Op)"
proof -
  have "conn_inv size_text handler c0 c" using on_events_inv run by (simp add: c0_def)
  then show ?thesis
    by (cases "pending c")
      (auto simp: conn_inv_def Let_def stream_reply_Indeterminate take_is_prefix split: option.splits)
qed

text \<open>The exchange of the witnesses: the parser refuses a slash at the start.\<close>

lemma slash_refused:
  "stream_reply size_text handler (new_connection junk g1 g2 g3) ''/'' =
     Inr (Some (stock_reply size_text bad_request))"
proof -
  have "not_token (CHR ''/'')" by code_simp
  then have "parse method_start (new_request g1 g2) ''/'' = Inr (TFalse, [], method_start, new_request g1 g2)"
    by (simp add: consume_def refuse_def)
  then show ?thesis by (simp add: stream_reply_def new_connection_def del: parse.simps)
qed

lemma bad_request_bytes:
  "\<exists>t. reply_bytes (stock_reply size_text bad_request) = ''HTTP/1.0'' @ t"
  by (auto simp: reply_bytes_def gather_to_buffers stock_reply_full full_reply_def)

lemma slash_exchange:
  "\<exists>c. on_events size_text handler (start (new_connection junk g1 g2 g3))
        [Read_Some ''/'', Bytes_Out 8] = Some (Inr c) \<and>
     received (socket c) = ''/'' \<and> sent (socket c) = ''HTTP/1.0''"
proof -
  obtain t where t: "reply_bytes (stock_reply size_text bad_request) = ''HTTP/1.0'' @ t"
    using bad_request_bytes by blast
  obtain c1 where c1: "on_event size_text handler (start (new_connection junk g1 g2 g3)) (Read_Some ''/'') = Some (Inr c1)"
    "received (socket c1) = ''/''" "sent (socket c1) = []"
    "pending c1 = Writing (to_buffers (conn_reply c1)) 0"
    "conn_reply c1 = stock_reply size_text bad_request"
    using read_event [OF conn_inv_start [where junk = junk and ?g1.0 = g1 and ?g2.0 = g2 and ?g3.0 = g3
          and size_text = size_text and handler = handler] start_new(1), where bytes = "''/''"
        and r = "Some (stock_reply size_text bad_request)"]
    by (auto simp: slash_refused buffer_size_def simp del: on_event.simps)
  have "\<exists>c. on_event size_text handler c1 (Bytes_Out 8) = Some (Inr c) \<and>
     received (socket c) = ''/'' \<and> sent (socket c) = ''HTTP/1.0''"
    using c1 t by (simp add: reply_bytes_def [symmetric] transmit_def)
  with c1(1) show ?thesis by (auto simp del: on_event.simps)
qed

theorem connection_safety_witness:
  "\<exists>c. on_events dec_text (\<lambda>req rep. rep) (start (new_connection [] 1 2 3))
        [Read_Some ''/'', Bytes_Out 8] = Some (Inr c) \<and>
     sent (socket c) = ''HTTP/1.0'' \<and>
     prefix (sent (socket c)) (reply_bytes (stock_reply dec_text bad_request))"
proof -
  obtain c where c: "on_events dec_text (\<lambda>req rep. rep) (start (new_connection [] 1 2 3))
      [Read_Some ''/'', Bytes_Out 8] = Some (Inr c)" "received (socket c) = ''/''"
      "sent (socket c) = ''HTTP/1.0''"
    using slash_exchange by blast
  from connection_safety [OF c(1)] c show ?thesis by (simp add: slash_refused)
qed

text \<open>From the first packet to the end of the reply.\<close>

lemma answer_run:
  fixes junk g1 g2 g3
  defines "c0 \<equiv> new_connection junk g1 g2 g3"
  assumes packets: "\<forall>p \<in> set packets. p \<noteq> [] \<and> length p \<le> buffer_size"
    and reply: "stream_reply size_text handler c0 (concat packets) = Inr (Some rep)"
    and nonempty: "reply_bytes rep \<noteq> []"
  shows "\<exists>k \<le> length packets. \<exists>c.
    on_events size_text handler (start c0) (map Read_Some (take k packets) @ flush_events rep) = Some (Inr c) \<and>
    sent (socket c) = reply_bytes rep \<and> shut_down (socket c) \<and>
    (\<forall>ev. on_event size_text handler c ev = None)"
proof -
  have "conn_inv size_text handler c0 (start c0)" "received (socket (start c0)) = []"
    by (simp_all add: c0_def conn_inv_start)
  with feed_packets [of size_text handler c0 "start c0" packets rep] packets reply obtain k c1 where
    "k \<le> length packets" and
    c1: "on_events size_text handler (start c0) (map Read_Some (take k packets)) = Some (Inr c1)"
    "pending c1 = Writing (to_buffers (conn_reply c1)) 0" "conn_reply c1 = rep" "sent (socket c1) = []"
    by auto
  moreover obtain c where "on_events size_text handler c1 (flush_events rep) = Some (Inr c)"
    "pending c = No_Op" "sent (socket c) = reply_bytes rep" "shut_down (socket c)"
    using flush_reply [of c1 size_text handler] c1 nonempty by auto
  moreover from \<open>pending c = No_Op\<close> have "on_event size_text handler c ev = None" for ev
    by (cases ev) simp_all
  ultimately show ?thesis using on_events_append [OF c1(1)] by auto
qed

text \<open>
Every client with a decisive request gets its whole reply. Cut into any packets that fit
the buffer, its bytes are read up to the packet that decides; then the reply to the whole
stream goes out in full, the connection is shut down and nothing is pending on it.
\<close>

lemma connection_answers:
  fixes junk g1 g2 g3
  defines "c0 \<equiv> new_connection junk g1 g2 g3"
  assumes packets: "\<forall>p \<in> set packets. p \<noteq> [] \<and> length p \<le> buffer_size"
    and reply: "stream_reply size_text handler c0 (concat packets) = Inr (Some rep)"
    and nonempty: "reply_bytes rep \<noteq> []"
  shows "\<exists>k \<le> length packets. \<exists>c.
    on_events size_text handler (start c0) (map Read_Some (take k packets) @ flush_events rep) = Some (Inr c) \<and>
    sent (socket c) = reply_bytes rep \<and> shut_down (socket c) \<and>
    (\<forall>ev. on_event size_text handler c ev = None)"
  using answer_run [OF packets reply [unfolded c0_def] nonempty] by (simp add: c0_def)

text \<open>
C21: undefined behaviour can be forced from the network, by exactly the streams that start
with an overflowing version number: some sequence of events whose reads bring the start of the
stream leads to it.
\<close>

theorem connection_undefined_iff:
  "(\<exists>evs u. on_events size_text handler (start (new_connection junk g1 g2 g3)) evs = Some (Inl u) \<and>
      prefix (read_bytes evs) s) = overflowing_text s"
proof
  let ?c0 = "new_connection junk g1 g2 g3"
  have fresh: "parser ?c0 = method_start" "conn_request ?c0 = new_request g1 g2"
    by (simp_all add: new_connection_def)
  {
    assume "\<exists>evs u. on_events size_text handler (start ?c0) evs = Some (Inl u) \<and> prefix (read_bytes evs) s"
    then obtain evs u t where "on_events size_text handler (start ?c0) evs = Some (Inl u)"
      and s: "s = read_bytes evs @ t" by (auto simp: prefix_def)
    from on_events_crash [OF conn_inv_start this(1)]
    have "stream_reply size_text handler ?c0 (read_bytes evs @ t) = Inl u"
      using stream_reply_append(2) by simp
    then have "parse method_start (new_request g1 g2) s = Inl u"
      by (simp add: stream_reply_def s fresh)
    from parse_crash [OF consumed_fresh this] show "overflowing_text s" by simp
  next
    assume "overflowing_text s"
    let ?packets = "map (\<lambda>c. [c]) s"
    have "stream_reply size_text handler ?c0 (concat ?packets) = Inl Signed_Overflow"
      using overflowing_crashes [OF \<open>overflowing_text s\<close>] by (simp add: stream_reply_def fresh)
    then obtain k where
      "on_events size_text handler (start ?c0) (map Read_Some (take k ?packets)) = Some (Inl Signed_Overflow)"
      using feed_packets_crash [OF conn_inv_start [where junk = junk and ?g1.0 = g1 and ?g2.0 = g2 and ?g3.0 = g3
          and size_text = size_text and handler = handler] start_new(1), where packets = ?packets]
      by (auto simp: buffer_size_def)
    moreover have "concat (take k ?packets) = take k s" by (simp add: take_map)
    then have "prefix (read_bytes (map Read_Some (take k ?packets))) s"
      by (simp only: read_bytes_packets take_is_prefix)
    ultimately show "\<exists>evs u. on_events size_text handler (start ?c0) evs = Some (Inl u) \<and>
        prefix (read_bytes evs) s" by blast
  }
qed

end
