(* ===== verification/ConnectionProgress.thy ===== *)
theory ConnectionProgress imports HttpConnection
begin

text \<open>
  A connection of \<open>full_server/connection.cpp\<close> with a client that sends a fixed stream of bytes,
  on a network that does not fail: whatever packets the network makes of the stream and of the
  reply, the exchange comes to its end.
\<close>

section \<open>The exchange\<close>

text \<open>The connection, and what the client's stream still holds.\<close>

fun no_failure :: "event \<Rightarrow> bool" where
  "no_failure Read_Fails = False"
| "no_failure Write_Fails = False"
| "no_failure ev = True"

definition exchange_step ::
    "(nat \<Rightarrow> string) \<Rightarrow> handler \<Rightarrow> connection \<times> string \<Rightarrow> connection \<times> string \<Rightarrow> bool" where
  "exchange_step size_text handler x y \<longleftrightarrow>
     (\<exists>ev. no_failure ev \<and> snd x = event_bytes ev @ snd y \<and>
        on_event size_text handler (fst x) ev = Some (Inr (fst y)))"

text \<open>
  The states of an exchange whose stream has a reply: the stream is what was received and what is
  still to come, and a connection that has closed has shut its socket down.
\<close>

definition exchange_inv ::
    "(nat \<Rightarrow> string) \<Rightarrow> handler \<Rightarrow> connection \<Rightarrow> string \<Rightarrow> connection \<times> string \<Rightarrow> bool" where
  "exchange_inv size_text handler c0 s x \<longleftrightarrow>
     conn_inv size_text handler c0 (fst x) \<and> received (socket (fst x)) @ snd x = s \<and>
     (pending (fst x) = No_Op \<longrightarrow> shut_down (socket (fst x)))"

definition exchange_left :: "reply \<Rightarrow> connection \<times> string \<Rightarrow> nat" where
  "exchange_left rep x =
     (case pending (fst x) of
        Reading \<Rightarrow> length (snd x) + length (reply_bytes rep) + 2
      | Writing bufs n \<Rightarrow> length (reply_bytes rep) - n + 1
      | No_Op \<Rightarrow> 0)"

definition exchange_over :: "reply \<Rightarrow> connection \<times> string \<Rightarrow> bool" where
  "exchange_over rep x \<longleftrightarrow> pending (fst x) = No_Op \<and>
     sent (socket (fst x)) = reply_bytes rep \<and> shut_down (socket (fst x))"

lemma exchange_reply:
  assumes "exchange_inv size_text handler c0 s x" and "stream_reply size_text handler c0 s = Inr (Some rep)"
    and "stream_reply size_text handler c0 (received (socket (fst x))) = Inr (Some rep')"
  shows "rep' = rep"
  using assms stream_reply_append(1) by (fastforce simp: exchange_inv_def)

lemma on_event_no_failure_shuts:
  "on_event size_text handler c ev = Some (Inr c') \<Longrightarrow> no_failure ev \<Longrightarrow> pending c' = No_Op \<Longrightarrow> shut_down (socket c')"
  by (cases ev)
    (auto simp: handle_read_def handle_write_def transmit_def receive_def async_write_reply_def Let_def
      split: if_splits pending_op.splits)

lemma exchange_inv_step:
  assumes "exchange_inv size_text handler c0 s x" "exchange_step size_text handler x y"
  shows "exchange_inv size_text handler c0 s y"
  using assms conn_inv_event on_event_received on_event_no_failure_shuts
  by (fastforce simp: exchange_inv_def exchange_step_def)

lemma exchange_writing:
  assumes "exchange_inv size_text handler c0 s x" and "stream_reply size_text handler c0 s = Inr (Some rep)"
    and "pending (fst x) = Writing bufs n"
  shows "gather (conn_reply (fst x)) bufs = reply_bytes rep \<and> n \<le> length (reply_bytes rep)"
proof -
  from assms(1,3) have w: "stream_reply size_text handler c0 (received (socket (fst x))) = Inr (Some (conn_reply (fst x)))"
    "bufs = to_buffers (conn_reply (fst x))" "n \<le> length (reply_bytes (conn_reply (fst x)))"
    by (auto simp: exchange_inv_def conn_inv_def Let_def)
  from exchange_reply [OF assms(1,2) w(1)] w(2,3) show ?thesis by (simp add: reply_bytes_def)
qed

lemma exchange_uses_up:
  assumes inv: "exchange_inv size_text handler c0 s x" and rep: "stream_reply size_text handler c0 s = Inr (Some rep)"
    and step: "exchange_step size_text handler x y"
  shows "exchange_left rep y < exchange_left rep x"
proof -
  from step obtain ev where ev: "no_failure ev" "snd x = event_bytes ev @ snd y"
    "on_event size_text handler (fst x) ev = Some (Inr (fst y))" by (auto simp: exchange_step_def)
  obtain c' u where y: "y = (c', u)" by fastforce
  show ?thesis
  proof (cases ev)
    case (Read_Some bytes)
    with ev have r: "pending (fst x) = Reading" "bytes \<noteq> []" and
      "pending (fst y) = Reading \<or> (\<exists>bufs. pending (fst y) = Writing bufs 0)"
      by (auto simp: y handle_read_def async_write_reply_def Let_def split: if_splits)
    with ev(2) Read_Some show ?thesis by (auto simp: exchange_left_def)
  next
    case (Bytes_Out k)
    with ev obtain bufs n where p: "pending (fst x) = Writing bufs n" by (auto split: pending_op.splits)
    with exchange_writing [OF inv rep p] Bytes_Out ev show ?thesis
      by (auto simp: y exchange_left_def transmit_def Let_def split: if_splits)
  next
    case Write_Completes
    with ev show ?thesis by (auto simp: y exchange_left_def handle_write_def split: pending_op.splits if_splits)
  qed (use ev in simp_all)
qed

lemma exchange_goes_on:
  assumes inv: "exchange_inv size_text handler c0 s x" and rep: "stream_reply size_text handler c0 s = Inr (Some rep)"
    and go: "\<not> exchange_over rep x"
  shows "\<exists>y. exchange_step size_text handler x y"
proof (cases "pending (fst x)")
  case Reading
  have ci: "conn_inv size_text handler c0 (fst x)" and s: "s = received (socket (fst x)) @ snd x"
    using inv by (simp_all add: exchange_inv_def)
  have "snd x \<noteq> []"
    using ci rep Reading s by (auto simp: conn_inv_def Let_def stream_reply_Indeterminate)
  then obtain b bs where bs: "snd x = [b] @ bs" by (cases "snd x") auto
  have "\<exists>r. stream_reply size_text handler c0 (received (socket (fst x)) @ [b]) = Inr r"
    using rep s bs stream_reply_append(2) [of size_text handler c0 "received (socket (fst x)) @ [b]" _ bs]
    by (cases "stream_reply size_text handler c0 (received (socket (fst x)) @ [b])") auto
  with read_event [OF ci Reading, of "[b]"] obtain c' where
    "on_event size_text handler (fst x) (Read_Some [b]) = Some (Inr c')" by (auto simp: buffer_size_def)
  with bs show ?thesis
    unfolding exchange_step_def by (intro exI [of _ "(c', bs)"] exI [of _ "Read_Some [b]"]) simp
next
  case (Writing bufs n)
  note w = exchange_writing [OF inv rep Writing]
  show ?thesis
  proof (cases "n = length (reply_bytes rep)")
    case True
    with Writing w show ?thesis
      unfolding exchange_step_def
      by (intro exI [of _ "(handle_write False ((fst x)\<lparr>pending := No_Op\<rparr>), snd x)"] exI [of _ Write_Completes]) simp
  next
    case False
    with w have "1 \<le> length (reply_bytes rep) - n" by arith
    with Writing w show ?thesis
      unfolding exchange_step_def
      by (intro exI [of _ "(transmit (take 1 (drop n (reply_bytes rep))) ((fst x)\<lparr>pending := Writing bufs (n + 1)\<rparr>), snd x)"]
            exI [of _ "Bytes_Out 1"]) (simp add: Let_def)
  qed
next
  case No_Op
  with inv have shut: "shut_down (socket (fst x))" by (simp add: exchange_inv_def)
  with inv No_Op obtain r where r: "stream_reply size_text handler c0 (received (socket (fst x))) = Inr (Some r)"
    "sent (socket (fst x)) = reply_bytes r"
    by (auto simp: exchange_inv_def conn_inv_def Let_def split: option.splits)
  with exchange_reply [OF inv rep r(1)] No_Op shut go show ?thesis by (simp add: exchange_over_def)
qed

text \<open>Without a reply to the stream the contract says nothing.\<close>

interpretation exchange: ending_system "exchange_step size_text handler"
  "\<lambda>x. exchange_inv size_text handler c0 s x \<and> stream_reply size_text handler c0 s = Inr (Some rep)"
  "exchange_left rep" "exchange_over rep"
  for size_text handler c0 s rep
  by unfold_locales (blast intro: exchange_inv_step exchange_uses_up exchange_goes_on)+

lemma exchange_over_stuck: "exchange_over rep x \<Longrightarrow> \<not> exchange_step size_text handler x y"
proof -
  have "on_event size_text handler c ev = None" if "pending c = No_Op" for c ev
    using that by (cases ev) simp_all
  then show "exchange_over rep x \<Longrightarrow> ?thesis" by (simp add: exchange_over_def exchange_step_def)
qed

lemma exchange_inv_start:
  "exchange_inv size_text handler (new_connection junk g1 g2 g3) s (start (new_connection junk g1 g2 g3), s)"
  by (simp add: exchange_inv_def conn_inv_start)

lemma exchange_run:
  fixes junk g1 g2 g3
  defines "c0 \<equiv> new_connection junk g1 g2 g3"
  assumes rep: "stream_reply size_text handler c0 s = Inr (Some rep)"
    and run: "(exchange_step size_text handler ^^ k) (start c0, s) x"
  shows "k \<le> length s + length (reply_bytes rep) + 2 \<and>
    ((\<exists>y. exchange_step size_text handler x y) \<or> exchange_over rep x)"
proof -
  from exchange.bounded_run [OF run] exchange_inv_start [of size_text handler junk g1 g2 g3 s] rep
  have "exchange_inv size_text handler c0 s x" "k + exchange_left rep x \<le> exchange_left rep (start c0, s)"
    unfolding c0_def by blast+
  moreover have "exchange_left rep (start c0, s) = length s + length (reply_bytes rep) + 2"
    by (simp add: exchange_left_def c0_def)
  ultimately show ?thesis using exchange.goes_on rep by fastforce
qed

text \<open>
C8: the reply is inevitable. When the stream of a client decides the parser, every exchange with it
on a network that does not fail, whatever the packets, has at most as many steps as the stream
and the reply have bytes and two more, and gets stuck only when the connection has sent the
whole reply and has closed.
\<close>

theorem reply_inevitable:
  assumes "stream_reply size_text handler (new_connection junk g1 g2 g3) s = Inr (Some rep)"
    and "(exchange_step size_text handler ^^ k) (start (new_connection junk g1 g2 g3), s) x"
  shows "k \<le> length s + length (reply_bytes rep) + 2 \<and>
    ((\<exists>y. exchange_step size_text handler x y) \<or>
     pending (fst x) = No_Op \<and> sent (socket (fst x)) = reply_bytes rep \<and> shut_down (socket (fst x)))"
  using exchange_run [OF assms] by (simp add: exchange_over_def)

text \<open>A refused request: two steps, and there is still one to come.\<close>

theorem reply_inevitable_witness:
  "\<exists>x. (exchange_step dec_text (\<lambda>req rep. rep) ^^ 2) (start (new_connection [] 1 2 3), ''/'') x \<and>
     2 \<le> length ''/'' + length (reply_bytes (stock_reply dec_text bad_request)) + 2"
proof -
  let ?step = "exchange_step dec_text (\<lambda>req rep. rep)"
  obtain c1 c where c: "on_event dec_text (\<lambda>req rep. rep) (start (new_connection [] 1 2 3)) (Read_Some ''/'') = Some (Inr c1)"
    "on_event dec_text (\<lambda>req rep. rep) c1 (Bytes_Out 8) = Some (Inr c)"
    using slash_exchange [of dec_text "\<lambda>req rep. rep" "[]" 1 2 3] by (auto split: option.splits sum.splits if_splits simp del: on_event.simps)
  have "?step (start (new_connection [] 1 2 3), ''/'') (c1, [])"
    unfolding exchange_step_def using c(1) by (intro exI [of _ "Read_Some ''/''"]) (simp del: on_event.simps)
  moreover have "?step (c1, []) (c, [])"
    unfolding exchange_step_def using c(2) by (intro exI [of _ "Bytes_Out 8"]) (simp del: on_event.simps)
  ultimately have run: "(?step ^^ 2) (start (new_connection [] 1 2 3), ''/'') (c, [])"
    by (auto simp: numeral_2_eq_2)
  from reply_inevitable [OF slash_refused run] run show ?thesis by blast
qed

end
