(* ===== verification/HandlerSpec.thy ===== *)
theory HandlerSpec imports RequestHandler
begin

text \<open>
  What the request handler promises: the encodings that \<open>url_decode\<close> accepts and what they
  stand for, the reply to a request on every branch and on the wire, and the part of the
  file system that a request can reach.
\<close>

section \<open>Encodings\<close>

text \<open>The encodings of a text that the decoder accepts.\<close>

inductive encodes :: "string \<Rightarrow> string \<Rightarrow> bool" where
  encodes_Nil: "encodes [] []"
| encodes_escape: "escape_value x y = Some v \<Longrightarrow> encodes s t \<Longrightarrow>
    encodes (CHR ''%'' # x # y # s) (int_char v # t)"
| encodes_plus: "encodes s t \<Longrightarrow> encodes (CHR ''+'' # s) (CHR '' '' # t)"
| encodes_plain: "c \<noteq> CHR ''%'' \<Longrightarrow> c \<noteq> CHR ''+'' \<Longrightarrow> encodes s t \<Longrightarrow> encodes (c # s) (c # t)"

inductive_cases encodes_ConsE: "encodes (c # s) t"
inductive_simps encodes_Nil_iff [simp]: "encodes [] t"

lemma url_decode_Nil: "url_decode [] = (True, [])"
  by (simp add: url_decode_def)

lemma url_decode_plain:
  "c \<noteq> CHR ''%'' \<Longrightarrow> c \<noteq> CHR ''+'' \<Longrightarrow> url_decode (c # s) = map_prod id (Cons c) (url_decode s)"
  using url_decode_step [of s "[c]"] by (cases "url_decode s") (simp add: url_decode_def)

lemma url_decode_plus: "url_decode (CHR ''+'' # s) = map_prod id (Cons (CHR '' '')) (url_decode s)"
  using url_decode_step [of s "'' ''"] by (cases "url_decode s") (simp add: url_decode_def)

lemma url_decode_escape:
  "url_decode (CHR ''%'' # x # y # s) =
     (case escape_value x y of None \<Rightarrow> (False, [])
      | Some v \<Rightarrow> map_prod id (Cons (int_char v)) (url_decode s))"
  using url_decode_step [of s "[int_char v]" for v]
  by (cases "url_decode s") (simp add: url_decode_def extract_hex_int_two split: option.split)

lemma url_decode_short: "length s < 2 \<Longrightarrow> url_decode (CHR ''%'' # s) = (False, [])"
  by (simp add: url_decode_def)

lemmas url_decode_cases =
  url_decode_Nil url_decode_plain url_decode_plus url_decode_escape url_decode_short

lemma encodes_url_decode: "encodes s t \<Longrightarrow> url_decode s = (True, t)"
  by (induction rule: encodes.induct) (simp_all add: url_decode_cases)

lemma url_decode_encodes: "url_decode s = (True, t) \<Longrightarrow> encodes s t"
proof (induction "length s" arbitrary: s t rule: less_induct)
  case less
  show ?case
  proof (cases s)
    case Nil
    with less.prems show ?thesis by (simp add: url_decode_Nil)
  next
    case (Cons c r)
    consider "c = CHR ''+''" | "c \<noteq> CHR ''%''" "c \<noteq> CHR ''+''" | "c = CHR ''%''" "length r < 2"
      | x y q where "c = CHR ''%''" "r = x # y # q"
      by (cases r rule: remdups_adj.cases) fastforce+
    then show ?thesis
    proof cases
      case 1
      with less Cons show ?thesis
        by (cases "url_decode r") (auto simp: url_decode_plus intro: encodes_plus)
    next
      case 2
      with less Cons show ?thesis
        by (cases "url_decode r") (auto simp: url_decode_plain intro: encodes_plain)
    next
      case 3
      with less.prems Cons show ?thesis by (simp add: url_decode_short)
    next
      case 4
      with less Cons show ?thesis
        by (cases "url_decode q")
          (auto simp: url_decode_escape intro: encodes_escape split: option.splits)
    qed
  qed
qed

section \<open>Percent-encoding\<close>

text \<open>
  The encoder of RFC 3986: a character of the set that may stand for itself is kept, every
  other byte becomes a percent sign and two hexadecimal digits.
\<close>

definition escape_char :: "char \<Rightarrow> string" where
  "escape_char c =
     (let n = of_char c :: nat in [CHR ''%'', digit_text (n div 16), digit_text (n mod 16)])"

definition url_encode :: "(char \<Rightarrow> bool) \<Rightarrow> string \<Rightarrow> string" where
  "url_encode keep s =
     concat (map (\<lambda>c. if keep c \<and> c \<noteq> CHR ''%'' \<and> c \<noteq> CHR ''+'' then [c] else escape_char c) s)"

lemma of_char_nat_range: "(of_char c :: nat) < 256"
  using of_char_int_range [of c] by (metis nat_int_comparison(2) of_nat_of_char of_nat_numeral)

lemma escape_value_digits:
  assumes "a < 16" "b < 16"
  shows "escape_value (digit_text a) (digit_text b) = Some (int (16 * a + b))"
proof -
  have "is_hex (digit_text a)" "is_hex (digit_text b)"
    using assms by (simp_all add: is_hex_def)
  with assms show ?thesis by (simp add: escape_value_def hex_value_def)
qed

lemma int_char_of_char: "int_char (int (of_char c)) = c"
  by (metis char_of_char int_char_def of_nat_of_char)

lemma encodes_url_encode: "encodes (url_encode keep s) s"
proof (induction s)
  case (Cons c s)
  let ?n = "of_char c :: nat"
  have "escape_value (digit_text (?n div 16)) (digit_text (?n mod 16)) = Some (int ?n)"
    using escape_value_digits [of "?n div 16" "?n mod 16"] of_char_nat_range [of c]
    by (simp add: div_less_iff_less_mult)
  from encodes_escape [OF this Cons] have "encodes (escape_char c @ url_encode keep s) (c # s)"
    by (simp add: escape_char_def Let_def int_char_of_char)
  with Cons show ?case by (auto simp: url_encode_def intro: encodes_plain)
qed (simp add: url_encode_def)

text \<open>
C22: the decoder accepts exactly the texts of the relation \<open>encodes\<close> and returns what they
stand for: a plain character stands for itself, a plus sign for a blank, and a percent sign
with two characters for the byte that \<open>escape_value\<close> gives (which is more than two
hexadecimal digits: see there); everything else is refused.
\<close>

theorem url_decode_language:
  "(url_decode s = (True, t)) = encodes s t \<and> fst (url_decode s) = (\<exists>u. encodes s u)"
  by (metis (full_types) encodes_url_decode url_decode_encodes fst_conv prod.collapse)

text \<open>
Decoding undoes percent-encoding, for every choice of the characters that the encoder
leaves as they are.
\<close>

lemma url_decode_encode: "url_decode (url_encode keep s) = (True, s)"
  by (rule encodes_url_decode) (rule encodes_url_encode)

section \<open>Which reply\<close>

text \<open>What a request gets, apart from the layout of the reply.\<close>

datatype answer = Refused | Missing | Page string string

definition answer_to :: "(string \<Rightarrow> string option) \<Rightarrow> string \<Rightarrow> string \<Rightarrow> answer" where
  "answer_to fs doc_root u =
     (case request_path u of
        None \<Rightarrow> Refused
      | Some path \<Rightarrow>
          (case fs (doc_root @ c_str path) of
             None \<Rightarrow> Missing
           | Some bytes \<Rightarrow> Page (extension_to_type (path_extension path)) bytes))"

fun answer_reply :: "(nat \<Rightarrow> string) \<Rightarrow> answer \<Rightarrow> reply" where
  "answer_reply size_text Refused =
     full_reply size_text bad_request ''text/html'' (html_page ''Bad Request'' ''400 Bad Request'')"
| "answer_reply size_text Missing =
     full_reply size_text not_found ''text/html'' (html_page ''Not Found'' ''404 Not Found'')"
| "answer_reply size_text (Page mime bytes) = full_reply size_text ok mime bytes"

lemma read_chunks_all: "read_chunks left acc = acc @ left"
proof (induction left acc rule: read_chunks.induct)
  case (1 left acc)
  then show ?case by (subst read_chunks.simps) (cases "left = []", simp_all add: Let_def)
qed

lemma c_str_append: "NUL \<notin> set s \<Longrightarrow> c_str (s @ t) = s @ c_str t"
  by (induction s) (auto simp: c_str_def)

lemma request_path_cases:
  "request_path u =
     (case url_decode u of (decoded, p) \<Rightarrow>
        if decoded \<and> p \<noteq> [] \<and> hd p = CHR ''/'' \<and> str_find p ''..'' 0 = None
        then Some (if last p = CHR ''/'' then p @ ''index.html'' else p) else None)"
  by (cases "url_decode u") (auto simp: request_path_def Let_def hd_conv_nth last_conv_nth)

lemma handle_request_answer:
  assumes "NUL \<notin> set doc_root"
  shows "handle_request size_text fs doc_root req (new_reply g) =
    answer_reply size_text (answer_to fs doc_root (req_uri req))"
proof -
  have "stock_content bad_request = html_page ''Bad Request'' ''400 Bad Request''"
    "stock_content not_found = html_page ''Not Found'' ''404 Not Found''"
    by (simp_all add: html_page_def)
  then show ?thesis
    by (simp add: handle_request_def answer_to_def stock_reply_full set_headers_full Let_def
        read_chunks_all new_reply_def c_str_append [OF assms]
        del: stock_content.simps split: option.split)
qed

lemma mime_plain: "CR \<notin> set (extension_to_type e)"
  using extension_to_type_range [of e] by auto

text \<open>What the client reads of an answer: the lines of the head, and the body.\<close>

fun answer_page :: "(nat \<Rightarrow> string) \<Rightarrow> answer \<Rightarrow> string list \<times> string" where
  "answer_page size_text Refused =
     ([''HTTP/1.0 400 Bad Request'', ''Content-Length: '' @ size_text 89, ''Content-Type: text/html''],
      html_page ''Bad Request'' ''400 Bad Request'')"
| "answer_page size_text Missing =
     ([''HTTP/1.0 404 Not Found'', ''Content-Length: '' @ size_text 85, ''Content-Type: text/html''],
      html_page ''Not Found'' ''404 Not Found'')"
| "answer_page size_text (Page mime bytes) =
     ([''HTTP/1.0 200 OK'', ''Content-Length: '' @ size_text (length bytes), ''Content-Type: '' @ mime],
      bytes)"

lemma answer_on_wire:
  fixes size_text fs doc_root u
  defines "rep \<equiv> answer_reply size_text (answer_to fs doc_root u)"
  assumes printer: "size_printer size_text"
  shows "read_head (gather rep (to_buffers rep)) = Some (answer_page size_text (answer_to fs doc_root u))"
proof -
  note wire = full_reply_on_wire [OF printer]
  have texts: "status_text bad_request = ''400 Bad Request''" "status_text not_found = ''404 Not Found''"
    "status_text ok = ''200 OK''"
    by (simp_all add: status_text_def wire_code_def dec_text_codes)
  have len: "length (html_page ''Bad Request'' ''400 Bad Request'') = 89"
    "length (html_page ''Not Found'' ''404 Not Found'') = 85" by (simp_all add: html_page_def)
  show ?thesis
    unfolding rep_def
    by (simp add: answer_to_def wire texts len mime_plain split: option.split)
qed

text \<open>
C7: on every branch, what the client reads off the connection. A URL that does not decode, or
decodes to a path that is empty, relative or has \<open>..\<close> in it gets the page of status 400; a path
whose file does not open gets that of 404; any other gets status 200 with exactly the bytes of
the file. The head has the length of the body that follows it, and the content type of the
path's extension.
\<close>

theorem request_answered_on_wire:
  fixes size_text fs doc_root req g
  defines "rep \<equiv> handle_request size_text fs doc_root req (new_reply g)"
    and "path \<equiv> request_path (req_uri req)"
  assumes printer: "size_printer size_text" and root: "NUL \<notin> set doc_root"
  shows "read_head (gather rep (to_buffers rep)) = Some
    (case path of
       None \<Rightarrow> ([''HTTP/1.0 400 Bad Request'', ''Content-Length: '' @ size_text 89,
                 ''Content-Type: text/html''], html_page ''Bad Request'' ''400 Bad Request'')
     | Some p \<Rightarrow>
         (case fs (doc_root @ c_str p) of
            None \<Rightarrow> ([''HTTP/1.0 404 Not Found'', ''Content-Length: '' @ size_text 85,
                      ''Content-Type: text/html''], html_page ''Not Found'' ''404 Not Found'')
          | Some bytes \<Rightarrow> ([''HTTP/1.0 200 OK'', ''Content-Length: '' @ size_text (length bytes),
                ''Content-Type: '' @ extension_to_type (path_extension p)], bytes)))"
  unfolding rep_def path_def handle_request_answer [OF root] answer_on_wire [OF printer]
  by (simp add: answer_to_def split: option.split)

theorem request_answered_on_wire_witness:
  "let fs = (\<lambda>p. if p = ''www/a.gif'' then Some ''GIF89a'' else None);
       req = (new_request 0 0)\<lparr>req_uri := ''/%61.gif''\<rparr>;
       rep = handle_request dec_text fs ''www'' req (new_reply 7)
   in read_head (gather rep (to_buffers rep)) =
        Some ([''HTTP/1.0 200 OK'', ''Content-Length: 6'', ''Content-Type: image/gif''], ''GIF89a'')"
proof -
  have path: "request_path ''/%61.gif'' = Some ''/a.gif''" by code_simp
  have ext: "extension_to_type (path_extension ''/a.gif'') = ''image/gif''" by code_simp
  have num: "dec_text (length ''GIF89a'') = ''6''" by code_simp
  have nul: "NUL \<notin> set ''www''" by simp
  have "c_str ''/a.gif'' = ''/a.gif''" by code_simp
  then show ?thesis
    unfolding Let_def
    by (subst request_answered_on_wire [OF std_text.size_printer_axioms nul])
      (simp add: path ext num [simplified])
qed

section \<open>Confinement to the document root\<close>

text \<open>
  How the operating system reads a path (links apart): from the root directory when it starts
  with a slash, otherwise from the working directory \<open>cwd\<close>, one component after the other.
  A directory is the list of names that leads to it.
\<close>

fun components :: "string \<Rightarrow> string list" where
  "components [] = [[]]"
| "components (c # cs) =
     (if c = CHR ''/'' then [] # components cs
      else (case components cs of [] \<Rightarrow> [[c]] | w # ws \<Rightarrow> (c # w) # ws))"

fun walk :: "string list \<Rightarrow> string list \<Rightarrow> string list" where
  "walk dir [] = dir"
| "walk dir (w # ws) =
     (if w = [] \<or> w = ''.'' then walk dir ws
      else if w = ''..'' then walk (butlast dir) ws
      else walk (dir @ [w]) ws)"

definition resolve :: "string list \<Rightarrow> string \<Rightarrow> string list" where
  "resolve cwd p = walk (if p \<noteq> [] \<and> hd p = CHR ''/'' then [] else cwd) (components p)"

definition below :: "string list \<Rightarrow> string \<Rightarrow> string \<Rightarrow> bool" where
  "below cwd root p \<longleftrightarrow> prefix (resolve cwd root) (resolve cwd p)"

lemma components_not_Nil [simp]: "components s \<noteq> []"
  by (induction s) (auto split: list.split)

lemma components_slash: "components (a @ CHR ''/'' # b) = components a @ components b"
  by (induction a) (auto split: list.split)

lemma walk_append: "walk dir (xs @ ys) = walk (walk dir xs) ys"
  by (induction dir xs rule: walk.induct) simp_all

lemma walk_down: "''..'' \<notin> set ws \<Longrightarrow> prefix dir (walk dir ws)"
  by (induction dir ws rule: walk.induct) (auto dest: append_prefixD)

lemma components_first: "\<exists>ws. components s = takeWhile (\<lambda>c. c \<noteq> CHR ''/'') s # ws"
  by (induction s) auto

lemma components_sublist: "w \<in> set (components s) \<Longrightarrow> sublist w s"
proof (induction s arbitrary: w)
  case (Cons c s)
  obtain w0 ws where c0: "components s = w0 # ws" and "w0 = takeWhile (\<lambda>c. c \<noteq> CHR ''/'') s"
    using components_first [of s] by auto
  then have pre: "prefix w0 s" by (simp add: takeWhile_is_prefix)
  show ?case
  proof (cases "c = CHR ''/''")
    case True
    with Cons show ?thesis by (auto intro: sublist_Cons_right [THEN iffD2])
  next
    case False
    with Cons.prems c0 have "w = c # w0 \<or> w \<in> set (components s)" by auto
    with Cons.IH pre show ?thesis by (auto simp: sublist_Cons_right)
  qed
qed simp

lemma find_from_None: "find_from s d pos = None \<longleftrightarrow> \<not> sublist d s"
  by (induction s d pos rule: find_from.induct) (auto simp: sublist_Cons_right)

lemma resolve_root:
  assumes "root \<noteq> []"
  shows "resolve cwd (root @ CHR ''/'' # q) = walk (resolve cwd root) (components q)"
  using assms by (simp add: resolve_def components_slash walk_append)

lemma dots_append_index:
  assumes "sublist ''..'' (q @ ''index.html'')" "last q = CHR ''/''"
  shows "sublist ''..'' q"
proof -
  have no: "\<not> sublist ''..'' ''index.html''" "\<not> prefix ''..'' ''index.html''"
    by (simp_all add: sublist_Cons_right)
  from assms(1) no consider "sublist ''..'' q"
    | xs ys where "xs @ ys = ''..''" "suffix xs q" "prefix ys ''index.html''"
    unfolding sublist_append by metis
  then show ?thesis
  proof cases
    case 2
    then have "xs \<noteq> []" using no by auto
    with 2(2) have "last q = last xs" by (auto simp: suffix_def)
    moreover have "set xs \<subseteq> {CHR ''.''}"
      using arg_cong [OF 2(1), of set] by auto
    then have "last xs \<in> {CHR ''.''}" using last_in_set [OF \<open>xs \<noteq> []\<close>] by (rule subsetD)
    ultimately show ?thesis using assms(2) by simp
  qed
qed

lemma request_path_no_dots:
  assumes "request_path u = Some p"
  shows "\<not> sublist ''..'' p" "\<exists>r. p = CHR ''/'' # r"
proof -
  obtain q where q: "q \<noteq> []" "hd q = CHR ''/''" "str_find q ''..'' 0 = None"
      "p = (if last q = CHR ''/'' then q @ ''index.html'' else q)"
    using assms by (auto simp: request_path_cases split: prod.splits if_splits)
  show "\<exists>r. p = CHR ''/'' # r" using q by (cases q) auto
  have "\<not> sublist ''..'' q" using q(3) by (simp add: str_find_def find_from_None)
  with q(4) dots_append_index [of q] show "\<not> sublist ''..'' p" by (auto split: if_splits)
qed

lemma request_path_below:
  assumes p: "request_path u = Some p" and root: "root \<noteq> []"
  shows "below cwd root (root @ c_str p)"
proof -
  obtain r where r: "p = CHR ''/'' # r" using request_path_no_dots [OF p] by blast
  then have cr: "c_str p = CHR ''/'' # c_str r" by (simp add: c_str_def)
  have "sublist (c_str r) p"
    by (simp add: r c_str_def sublist_Cons_right takeWhile_is_prefix prefix_imp_sublist)
  then have "\<not> sublist ''..'' (c_str r)"
    using request_path_no_dots(1) [OF p] sublist_order.order.trans by blast
  then have "''..'' \<notin> set (components (c_str r))" by (auto dest: components_sublist)
  then show ?thesis by (simp add: below_def cr resolve_root [OF root] walk_down)
qed

text \<open>
C3: a request reaches nothing outside the document root. Two file systems that agree on the
paths that lead into the document root give the same reply to every request, whatever else
they hold. (The document root is not empty: an empty one makes every request's path
absolute.)
\<close>

theorem confined_to_doc_root:
  assumes agree: "\<And>p. below cwd root p \<Longrightarrow> fs p = fs' p"
    and root: "root \<noteq> []" "NUL \<notin> set root"
  shows "handle_request size_text fs root req rep = handle_request size_text fs' root req rep"
proof (cases "request_path (req_uri req)")
  case (Some p)
  have "fs (c_str (root @ p)) = fs' (c_str (root @ p))"
    using agree request_path_below [OF Some root(1)] by (simp add: c_str_append [OF root(2)])
  with Some show ?thesis by (simp add: handle_request_def Let_def)
qed (simp add: handle_request_def)

theorem confined_to_doc_root_witness:
  "handle_request dec_text (\<lambda>p. if p = ''../key'' then Some ''secret'' else None) ''www'' (new_request 0 0) (new_reply 0) =
   handle_request dec_text (\<lambda>p. None) ''www'' (new_request 0 0) (new_reply 0)"
proof (rule confined_to_doc_root [where cwd = "[''srv'', ''http'']"])
  have "resolve [''srv'', ''http''] ''../key'' = [''srv'', ''key'']"
    "resolve [''srv'', ''http''] ''www'' = [''srv'', ''http'', ''www'']"
    by code_simp+
  then have "\<not> below [''srv'', ''http''] ''www'' ''../key''" by (simp add: below_def)
  then show "below [''srv'', ''http''] ''www'' p \<Longrightarrow>
    (if p = ''../key'' then Some ''secret'' else None) = None" for p by auto
qed simp_all

section \<open>Two deviations\<close>

text \<open>Escapes that are not two hexadecimal digits are decoded all the same.\<close>

lemma lax_escapes:
  "url_decode ''/%4g'' = (True, [CHR ''/'', CHR 0x04])"
  "url_decode ''/%+4'' = (True, [CHR ''/'', CHR 0x04])"
  "url_decode ''/%-4'' = (True, [CHR ''/'', CHR 0xFC])"
  by code_simp+

text \<open>
  An encoded zero byte ends the path that is opened, but not the path whose extension gives
  the content type: a text file is served as a page.
\<close>

lemma nul_truncates:
  "answer_to (\<lambda>p. if p = ''www/notes.txt'' then Some bytes else None) ''www'' ''/notes.txt%00.html'' =
     Page ''text/html'' bytes"
proof -
  have "request_path ''/notes.txt%00.html'' = Some (''/notes.txt'' @ NUL # ''.html'')" by code_simp
  moreover have "c_str (''/notes.txt'' @ NUL # ''.html'') = ''/notes.txt''" by code_simp
  moreover have "extension_to_type (path_extension (''/notes.txt'' @ NUL # ''.html'')) = ''text/html''"
    by code_simp
  ultimately show ?thesis by (simp add: answer_to_def)
qed

end
