(* ===== verification/HttpServer.thy ===== *)
theory HttpServer imports ConnectionProgress HandlerSpec RequestGrammar
begin

text \<open>
  \<open>full_server/server.cpp\<close> and \<open>posix_main.cpp\<close>: the server accepts connections and runs
  their handlers. A run is an interleaving of whole handlers here; \<open>HttpThreads\<close> shows that the
  threads of the pool, which run them piece by piece, do not get anywhere else.
\<close>

section \<open>The server\<close>

text \<open>
  What is unset in a connection that is made: the buffer, two version numbers, the status.
\<close>

type_synonym unset = "string \<times> int \<times> int \<times> nat"

fun fresh_connection :: "unset \<Rightarrow> connection" where
  "fresh_connection (junk, g1, g2, g3) = new_connection junk g1 g2 g3"

text \<open>
  The connection objects that were made, in the order of their addresses; \<open>next_connection\<close> is the
  address that the shared pointer \<open>new_connection_\<close> holds, so that two pointers may be to one object.
  The sharing keeps an object alive while it has handlers; afterwards nothing happens to it,
  and the model keeps it.
\<close>

record http_server =
  thread_pool_size :: nat
  doc_root :: string
  next_connection :: nat
  accepting :: bool
  connections :: "connection list"
  workers :: nat
  io_stopped :: bool

text \<open>The constructor opens the acceptor and starts the first accept.\<close>

definition new_server :: "string \<Rightarrow> nat \<Rightarrow> unset \<Rightarrow> http_server" where
  "new_server root threads g =
     \<lparr>thread_pool_size = threads, doc_root = root, next_connection = 0,
      accepting = True, connections = [fresh_connection g], workers = 0, io_stopped = False\<rparr>"

definition run_server :: "http_server \<Rightarrow> http_server" where
  "run_server s = s\<lparr>workers := thread_pool_size s\<rparr>"

definition stop_server :: "http_server \<Rightarrow> http_server" where
  "stop_server s = s\<lparr>io_stopped := True\<rparr>"

text \<open>\<open>new_connection_->start()\<close>, and \<open>new_connection_.reset(new connection(...))\<close>.\<close>

definition start_next :: "http_server \<Rightarrow> http_server" where
  "start_next s =
     s\<lparr>connections := (connections s)[next_connection s := start (connections s ! next_connection s)]\<rparr>"

definition reset_next :: "unset \<Rightarrow> http_server \<Rightarrow> http_server" where
  "reset_next g s =
     s\<lparr>next_connection := length (connections s), connections := connections s @ [fresh_connection g]\<rparr>"

lemma next_frame [simp]:
  "accepting (start_next s) = accepting s" "accepting (reset_next g s) = accepting s"
  "workers (start_next s) = workers s" "workers (reset_next g s) = workers s"
  "io_stopped (start_next s) = io_stopped s" "io_stopped (reset_next g s) = io_stopped s"
  "doc_root (start_next s) = doc_root s" "doc_root (reset_next g s) = doc_root s"
  "next_connection (start_next s) = next_connection s" "next_connection (reset_next g s) = length (connections s)"
  "length (connections (start_next s)) = length (connections s)"
  "length (connections (reset_next g s)) = Suc (length (connections s))"
  by (simp_all add: start_next_def reset_next_def)

definition handle_accept :: "bool \<Rightarrow> unset \<Rightarrow> http_server \<Rightarrow> http_server" where
  "handle_accept e g s =
     (if \<not> e then (reset_next g (start_next s))\<lparr>accepting := True\<rparr> else s)"

text \<open>
  Events: an accept completes or fails, something happens to a connection, or the server is
  stopped. Handlers run only in the threads of the pool, and no more once it is stopped.
\<close>

datatype server_event = Accepts unset | Accept_Fails | On_Connection nat event | Stops

definition server_handler ::
    "(nat \<Rightarrow> string) \<Rightarrow> (string \<Rightarrow> string option) \<Rightarrow> http_server \<Rightarrow> handler" where
  "server_handler size_text fs s = handle_request size_text fs (doc_root s)"

fun on_server_event ::
    "(nat \<Rightarrow> string) \<Rightarrow> (string \<Rightarrow> string option) \<Rightarrow> http_server \<Rightarrow> server_event \<Rightarrow>
     (ub + http_server) option" where
  "on_server_event size_text fs s (Accepts g) =
     (if workers s > 0 \<and> \<not> io_stopped s \<and> accepting s
      then Some (Inr (handle_accept False g (s\<lparr>accepting := False\<rparr>))) else None)"
| "on_server_event size_text fs s Accept_Fails =
     (if workers s > 0 \<and> \<not> io_stopped s \<and> accepting s
      then Some (Inr (handle_accept True ([], 0, 0, 0) (s\<lparr>accepting := False\<rparr>))) else None)"
| "on_server_event size_text fs s (On_Connection i ev) =
     (if workers s > 0 \<and> \<not> io_stopped s \<and> i < length (connections s)
      then (case on_event size_text (server_handler size_text fs s) (connections s ! i) ev of
              None \<Rightarrow> None
            | Some (Inl u) \<Rightarrow> Some (Inl u)
            | Some (Inr c) \<Rightarrow> Some (Inr (s\<lparr>connections := (connections s)[i := c]\<rparr>)))
      else None)"
| "on_server_event size_text fs s Stops = Some (Inr (stop_server s))"

fun on_server_events ::
    "(nat \<Rightarrow> string) \<Rightarrow> (string \<Rightarrow> string option) \<Rightarrow> http_server \<Rightarrow> server_event list \<Rightarrow>
     (ub + http_server) option" where
  "on_server_events size_text fs s [] = Some (Inr s)"
| "on_server_events size_text fs s (ev # evs) =
     (case on_server_event size_text fs s ev of
        None \<Rightarrow> None
      | Some (Inl u) \<Rightarrow> (if evs = [] then Some (Inl u) else None)
      | Some (Inr s') \<Rightarrow> on_server_events size_text fs s' evs)"

section \<open>Connections do not disturb each other\<close>

text \<open>The events of one connection, in their order.\<close>

fun events_of :: "nat \<Rightarrow> server_event list \<Rightarrow> event list" where
  "events_of i [] = []"
| "events_of i (On_Connection j ev # evs) = (if j = i then [ev] else []) @ events_of i evs"
| "events_of i (_ # evs) = events_of i evs"

text \<open>The object that the next client will get is fresh, and the last one made.\<close>

definition fresh_next :: "http_server \<Rightarrow> bool" where
  "fresh_next s \<longleftrightarrow> length (connections s) = Suc (next_connection s) \<and>
     (\<exists>g. connections s ! next_connection s = fresh_connection g)"

lemma fresh_nextI:
  "length (connections s) = Suc (next_connection s) \<Longrightarrow> connections s ! next_connection s = fresh_connection g \<Longrightarrow>
     fresh_next s"
  unfolding fresh_next_def by blast

lemma fresh_next_start: "fresh_next (run_server (new_server root threads g))"
  by (rule fresh_nextI [of _ g]) (simp_all add: run_server_def new_server_def)

lemma pending_fresh [simp]: "pending (fresh_connection g) = No_Op"
  by (cases g) (simp add: new_connection_def)

lemma no_event_fresh: "on_event size_text handler (fresh_connection g) ev = None"
  by (cases ev) (simp_all del: fresh_connection.simps)

fun is_accept :: "server_event \<Rightarrow> bool" where
  "is_accept (Accepts g) = True"
| "is_accept _ = False"

definition accepts_in :: "server_event list \<Rightarrow> nat" where
  "accepts_in evs = length (filter is_accept evs)"

lemma accepts_in_Cons [simp]:
  "accepts_in [] = 0" "accepts_in (ev # evs) = (if is_accept ev then Suc (accepts_in evs) else accepts_in evs)"
  by (simp_all add: accepts_in_def)

text \<open>
  One event: an accept starts the next object and makes a fresh one, everything else leaves the
  next object alone.
\<close>

lemma on_server_event_next:
  assumes "on_server_event size_text fs s ev = Some (Inr s')" and "fresh_next s"
  obtains (accept) g g' where "ev = Accepts g'" "connections s ! next_connection s = fresh_connection g"
    "next_connection s' = Suc (next_connection s)"
    "connections s' = (connections s)[next_connection s := start (fresh_connection g)] @ [fresh_connection g']"
  | (same) "\<not> is_accept ev" "next_connection s' = next_connection s" "length (connections s') = length (connections s)"
    "connections s' ! next_connection s = connections s ! next_connection s"
    "\<And>i. next_connection s \<le> i \<Longrightarrow> events_of i [ev] = []"
proof (cases ev)
  case (Accepts g')
  with assms obtain g where "connections s ! next_connection s = fresh_connection g" by (auto simp: fresh_next_def)
  with Accepts assms show thesis
    by (intro accept [of g' g]) (auto simp: handle_accept_def start_next_def reset_next_def fresh_next_def split: if_splits)
next
  case (On_Connection j e)
  with assms no_event_fresh have "j < next_connection s"
    by (cases "j = next_connection s") (auto simp: fresh_next_def less_Suc_eq split: if_splits option.splits)
  with On_Connection assms show thesis
    by (intro same) (auto split: if_splits option.splits sum.splits)
qed (use assms same in \<open>auto simp: handle_accept_def stop_server_def split: if_splits\<close>)

lemma on_server_event_frame:
  assumes "on_server_event size_text fs s ev = Some (Inr s')"
  shows "doc_root s' = doc_root s"
  using assms
  by (cases ev) (auto simp: handle_accept_def start_next_def reset_next_def stop_server_def
      split: if_splits option.splits sum.splits)

lemma fresh_next_event:
  assumes "on_server_event size_text fs s ev = Some (Inr s')" and "fresh_next s"
  shows "fresh_next s' \<and> next_connection s' = next_connection s + accepts_in [ev]"
  using assms
proof (cases rule: on_server_event_next)
  case (accept g g')
  with assms(2) show ?thesis
    by (intro conjI fresh_nextI [of _ g']) (simp_all add: fresh_next_def nth_append)
next
  case same
  with assms(2) show ?thesis by (simp add: fresh_next_def)
qed

lemma on_server_event_connection:
  assumes "on_server_event size_text fs s ev = Some (Inr s')" and "fresh_next s" "i < next_connection s"
  shows "on_events size_text (server_handler size_text fs s) (connections s ! i) (events_of i [ev]) =
    Some (Inr (connections s' ! i))"
  using assms
  by (cases ev)
    (auto simp: handle_accept_def start_next_def reset_next_def stop_server_def fresh_next_def nth_append nth_list_update
      split: if_splits option.splits sum.splits)

lemma events_of_Cons: "events_of i (ev # evs) = events_of i [ev] @ events_of i evs"
  by (cases ev) simp_all

lemma server_handler_frame:
  "doc_root s' = doc_root s \<Longrightarrow> server_handler size_text fs s' = server_handler size_text fs s"
  by (simp add: server_handler_def)

lemma fresh_next_run:
  "on_server_events size_text fs s evs = Some (Inr s') \<Longrightarrow> fresh_next s \<Longrightarrow>
     fresh_next s' \<and> next_connection s' = next_connection s + accepts_in evs \<and>
     (\<forall>i \<ge> next_connection s'. events_of i evs = [])"
proof (induction evs arbitrary: s)
  case (Cons ev evs)
  then obtain s1 where s1: "on_server_event size_text fs s ev = Some (Inr s1)"
    "on_server_events size_text fs s1 evs = Some (Inr s')"
    by (auto split: option.splits sum.splits if_splits)
  note one = fresh_next_event [OF s1(1) Cons.prems(2)]
  with Cons.IH [OF s1(2)] have ih: "fresh_next s'" "next_connection s' = next_connection s1 + accepts_in evs"
    "\<And>i. next_connection s' \<le> i \<Longrightarrow> events_of i evs = []" by simp_all
  have "events_of i [ev] = []" if "next_connection s' \<le> i" for i
    using s1(1) Cons.prems(2)
  proof (cases rule: on_server_event_next)
    case same
    with that ih(2) one show ?thesis by simp
  qed simp
  with ih one show ?case by (subst events_of_Cons) simp
qed simp

lemma connections_independent:
  assumes "on_server_events size_text fs s evs = Some (Inr s')" and "fresh_next s" and "i < next_connection s'"
  shows "\<exists>g'. on_events size_text (server_handler size_text fs s)
    (if i < next_connection s then connections s ! i else start (fresh_connection g'))
    (events_of i evs) = Some (Inr (connections s' ! i))"
  using assms
proof (induction evs arbitrary: s)
  case (Cons ev evs)
  let ?h = "server_handler size_text fs s"
  from Cons.prems(1) obtain s1 where s1: "on_server_event size_text fs s ev = Some (Inr s1)"
    "on_server_events size_text fs s1 evs = Some (Inr s')"
    by (auto split: option.splits sum.splits if_splits)
  note one = fresh_next_event [OF s1(1) Cons.prems(2)]
  from Cons.IH [OF s1(2) _ Cons.prems(3)] one server_handler_frame [OF on_server_event_frame [OF s1(1)]]
  obtain g1 where ih: "on_events size_text ?h
      (if i < next_connection s1 then connections s1 ! i else start (fresh_connection g1))
      (events_of i evs) = Some (Inr (connections s' ! i))" by auto
  show ?case
  proof (cases "i < next_connection s")
    case True
    with ih one have "on_events size_text ?h (connections s1 ! i) (events_of i evs) = Some (Inr (connections s' ! i))"
      by simp
    with True on_events_append [OF on_server_event_connection [OF s1(1) Cons.prems(2) True]]
    show ?thesis by (subst events_of_Cons) simp
  next
    case False
    from s1(1) Cons.prems(2) show ?thesis
    proof (cases rule: on_server_event_next)
      case (accept g g')
      have "connections s1 ! i = start (fresh_connection g)" if "i < next_connection s1"
        using that False accept(3,4) Cons.prems(2) by (simp add: fresh_next_def nth_append less_Suc_eq)
      with ih False accept(1) show ?thesis
        by (cases "i < next_connection s1") (auto simp del: split_paired_Ex fresh_connection.simps)
    next
      case same
      with ih False show ?thesis
        by (subst events_of_Cons) (auto simp del: split_paired_Ex fresh_connection.simps)
    qed
  qed
qed simp

lemma connection_of_client:
  assumes "on_server_events size_text fs (run_server (new_server root threads g)) evs = Some (Inr s)"
    and "i < length (connections s)"
  shows "next_connection s = accepts_in evs" "length (connections s) = Suc (accepts_in evs)"
    "\<exists>g'. if i < accepts_in evs
       then on_events size_text (handle_request size_text fs root) (start (fresh_connection g')) (events_of i evs) =
         Some (Inr (connections s ! i))
       else connections s ! i = fresh_connection g' \<and> events_of i evs = []"
proof -
  let ?s = "run_server (new_server root threads g)"
  have zero: "next_connection ?s = 0" and h: "server_handler size_text fs ?s = handle_request size_text fs root"
    by (simp_all add: run_server_def new_server_def server_handler_def)
  note run = fresh_next_run [OF assms(1) fresh_next_start]
  then show n: "next_connection s = accepts_in evs" "length (connections s) = Suc (accepts_in evs)"
    by (simp_all add: zero fresh_next_def)
  show "\<exists>g'. if i < accepts_in evs
       then on_events size_text (handle_request size_text fs root) (start (fresh_connection g')) (events_of i evs) =
         Some (Inr (connections s ! i))
       else connections s ! i = fresh_connection g' \<and> events_of i evs = []"
  proof (cases "i < accepts_in evs")
    case True
    with connections_independent [OF assms(1) fresh_next_start, of i] show ?thesis by (simp add: n zero h)
  next
    case False
    with assms(2) n have "i = next_connection s" by simp
    with run False show ?thesis by (auto simp: fresh_next_def n simp del: fresh_connection.simps)
  qed
qed

text \<open>
C9: connections do not disturb each other. In every run of the server the clients get objects of
their own: after \<open>n\<close> accepts the pointer to the next object is \<open>n\<close>, so that the client numbered \<open>i\<close>
is on object \<open>i\<close>. However the events are interleaved, each object that a client is on is as if it had
been alone with its own events from its start on, served with the server's document root; the
one for the next client has had none and is as it was made.
\<close>

theorem server_isolates_connections:
  assumes "on_server_events size_text fs (run_server (new_server root threads g)) evs = Some (Inr s)"
    and "i < length (connections s)"
  shows "next_connection s = length (filter is_accept evs) \<and>
    length (connections s) = Suc (length (filter is_accept evs)) \<and>
    (\<exists>g'. if i < length (filter is_accept evs)
       then on_events size_text (handle_request size_text fs root) (start (fresh_connection g')) (events_of i evs) =
         Some (Inr (connections s ! i))
       else connections s ! i = fresh_connection g' \<and> events_of i evs = [])"
  using connection_of_client [OF assms] by (simp only: accepts_in_def simp_thms)

theorem server_isolates_connections_witness:
  "\<exists>g'. on_events dec_text (handle_request dec_text (\<lambda>p. None) ''www'')
     (start (fresh_connection g')) [Read_Fails] =
     Some (Inr ((start (new_connection [] 4 5 6))\<lparr>pending := No_Op\<rparr>))"
proof -
  let ?evs = "[Accepts ([], 1, 2, 3), Accepts ([], 7, 8, 9), On_Connection 0 Read_Fails]"
  let ?s = "\<lparr>thread_pool_size = 2, doc_root = ''www'', next_connection = 2, accepting = True,
    connections = [(start (new_connection [] 4 5 6))\<lparr>pending := No_Op\<rparr>, start (new_connection [] 1 2 3),
      new_connection [] 7 8 9],
    workers = 2, io_stopped = False\<rparr>"
  have run: "on_server_events dec_text (\<lambda>p. None) (run_server (new_server ''www'' 2 ([], 4, 5, 6))) ?evs =
      Some (Inr ?s)"
    by (simp add: run_server_def new_server_def handle_accept_def start_next_def reset_next_def handle_read_def)
  have "0 < length (connections ?s)" by simp
  from server_isolates_connections [OF run this] show ?thesis by simp
qed

section \<open>Accepting\<close>

lemma not_accepting_event:
  assumes "on_server_event size_text fs s ev = Some (Inr s')" and "\<not> accepting s"
  shows "\<not> accepting s' \<and> \<not> is_accept ev \<and> ev \<noteq> Accept_Fails"
  using assms
  by (cases ev) (auto simp: stop_server_def split: if_splits option.splits sum.splits)

lemma not_accepting_run:
  "on_server_events size_text fs s evs = Some (Inr s') \<Longrightarrow> \<not> accepting s \<Longrightarrow>
     filter is_accept evs = []"
proof (induction evs arbitrary: s)
  case (Cons ev evs)
  then obtain s1 where "on_server_event size_text fs s ev = Some (Inr s1)"
    "on_server_events size_text fs s1 evs = Some (Inr s')"
    by (auto split: option.splits sum.splits if_splits)
  with Cons not_accepting_event [of size_text fs s ev s1] show ?case by auto
qed simp

lemma on_server_events_append:
  "on_server_events size_text fs s (evs @ evs') = Some (Inr s') \<Longrightarrow>
     \<exists>s1. on_server_events size_text fs s evs = Some (Inr s1) \<and>
       on_server_events size_text fs s1 evs' = Some (Inr s')"
proof (induction evs arbitrary: s)
  case (Cons ev evs)
  then obtain s1 where s1: "on_server_event size_text fs s ev = Some (Inr s1)"
    "on_server_events size_text fs s1 (evs @ evs') = Some (Inr s')"
    by (auto split: option.splits sum.splits if_splits)
  from Cons.IH [OF s1(2)] s1(1) show ?case by simp
qed simp

text \<open>
C24: one connection object for every accept and one for the next, and no accept after a failed
one: the first error of the acceptor, even a passing one, ends the service for new clients,
while the server keeps running.
\<close>

theorem accept_failure_is_final:
  assumes "on_server_events size_text fs (run_server (new_server root threads g))
      (before @ Accept_Fails # after) = Some (Inr s)"
  shows "length (connections s) = Suc (length (filter is_accept before)) \<and> filter is_accept after = []"
proof -
  from on_server_events_append [OF assms] obtain s1 where
    s1: "on_server_events size_text fs (run_server (new_server root threads g)) before = Some (Inr s1)"
    "on_server_events size_text fs s1 (Accept_Fails # after) = Some (Inr s)" by blast
  then have "on_server_events size_text fs (s1\<lparr>accepting := False\<rparr>) after = Some (Inr s)"
    by (simp add: handle_accept_def split: if_splits)
  then have "filter is_accept after = []" by (rule not_accepting_run) simp
  with fresh_next_run [OF assms fresh_next_start] show ?thesis
    by (simp add: fresh_next_def accepts_in_def run_server_def new_server_def)
qed

theorem accept_failure_is_final_witness:
  "\<exists>s. on_server_events dec_text (\<lambda>p. None) (run_server (new_server ''www'' 1 ([], 0, 0, 0)))
      ([Accepts ([], 0, 0, 0)] @ Accept_Fails # [On_Connection 0 Read_Fails]) = Some (Inr s) \<and>
    length (connections s) = 2"
proof -
  let ?s = "\<lparr>thread_pool_size = 1, doc_root = ''www'', next_connection = 1, accepting = False,
    connections = [(start (new_connection [] 0 0 0))\<lparr>pending := No_Op\<rparr>, new_connection [] 0 0 0],
    workers = 1, io_stopped = False\<rparr>"
  have run: "on_server_events dec_text (\<lambda>p. None) (run_server (new_server ''www'' 1 ([], 0, 0, 0)))
      ([Accepts ([], 0, 0, 0)] @ Accept_Fails # [On_Connection 0 Read_Fails]) = Some (Inr ?s)"
    by (simp add: run_server_def new_server_def handle_accept_def start_next_def reset_next_def handle_read_def)
  with accept_failure_is_final [OF run] show ?thesis by auto
qed

section \<open>A request served\<close>

lemma parse_printed:
  assumes "wf_request r"
  shows "parse method_start (new_request g1 g2) (print_request r @ rest) =
    Inr (TTrue, rest, expecting_newline_3, r)"
  using accepts_request [of g1 g2 "print_request r @ rest" rest r] request_text_print [OF assms]
  by (simp add: accepts_def)

text \<open>
The service, by explicit events. A well-formed request, printed and cut into any packets, with
anything after it, is answered on its connection by what the file system holds for it: the
client reads the head and the page of \<open>answer_page\<close>, whole, and the connection ends.
\<close>

lemma request_served:
  fixes size_text fs root r
  defines "handler \<equiv> handle_request size_text fs root"
  assumes printer: "size_printer size_text" and root: "NUL \<notin> set root" and wf: "wf_request r"
    and packets: "\<forall>p \<in> set packets. p \<noteq> [] \<and> length p \<le> buffer_size"
    and stream: "concat packets = print_request r @ extra"
  shows "\<exists>evs c. prefix (read_bytes evs) (concat packets) \<and>
    on_events size_text handler (start (fresh_connection g)) evs = Some (Inr c) \<and>
    read_head (sent (socket c)) = Some (answer_page size_text (answer_to fs root (req_uri r))) \<and>
    shut_down (socket c) \<and> (\<forall>ev. on_event size_text handler c ev = None)"
proof -
  obtain junk g1 g2 g3 where g: "g = (junk, g1, g2, g3)" by (cases g)
  let ?rep = "handler r (new_reply g3)"
  have rep: "?rep = answer_reply size_text (answer_to fs root (req_uri r))"
    unfolding handler_def by (rule handle_request_answer [OF root])
  have "parse method_start (new_request g1 g2) (concat packets) = Inr (TTrue, extra, expecting_newline_3, r)"
    unfolding stream by (rule parse_printed [OF wf])
  then have "stream_reply size_text handler (new_connection junk g1 g2 g3) (concat packets) = Inr (Some ?rep)"
    by (simp add: stream_reply_def new_connection_def)
  moreover have wire: "read_head (reply_bytes ?rep) =
      Some (answer_page size_text (answer_to fs root (req_uri r)))"
    unfolding rep reply_bytes_def by (rule answer_on_wire [OF printer])
  moreover have "reply_bytes ?rep \<noteq> []"
    using wire by (intro notI) (simp add: read_head.simps)
  ultimately obtain k c where "on_events size_text handler (start (new_connection junk g1 g2 g3))
      (map Read_Some (take k packets) @ flush_events ?rep) = Some (Inr c)"
    "sent (socket c) = reply_bytes ?rep" "shut_down (socket c)"
    "\<forall>ev. on_event size_text handler c ev = None"
    using answer_run [OF packets] by blast
  moreover have "read_bytes (map Read_Some (take k packets) @ flush_events ?rep) = concat (take k packets)"
    by (simp add: read_bytes_def flush_events_def o_def)
  moreover have "prefix (concat (take k packets)) (concat packets)"
    by (metis append_take_drop_id concat_append prefixI)
  ultimately show ?thesis
    using wire by (intro exI [of _ "map Read_Some (take k packets) @ flush_events ?rep"] exI [of _ c])
      (simp add: g)
qed

lemma printed_request_reply:
  assumes "NUL \<notin> set root" "wf_request r"
  shows "stream_reply size_text (handle_request size_text fs root) (new_connection junk g1 g2 g3) (print_request r @ extra) =
    Inr (Some (answer_reply size_text (answer_to fs root (req_uri r))))"
  using parse_printed [OF assms(2), of g1 g2 extra] handle_request_answer [OF assms(1)]
  by (simp add: stream_reply_def new_connection_def)

text \<open>
C2: the service, end to end. A client sends a well-formed request, printed, with anything after
it. On a network that does not fail, whatever packets it makes of the bytes of both sides, the
exchange takes a bounded number of steps, never gets stuck before its end, and then the client
has read the head and the page that the file system holds for the request, whole, and the
connection is shut down.
\<close>

theorem request_always_served:
  assumes printer: "size_printer size_text" and root: "NUL \<notin> set root" and wf: "wf_request r"
    and run: "(exchange_step size_text (handle_request size_text fs root) ^^ k)
      (start (fresh_connection g), print_request r @ extra) x"
  shows "k \<le> length (print_request r @ extra) +
      length (reply_bytes (answer_reply size_text (answer_to fs root (req_uri r)))) + 2 \<and>
    ((\<exists>y. exchange_step size_text (handle_request size_text fs root) x y) \<or>
     pending (fst x) = No_Op \<and> shut_down (socket (fst x)) \<and>
     read_head (sent (socket (fst x))) = Some (answer_page size_text (answer_to fs root (req_uri r))))"
proof -
  let ?rep = "answer_reply size_text (answer_to fs root (req_uri r))"
  obtain junk g1 g2 g3 where g: "g = (junk, g1, g2, g3)" by (cases g)
  have "read_head (reply_bytes ?rep) = Some (answer_page size_text (answer_to fs root (req_uri r)))"
    unfolding reply_bytes_def by (rule answer_on_wire [OF printer])
  with exchange_run [OF printed_request_reply [OF root wf]] run
  show ?thesis by (fastforce simp: g exchange_over_def)
qed

theorem request_always_served_witness:
  "\<exists>x. (exchange_step dec_text (handle_request dec_text (\<lambda>p. None) ''www''))\<^sup>*\<^sup>*
       (start (fresh_connection ([], 1, 2, 3)), print_request sample_request) x \<and>
     read_head (sent (socket (fst x))) = Some
       ([''HTTP/1.0 404 Not Found'', ''Content-Length: '' @ dec_text 85, ''Content-Type: text/html''],
        html_page ''Not Found'' ''404 Not Found'')"
proof -
  let ?step = "exchange_step dec_text (handle_request dec_text (\<lambda>p. None) ''www'')"
  let ?start = "(start (fresh_connection ([], 1, 2, 3)), print_request sample_request)"
  have root: "NUL \<notin> set ''www''" by simp
  have "request_path (req_uri sample_request) = Some ''/a.html''" by code_simp
  then have missing: "answer_to (\<lambda>p. None) ''www'' (req_uri sample_request) = Missing"
    by (simp add: answer_to_def)
  note reply = printed_request_reply [OF root wf_sample_request, of dec_text "\<lambda>p. None" "[]" 1 2 3 "[]"]
  from exchange.ends [of dec_text "handle_request dec_text (\<lambda>p. None) ''www''" "new_connection [] 1 2 3"
      "print_request sample_request" ?start] exchange_inv_start reply
  obtain x where x: "?step\<^sup>*\<^sup>* ?start x" "exchange_over (answer_reply dec_text Missing) x"
    unfolding missing by (simp only: append_Nil2 fresh_connection.simps) blast
  then obtain k where k: "(?step ^^ k) ?start x" by (auto simp: rtranclp_power)
  have "\<not> ?step x y" for y using exchange_over_stuck x(2) by blast
  with request_always_served [OF std_text.size_printer_axioms root wf_sample_request, where extra = "[]" and k = k
      and g = "([], 1, 2, 3)" and fs = "\<lambda>p. None" and x = x] k
  have "read_head (sent (socket (fst x))) = Some (answer_page dec_text Missing)" by (simp add: missing)
  with x(1) show ?thesis by (intro exI [of _ x]) simp
qed

end
