(* ===== verification/ConcQueue.thy ===== *)
theory ConcQueue imports Prelude
begin

text \<open>
  \<open>concurrent_queue\<close> of \<open>src/Connection.hpp\<close>: a queue with a mutex and a condition variable,
  used by any number of threads. A step of the model is one access to shared data: taking
  or giving back the lock, reading or changing the queue under it, waiting, notifying.
\<close>

section \<open>Where a thread is\<close>

text \<open>\<open>empty\<close> and \<open>try_pop\<close> are called by clients and by the loop of \<open>clear\<close>.\<close>

datatype caller = Client | Clear

datatype 'a outcome = Pushed | Was_Empty bool | Tried "'a option" | Popped 'a | Cleared

datatype 'a pc =
    Outside
  | Push_Lock 'a | Push_Enqueue 'a | Push_Unlock | Push_Notify
  | Empty_Lock caller | Empty_Read caller | Empty_Unlock caller bool
  | Try_Lock caller | Try_Test caller | Try_Take caller | Try_Unlock caller "'a option"
  | Pop_Lock | Pop_Test | Pop_Wait | Pop_Waiting | Pop_Relock | Pop_Take | Pop_Unlock 'a
  | Finished "'a outcome"

text \<open>
  The log is not in the code: it records what each thread did to the queue, at the moment it
  did it.
\<close>

datatype 'a access = Enq 'a | Deq 'a | Deq_Nothing | Saw_Empty bool

record 'a cq =
  items :: "'a list"
  owner :: "nat option"
  pcs :: "'a pc list"
  undefined_front :: bool
  log :: "(nat \<times> 'a access) list"

definition new_cq :: "nat \<Rightarrow> 'a cq" where
  "new_cq n = \<lparr>items = [], owner = None, pcs = replicate n Outside, undefined_front = False, log = []\<rparr>"

definition goto :: "nat \<Rightarrow> 'a pc \<Rightarrow> 'a cq \<Rightarrow> 'a cq" where
  "goto t p s = s\<lparr>pcs := (pcs s)[t := p]\<rparr>"

definition acquire :: "nat \<Rightarrow> 'a pc \<Rightarrow> 'a cq \<Rightarrow> 'a cq option" where
  "acquire t p s = (if owner s = None then Some (goto t p (s\<lparr>owner := Some t\<rparr>)) else None)"

definition release :: "nat \<Rightarrow> 'a pc \<Rightarrow> 'a cq \<Rightarrow> 'a cq" where
  "release t p s = goto t p (s\<lparr>owner := None\<rparr>)"

definition record_access :: "nat \<Rightarrow> 'a access \<Rightarrow> 'a cq \<Rightarrow> 'a cq" where
  "record_access t a s = s\<lparr>log := log s @ [(t, a)]\<rparr>"

text \<open>\<open>front()\<close> and \<open>pop()\<close>; on an empty queue they are undefined behaviour.\<close>

definition take_front :: "nat \<Rightarrow> ('a \<Rightarrow> 'a pc) \<Rightarrow> 'a cq \<Rightarrow> 'a cq" where
  "take_front t p s =
     (case items s of
        [] \<Rightarrow> s\<lparr>undefined_front := True\<rparr>
      | x # xs \<Rightarrow> goto t (p x) (record_access t (Deq x) (s\<lparr>items := xs\<rparr>)))"

section \<open>The member functions, step by step\<close>

fun push_step :: "nat \<Rightarrow> 'a pc \<Rightarrow> 'a cq \<Rightarrow> 'a cq option" where
  "push_step t (Push_Lock a) s = acquire t (Push_Enqueue a) s"
| "push_step t (Push_Enqueue a) s =
     Some (goto t Push_Unlock (record_access t (Enq a) (s\<lparr>items := items s @ [a]\<rparr>)))"
| "push_step t Push_Unlock s = Some (release t Push_Notify s)"
| "push_step t p s = None"

fun empty_step :: "nat \<Rightarrow> 'a pc \<Rightarrow> 'a cq \<Rightarrow> 'a cq option" where
  "empty_step t (Empty_Lock c) s = acquire t (Empty_Read c) s"
| "empty_step t (Empty_Read c) s =
     Some (goto t (Empty_Unlock c (items s = [])) (record_access t (Saw_Empty (items s = [])) s))"
| "empty_step t (Empty_Unlock c b) s =
     Some (release t
       (case c of Client \<Rightarrow> Finished (Was_Empty b)
        | Clear \<Rightarrow> if b then Finished Cleared else Try_Lock Clear) s)"
| "empty_step t p s = None"

fun try_pop_step :: "nat \<Rightarrow> 'a pc \<Rightarrow> 'a cq \<Rightarrow> 'a cq option" where
  "try_pop_step t (Try_Lock c) s = acquire t (Try_Test c) s"
| "try_pop_step t (Try_Test c) s =
     Some (if items s = [] then goto t (Try_Unlock c None) (record_access t Deq_Nothing s)
           else goto t (Try_Take c) s)"
| "try_pop_step t (Try_Take c) s = Some (take_front t (\<lambda>x. Try_Unlock c (Some x)) s)"
| "try_pop_step t (Try_Unlock c r) s =
     Some (release t (case c of Client \<Rightarrow> Finished (Tried r) | Clear \<Rightarrow> Empty_Lock Clear) s)"
| "try_pop_step t p s = None"

text \<open>
  \<open>wait\<close> gives the lock back and sleeps, in one step; a thread that was woken takes the lock
  again before it looks at the queue.
\<close>

fun wait_and_pop_step :: "nat \<Rightarrow> 'a pc \<Rightarrow> 'a cq \<Rightarrow> 'a cq option" where
  "wait_and_pop_step t Pop_Lock s = acquire t Pop_Test s"
| "wait_and_pop_step t Pop_Test s = Some (goto t (if items s = [] then Pop_Wait else Pop_Take) s)"
| "wait_and_pop_step t Pop_Wait s = Some (release t Pop_Waiting s)"
| "wait_and_pop_step t Pop_Relock s = acquire t Pop_Test s"
| "wait_and_pop_step t Pop_Take s = Some (take_front t Pop_Unlock s)"
| "wait_and_pop_step t (Pop_Unlock x) s = Some (release t (Finished (Popped x)) s)"
| "wait_and_pop_step t p s = None"

definition local_step :: "nat \<Rightarrow> 'a cq \<Rightarrow> 'a cq option" where
  "local_step t s =
     (let p = pcs s ! t in
      case push_step t p s of Some s' \<Rightarrow> Some s' | None \<Rightarrow>
      (case empty_step t p s of Some s' \<Rightarrow> Some s' | None \<Rightarrow>
      (case try_pop_step t p s of Some s' \<Rightarrow> Some s' | None \<Rightarrow> wait_and_pop_step t p s)))"

text \<open>The first point of each call; \<open>clear\<close> starts with the test of its loop.\<close>

definition entry_points :: "'a \<Rightarrow> 'a pc set" where
  "entry_points a = {Push_Lock a, Empty_Lock Client, Try_Lock Client, Pop_Lock, Empty_Lock Clear}"

fun between_calls :: "'a pc \<Rightarrow> bool" where
  "between_calls Outside = True"
| "between_calls (Finished r) = True"
| "between_calls p = False"

text \<open>
  A step of the system: a thread makes a call, goes one step on, or notifies; \<open>notify_one\<close>
  wakes one of the sleeping threads, any one, and without one it does nothing. A sleeping
  thread may also wake up by itself.
\<close>

inductive cq_step :: "'a cq \<Rightarrow> 'a cq \<Rightarrow> bool" where
  cq_call: "t < length (pcs s) \<Longrightarrow> between_calls (pcs s ! t) \<Longrightarrow> p \<in> entry_points a \<Longrightarrow>
    cq_step s (goto t p s)"
| cq_local: "t < length (pcs s) \<Longrightarrow> local_step t s = Some s' \<Longrightarrow> cq_step s s'"
| cq_notify: "t < length (pcs s) \<Longrightarrow> pcs s ! t = Push_Notify \<Longrightarrow>
    u < length (pcs s) \<Longrightarrow> pcs s ! u = Pop_Waiting \<Longrightarrow>
    cq_step s (goto u Pop_Relock (goto t (Finished Pushed) s))"
| cq_notify_none: "t < length (pcs s) \<Longrightarrow> pcs s ! t = Push_Notify \<Longrightarrow>
    Pop_Waiting \<notin> set (pcs s) \<Longrightarrow> cq_step s (goto t (Finished Pushed) s)"
| cq_spurious: "u < length (pcs s) \<Longrightarrow> pcs s ! u = Pop_Waiting \<Longrightarrow> cq_step s (goto u Pop_Relock s)"

section \<open>The sequential queue\<close>

text \<open>What an access means on a queue used by one thread; nothing when it is impossible.\<close>

fun replay_access :: "'a access \<Rightarrow> 'a list \<Rightarrow> 'a list option" where
  "replay_access (Enq a) q = Some (q @ [a])"
| "replay_access (Deq a) q = (case q of [] \<Rightarrow> None | x # xs \<Rightarrow> if x = a then Some xs else None)"
| "replay_access Deq_Nothing q = (if q = [] then Some q else None)"
| "replay_access (Saw_Empty b) q = (if b = (q = []) then Some q else None)"

fun replay :: "'a access list \<Rightarrow> 'a list \<Rightarrow> 'a list option" where
  "replay [] q = Some q"
| "replay (a # as) q = (case replay_access a q of None \<Rightarrow> None | Some q' \<Rightarrow> replay as q')"

lemma replay_append: "replay (as @ bs) q = (case replay as q of None \<Rightarrow> None | Some q' \<Rightarrow> replay bs q')"
  by (induction as arbitrary: q) (auto split: option.splits)

text \<open>The values put in and taken out by a list of accesses.\<close>

fun enqs :: "'a access list \<Rightarrow> 'a list" where
  "enqs [] = []"
| "enqs (Enq a # as) = a # enqs as"
| "enqs (_ # as) = enqs as"

fun deqs :: "'a access list \<Rightarrow> 'a list" where
  "deqs [] = []"
| "deqs (Deq a # as) = a # deqs as"
| "deqs (_ # as) = deqs as"

lemma replay_fifo: "replay as q = Some q' \<Longrightarrow> q @ enqs as = deqs as @ q'"
proof (induction as arbitrary: q)
  case (Cons a as)
  then obtain q1 where q1: "replay_access a q = Some q1" "replay as q1 = Some q'"
    by (auto split: option.splits)
  from Cons.IH [OF q1(2)] q1(1) show ?case
    by (cases a) (auto split: list.splits if_splits)
qed simp

section \<open>The invariant\<close>

text \<open>The program points inside a critical section.\<close>

fun holds :: "'a pc \<Rightarrow> bool" where
  "holds (Push_Enqueue a) = True" | "holds Push_Unlock = True"
| "holds (Empty_Read c) = True" | "holds (Empty_Unlock c b) = True"
| "holds (Try_Test c) = True" | "holds (Try_Take c) = True" | "holds (Try_Unlock c r) = True"
| "holds Pop_Test = True" | "holds Pop_Wait = True" | "holds Pop_Take = True"
| "holds (Pop_Unlock a) = True"
| "holds p = False"

definition inv_lock :: "'a cq \<Rightarrow> bool" where
  "inv_lock s \<longleftrightarrow> (\<forall>t < length (pcs s). holds (pcs s ! t) = (owner s = Some t)) \<and>
     (\<forall>t. owner s = Some t \<longrightarrow> t < length (pcs s))"

text \<open>What a thread in a critical section knows of the queue.\<close>

fun knows :: "'a pc \<Rightarrow> 'a list \<Rightarrow> bool" where
  "knows (Try_Take c) q = (q \<noteq> [])"
| "knows Pop_Take q = (q \<noteq> [])"
| "knows Pop_Wait q = (q = [])"
| "knows p q = True"

definition inv_knows :: "'a cq \<Rightarrow> bool" where
  "inv_knows s \<longleftrightarrow> (\<forall>t < length (pcs s). knows (pcs s ! t) (items s)) \<and> \<not> undefined_front s"

definition inv_log :: "'a cq \<Rightarrow> bool" where
  "inv_log s \<longleftrightarrow> replay (map snd (log s)) [] = Some (items s)"

text \<open>The last access of a thread, and the one that a result comes from.\<close>

definition accesses_of :: "nat \<Rightarrow> (nat \<times> 'a access) list \<Rightarrow> 'a access list" where
  "accesses_of t l = map snd (filter (\<lambda>e. fst e = t) l)"

fun comes_from :: "'a pc \<Rightarrow> 'a access option" where
  "comes_from Push_Unlock = None"
| "comes_from (Empty_Unlock c b) = Some (Saw_Empty b)"
| "comes_from (Finished (Was_Empty b)) = Some (Saw_Empty b)"
| "comes_from (Finished Cleared) = Some (Saw_Empty True)"
| "comes_from (Try_Unlock c None) = Some Deq_Nothing"
| "comes_from (Try_Unlock c (Some x)) = Some (Deq x)"
| "comes_from (Finished (Tried None)) = Some Deq_Nothing"
| "comes_from (Finished (Tried (Some x))) = Some (Deq x)"
| "comes_from (Pop_Unlock x) = Some (Deq x)"
| "comes_from (Finished (Popped x)) = Some (Deq x)"
| "comes_from p = None"

definition inv_result :: "'a cq \<Rightarrow> bool" where
  "inv_result s \<longleftrightarrow>
     (\<forall>t < length (pcs s). \<forall>a. comes_from (pcs s ! t) = Some a \<longrightarrow>
        accesses_of t (log s) \<noteq> [] \<and> last (accesses_of t (log s)) = a)"

text \<open>
  The threads that are about to notify, or that are awake in \<open>wait_and_pop\<close>. While a thread
  sleeps there are at least as many of them as items in the queue.
\<close>

fun awake :: "'a pc \<Rightarrow> bool" where
  "awake Push_Unlock = True" | "awake Push_Notify = True"
| "awake Pop_Relock = True" | "awake Pop_Test = True" | "awake Pop_Take = True"
| "awake p = False"

definition inv_wake :: "'a cq \<Rightarrow> bool" where
  "inv_wake s \<longleftrightarrow> (Pop_Waiting \<in> set (pcs s) \<longrightarrow> length (items s) \<le> tally awake (pcs s))"

definition cq_inv :: "'a cq \<Rightarrow> bool" where
  "cq_inv s \<longleftrightarrow> inv_lock s \<and> inv_knows s \<and> inv_log s \<and> inv_result s \<and> inv_wake s"

section \<open>Every step keeps the invariant\<close>

lemmas step_defs = local_step_def acquire_def Let_def

text \<open>
  A step is of one of six kinds: it takes the lock, gives it back, appends an item, looks at
  the queue and notes a result, looks and branches, or takes the front.
\<close>

lemma local_step_kinds:
  assumes "local_step t s = Some s'"
  obtains
    (takes_lock) q where "owner s = None" "s' = goto t q (s\<lparr>owner := Some t\<rparr>)" "\<not> holds (pcs s ! t)"
      "holds q" "knows q (items s)" "comes_from q = None" "awake (pcs s ! t) \<longrightarrow> awake q"
  | (gives_back) q where "s' = release t q s" "holds (pcs s ! t)" "\<not> holds q" "knows q (items s)"
      "comes_from q = None \<or> comes_from q = comes_from (pcs s ! t)" "awake (pcs s ! t) \<longrightarrow> awake q"
      "q = Pop_Waiting \<longrightarrow> pcs s ! t = Pop_Wait"
  | (puts) a where "pcs s ! t = Push_Enqueue a"
      "s' = goto t Push_Unlock (record_access t (Enq a) (s\<lparr>items := items s @ [a]\<rparr>))"
  | (observes) q a where "s' = goto t q (record_access t a s)" "holds (pcs s ! t)" "holds q"
      "replay_access a (items s) = Some (items s)" "comes_from q = Some a" "knows q (items s)"
      "\<not> awake (pcs s ! t)"
  | (branches) q where "s' = goto t q s" "holds (pcs s ! t)" "holds q" "knows q (items s)"
      "comes_from q = None" "awake (pcs s ! t) \<longrightarrow> awake q \<or> items s = []"
  | (takes) f where "s' = take_front t f s" "holds (pcs s ! t)"
      "knows (pcs s ! t) (items s) \<longrightarrow> items s \<noteq> []"
      "\<And>x. holds (f x)" "\<And>x. comes_from (f x) = Some (Deq x)" "\<And>x q. knows (f x) q"
      "\<And>x. f x \<noteq> Pop_Waiting"
proof (cases "pcs s ! t")
  case (Push_Lock a)
  with assms show thesis by (intro takes_lock) (auto simp: step_defs split: if_splits)
next
  case (Push_Enqueue a)
  with assms show thesis by (intro puts) (auto simp: step_defs)
next
  case Push_Unlock
  with assms show thesis by (intro gives_back) (auto simp: step_defs)
next
  case (Empty_Lock c)
  with assms show thesis by (intro takes_lock) (auto simp: step_defs split: if_splits)
next
  case (Empty_Read c)
  with assms show thesis by (intro observes) (auto simp: step_defs)
next
  case (Empty_Unlock c b)
  with assms show thesis
    by (intro gives_back [of "case c of Client \<Rightarrow> Finished (Was_Empty b)
        | Clear \<Rightarrow> if b then Finished Cleared else Try_Lock Clear"])
      (auto simp: step_defs split: caller.splits)
next
  case (Try_Lock c)
  with assms show thesis by (intro takes_lock) (auto simp: step_defs split: if_splits)
next
  case (Try_Test c)
  with assms show thesis
  proof (cases "items s = []")
    case True
    with assms Try_Test show thesis by (intro observes) (auto simp: step_defs)
  next
    case False
    with assms Try_Test show thesis by (intro branches) (auto simp: step_defs)
  qed
next
  case (Try_Take c)
  with assms show thesis by (intro takes [of "\<lambda>x. Try_Unlock c (Some x)"]) (auto simp: step_defs)
next
  case (Try_Unlock c r)
  with assms show thesis
    by (intro gives_back [of "case c of Client \<Rightarrow> Finished (Tried r) | Clear \<Rightarrow> Empty_Lock Clear"];
        cases r; cases c) (simp_all add: step_defs)
next
  case Pop_Lock
  with assms show thesis by (intro takes_lock) (auto simp: step_defs split: if_splits)
next
  case Pop_Test
  with assms show thesis by (intro branches) (auto simp: step_defs)
next
  case Pop_Wait
  with assms show thesis by (intro gives_back) (auto simp: step_defs)
next
  case Pop_Relock
  with assms show thesis by (intro takes_lock) (auto simp: step_defs split: if_splits)
next
  case Pop_Take
  with assms show thesis by (intro takes [of Pop_Unlock]) (auto simp: step_defs)
next
  case (Pop_Unlock x)
  with assms show thesis by (intro gives_back) (auto simp: step_defs)
qed (use assms in \<open>simp_all add: step_defs\<close>)

text \<open>The parts of the state after a step.\<close>

lemma frame_simps [simp]:
  "pcs (goto t q s) = (pcs s)[t := q]" "items (goto t q s) = items s" "owner (goto t q s) = owner s"
  "undefined_front (goto t q s) = undefined_front s" "log (goto t q s) = log s"
  "pcs (release t q s) = (pcs s)[t := q]" "items (release t q s) = items s" "owner (release t q s) = None"
  "undefined_front (release t q s) = undefined_front s" "log (release t q s) = log s"
  "pcs (record_access t a s) = pcs s" "items (record_access t a s) = items s"
  "owner (record_access t a s) = owner s" "undefined_front (record_access t a s) = undefined_front s"
  "log (record_access t a s) = log s @ [(t, a)]"
  by (simp_all add: goto_def release_def record_access_def)

lemma take_front_Cons: "items s = x # xs \<Longrightarrow>
    take_front t f s = goto t (f x) (record_access t (Deq x) (s\<lparr>items := xs\<rparr>))"
  by (simp add: take_front_def)

lemma accesses_of_snoc:
  "accesses_of u (l @ [(t, a)]) = accesses_of u l @ (if t = u then [a] else [])"
  by (simp add: accesses_of_def)

text \<open>A step of a thread that knows what it should, with the front spelt out.\<close>

lemma takes_front_known:
  assumes "inv_knows s" "t < length (pcs s)" "knows (pcs s ! t) (items s) \<longrightarrow> items s \<noteq> []"
  obtains x xs where "items s = x # xs"
  using assms by (cases "items s") (auto simp: inv_knows_def)

lemma inv_lock_step:
  assumes inv: "inv_lock s" "inv_knows s" and t: "t < length (pcs s)" and st: "local_step t s = Some s'"
  shows "inv_lock s'"
  using st
proof (cases rule: local_step_kinds)
  case (takes f)
  then obtain x xs where "items s = x # xs" using takes_front_known [OF inv(2) t] by blast
  with takes inv(1) t show ?thesis
    by (auto simp: take_front_Cons inv_lock_def nth_list_update)
qed (use inv(1) t in \<open>auto simp: inv_lock_def nth_list_update\<close>)

text \<open>Only the thread with the lock changes the queue, so the others' knowledge stays true.\<close>

lemma knows_free: "\<not> holds p \<Longrightarrow> knows p q"
  by (cases p) simp_all

lemma others_outside:
  assumes "inv_lock s" "t < length (pcs s)" "holds (pcs s ! t)" "u < length (pcs s)" "u \<noteq> t"
  shows "\<not> holds (pcs s ! u)"
  using assms by (auto simp: inv_lock_def)

lemma inv_knows_step:
  assumes inv: "inv_lock s" "inv_knows s" and t: "t < length (pcs s)" and st: "local_step t s = Some s'"
  shows "inv_knows s'"
  using st
proof (cases rule: local_step_kinds)
  case (takes f)
  then obtain x xs where "items s = x # xs" using takes_front_known [OF inv(2) t] by blast
  moreover have "u < length (pcs s) \<Longrightarrow> u \<noteq> t \<Longrightarrow> knows (pcs s ! u) q" for u q
    using others_outside [OF inv(1) t takes(2)] knows_free by blast
  ultimately show ?thesis using takes inv(2) t
    by (auto simp: take_front_Cons inv_knows_def nth_list_update)
next
  case (puts a)
  then have "holds (pcs s ! t)" by simp
  then have "u < length (pcs s) \<Longrightarrow> u \<noteq> t \<Longrightarrow> knows (pcs s ! u) q" for u q
    using others_outside [OF inv(1) t] knows_free by blast
  then show ?thesis using puts inv(2) t
    by (auto simp: inv_knows_def nth_list_update)
qed (use inv(2) t in \<open>auto simp: inv_knows_def nth_list_update\<close>)

lemma inv_log_step:
  assumes inv: "inv_knows s" "inv_log s" and t: "t < length (pcs s)" and st: "local_step t s = Some s'"
  shows "inv_log s'"
  using st
proof (cases rule: local_step_kinds)
  case (takes f)
  then obtain x xs where "items s = x # xs" using takes_front_known [OF inv(1) t] by blast
  with takes inv show ?thesis by (simp add: take_front_Cons inv_log_def replay_append)
qed (use inv in \<open>simp_all add: inv_log_def replay_append\<close>)

lemma inv_result_step:
  assumes inv: "inv_knows s" "inv_result s" and t: "t < length (pcs s)" and st: "local_step t s = Some s'"
  shows "inv_result s'"
  using st
proof (cases rule: local_step_kinds)
  case (takes f)
  then obtain x xs where "items s = x # xs" using takes_front_known [OF inv(1) t] by blast
  with takes inv(2) show ?thesis
    by (auto simp: take_front_Cons inv_result_def accesses_of_snoc nth_list_update)
next
  case (gives_back q)
  with inv(2) t show ?thesis by (auto simp: inv_result_def nth_list_update)
qed (use inv(2) t in \<open>auto simp: inv_result_def accesses_of_snoc nth_list_update\<close>)

lemma waiting_update:
  "t < length xs \<Longrightarrow> x \<noteq> Pop_Waiting \<Longrightarrow> Pop_Waiting \<in> set (xs[t := x]) \<Longrightarrow> Pop_Waiting \<in> set xs"
  using set_update_subset_insert [of xs t x] by auto

lemma holds_not_waiting: "holds q \<Longrightarrow> q \<noteq> Pop_Waiting"
  by auto

lemma inv_wake_step:
  assumes inv: "inv_knows s" "inv_wake s" and t: "t < length (pcs s)" and st: "local_step t s = Some s'"
  shows "inv_wake s'"
  using st
proof (cases rule: local_step_kinds)
  case (takes_lock q)
  with inv(2) t show ?thesis
    using tally_keep [OF t, of awake q] waiting_update [OF t, of q] holds_not_waiting [of q]
    by (auto simp: inv_wake_def)
next
  case (gives_back q)
  show ?thesis
  proof (cases "q = Pop_Waiting")
    case True
    with gives_back have "pcs s ! t = Pop_Wait" by simp
    with inv(1) t have "items s = []" by (auto simp: inv_knows_def dest: spec [of _ t])
    with gives_back show ?thesis by (simp add: inv_wake_def)
  next
    case False
    with gives_back inv(2) show ?thesis
      using tally_keep [OF t, of awake q] waiting_update [OF t, of q] by (auto simp: inv_wake_def)
  qed
next
  case (puts a)
  with inv(2) show ?thesis
    using tally_update [OF t, of awake Push_Unlock] waiting_update [OF t, of Push_Unlock]
    by (auto simp: inv_wake_def)
next
  case (observes q a)
  with inv(2) show ?thesis
    using tally_keep [OF t, of awake q] waiting_update [OF t, of q] holds_not_waiting [of q]
    by (auto simp: inv_wake_def)
next
  case (branches q)
  show ?thesis
  proof (cases "items s = []")
    case True
    with branches show ?thesis by (simp add: inv_wake_def)
  next
    case False
    with branches inv(2) show ?thesis
      using tally_keep [OF t, of awake q] waiting_update [OF t, of q] holds_not_waiting [of q]
      by (auto simp: inv_wake_def)
  qed
next
  case (takes f)
  then obtain x xs where x: "items s = x # xs" using takes_front_known [OF inv(1) t] by blast
  show ?thesis
    using takes inv(2) tally_update [OF t, of awake "f x"] waiting_update [OF t, of "f x"]
    by (auto simp: take_front_Cons [OF x] x inv_wake_def split: if_splits)
qed

lemma cq_inv_local:
  assumes "cq_inv s" "t < length (pcs s)" "local_step t s = Some s'"
  shows "cq_inv s'"
  using assms inv_lock_step [of s t s'] inv_knows_step [of s t s'] inv_log_step [of s t s']
    inv_result_step [of s t s'] inv_wake_step [of s t s']
  by (simp add: cq_inv_def)

text \<open>The steps that only move threads outside their critical sections.\<close>

lemma cq_inv_move:
  assumes inv: "cq_inv s" and t: "t < length (pcs s)" and "\<not> holds (pcs s ! t)" "\<not> holds q"
    "comes_from q = None" "q \<noteq> Pop_Waiting"
    and awake: "awake (pcs s ! t) \<longrightarrow> awake q \<or> Pop_Waiting \<notin> set (pcs s)"
  shows "cq_inv (goto t q s)"
proof -
  have "inv_wake (goto t q s)"
    using inv awake tally_keep [OF t, of awake q] waiting_update [OF t \<open>q \<noteq> Pop_Waiting\<close>]
    by (auto simp: cq_inv_def inv_wake_def)
  with assms show ?thesis
    by (auto simp: cq_inv_def inv_lock_def inv_knows_def inv_log_def inv_result_def nth_list_update knows_free)
qed

lemma between_calls_facts: "between_calls p \<Longrightarrow> \<not> holds p \<and> \<not> awake p"
  by (cases p) auto

lemma cq_inv_notify:
  assumes inv: "cq_inv s" and t: "t < length (pcs s)" "pcs s ! t = Push_Notify"
    and u: "u < length (pcs s)" "pcs s ! u = Pop_Waiting"
  shows "cq_inv (goto u Pop_Relock (goto t (Finished Pushed) s))"
proof -
  have ne: "u \<noteq> t" using t u by auto
  let ?xs = "(pcs s)[t := Finished Pushed]"
  have "?xs ! u = Pop_Waiting" "u < length ?xs" using ne u by simp_all
  then have "tally awake (?xs[u := Pop_Relock]) = tally awake (pcs s)"
    using tally_update [of t "pcs s" awake "Finished Pushed"] tally_update [of u ?xs awake Pop_Relock] t
    by simp
  moreover have "Pop_Waiting \<in> set (pcs s)" using u by (metis nth_mem)
  ultimately have "inv_wake (goto u Pop_Relock (goto t (Finished Pushed) s))"
    using inv by (auto simp: cq_inv_def inv_wake_def)
  with assms show ?thesis
    by (auto simp: cq_inv_def inv_lock_def inv_knows_def inv_log_def inv_result_def nth_list_update)
qed

lemma cq_inv_step: "cq_inv s \<Longrightarrow> cq_step s s' \<Longrightarrow> cq_inv s'"
proof (erule cq_step.cases)
  fix t s0 p a
  assume "cq_inv s" "s = s0" "s' = goto t p s0" "t < length (pcs s0)" "between_calls (pcs s0 ! t)"
    "p \<in> entry_points a"
  then show "cq_inv s'"
    using between_calls_facts [of "pcs s0 ! t"] by (auto simp: entry_points_def intro!: cq_inv_move)
next
  fix t s0
  assume "cq_inv s" "s = s0" "s' = goto t (Finished Pushed) s0" "t < length (pcs s0)"
    "pcs s0 ! t = Push_Notify" "Pop_Waiting \<notin> set (pcs s0)"
  then show "cq_inv s'" by (auto intro!: cq_inv_move)
qed (auto intro: cq_inv_local cq_inv_notify cq_inv_move)

lemma cq_inv_new: "cq_inv (new_cq n)"
  by (simp add: new_cq_def cq_inv_def inv_lock_def inv_knows_def inv_log_def inv_result_def inv_wake_def)

interpretation concurrent_queue: invariant_system "\<lambda>s. s = new_cq n" cq_step cq_inv
  for n
  by unfold_locales (auto intro: cq_inv_new cq_inv_step)

text \<open>What steps do to the accesses and the number of threads.\<close>

lemma enqs_append [simp]: "enqs (as @ bs) = enqs as @ enqs bs"
  by (induction as rule: enqs.induct) simp_all

lemma deqs_append [simp]: "deqs (as @ bs) = deqs as @ deqs bs"
  by (induction as rule: deqs.induct) simp_all

lemma cq_step_length: "cq_step q q' \<Longrightarrow> length (pcs q') = length (pcs q)"
proof (induction rule: cq_step.induct)
  case (cq_local t s s')
  from cq_local(2) show ?case
    by (cases rule: local_step_kinds) (auto simp: release_def record_access_def take_front_def split: list.splits)
qed simp_all

section \<open>The properties of the queue under concurrency\<close>

text \<open>
C5: whatever the threads do and however their steps interleave, the accesses to the queue
are those of a queue used by one thread, in the order in which they were made: it is legal
to take what was taken and to see what was seen, everything put in comes out once and in the
same order, and \<open>front()\<close> is never called on an empty queue. A thread returns what its last
access gave it.
\<close>

theorem queue_linearizable:
  assumes "reaches (\<lambda>s. s = new_cq n) cq_step s"
  shows "replay (map snd (log s)) [] = Some (items s) \<and>
    enqs (map snd (log s)) = deqs (map snd (log s)) @ items s \<and> \<not> undefined_front s \<and>
    (\<forall>t < length (pcs s). \<forall>a. comes_from (pcs s ! t) = Some a \<longrightarrow>
       accesses_of t (log s) \<noteq> [] \<and> last (accesses_of t (log s)) = a)"
proof -
  from concurrent_queue.inv_reaches [OF assms] have inv: "cq_inv s" .
  then have "replay (map snd (log s)) [] = Some (items s)" by (simp add: cq_inv_def inv_log_def)
  with replay_fifo [OF this] inv show ?thesis
    by (simp add: cq_inv_def inv_knows_def inv_result_def)
qed

text \<open>A run of the witnesses: one thread pushes a value, another has gone to sleep for it.\<close>

lemma reaches_local:
  "reaches ini cq_step s \<Longrightarrow> t < length (pcs s) \<Longrightarrow> local_step t s = Some s' \<Longrightarrow> reaches ini cq_step s'"
  by (rule reaches_step) (auto intro: cq_local)

definition sleeper :: "nat cq" where
  "sleeper = \<lparr>items = [5], owner = None, pcs = [Pop_Waiting, Push_Notify], undefined_front = False,
     log = [(1, Enq 5)]\<rparr>"

lemma reaches_sleeper: "reaches (\<lambda>s. s = new_cq 2) cq_step sleeper"
proof -
  let ?R = "reaches (\<lambda>s. s = new_cq 2) cq_step :: nat cq \<Rightarrow> bool"
  let ?st = "\<lambda>q own ps l. \<lparr>items = q, owner = own, pcs = ps, undefined_front = False, log = l\<rparr> :: nat cq"
  note local_simps = step_defs goto_def release_def record_access_def
  have "?R (new_cq 2)" by (rule reaches_init) simp
  then have "?R (goto 0 Pop_Lock (new_cq 2))"
    by (rule reaches_step) (rule cq_call, simp_all add: new_cq_def entry_points_def)
  then have "?R (?st [] None [Pop_Lock, Outside] [])"
    by (simp add: goto_def new_cq_def numeral_2_eq_2)
  then have "?R (?st [] (Some 0) [Pop_Test, Outside] [])"
    by (rule reaches_local [where t = 0]) (simp_all add: local_simps)
  then have "?R (?st [] (Some 0) [Pop_Wait, Outside] [])"
    by (rule reaches_local [where t = 0]) (simp_all add: local_simps)
  then have "?R (?st [] None [Pop_Waiting, Outside] [])"
    by (rule reaches_local [where t = 0]) (simp_all add: local_simps)
  then have "?R (goto 1 (Push_Lock 5) (?st [] None [Pop_Waiting, Outside] []))"
    by (rule reaches_step) (rule cq_call, simp_all add: entry_points_def)
  then have "?R (?st [] None [Pop_Waiting, Push_Lock 5] [])"
    by (simp add: goto_def)
  then have "?R (?st [] (Some 1) [Pop_Waiting, Push_Enqueue 5] [])"
    by (rule reaches_local [where t = 1]) (simp_all add: local_simps)
  then have "?R (?st [5] (Some 1) [Pop_Waiting, Push_Unlock] [(1, Enq 5)])"
    by (rule reaches_local [where t = 1]) (simp_all add: local_simps)
  then show ?thesis
    unfolding sleeper_def
    by (rule reaches_local [where t = 1]) (simp_all add: local_simps)
qed

theorem queue_linearizable_witness:
  "enqs (map snd (log sleeper)) = deqs (map snd (log sleeper)) @ [5] \<and> \<not> undefined_front sleeper"
  using queue_linearizable [OF reaches_sleeper] by (simp add: sleeper_def)

text \<open>
C25: mutual exclusion. The number of threads between taking and giving back the lock is one
while the lock is taken, and zero while it is free.
\<close>

theorem queue_mutual_exclusion:
  assumes "reaches (\<lambda>s. s = new_cq n) cq_step s"
  shows "tally holds (pcs s) = (if owner s = None then 0 else 1)"
proof -
  have inv: "inv_lock s" using concurrent_queue.inv_reaches [OF assms] by (simp add: cq_inv_def)
  have "tally holds (pcs s) = card {t. t < length (pcs s) \<and> holds (pcs s ! t)}"
    by (simp add: tally_def length_filter_conv_card)
  also have "{t. t < length (pcs s) \<and> holds (pcs s ! t)} = {t. owner s = Some t}"
    using inv by (auto simp: inv_lock_def)
  also have "card {t. owner s = Some t} = (if owner s = None then 0 else 1)"
    by (cases "owner s") auto
  finally show ?thesis .
qed

lemma sleeper_next:
  "reaches (\<lambda>s. s = new_cq 2) cq_step (sleeper\<lparr>owner := Some 0, pcs := [Pop_Test, Push_Notify]\<rparr>)"
proof -
  have "reaches (\<lambda>s. s = new_cq 2) cq_step (goto 0 Pop_Relock sleeper)"
    by (rule reaches_step [OF reaches_sleeper]) (rule cq_spurious, simp_all add: sleeper_def)
  then show ?thesis
    by (rule reaches_local [where t = 0]) (simp_all add: sleeper_def goto_def step_defs)
qed

theorem queue_mutual_exclusion_witness: "tally holds [Pop_Test, Push_Notify :: nat pc] = 1"
  using queue_mutual_exclusion [OF sleeper_next] by simp

definition can_move :: "'a cq \<Rightarrow> bool" where
  "can_move s \<longleftrightarrow> (\<exists>t < length (pcs s). local_step t s \<noteq> None \<or> pcs s ! t = Push_Notify)"

lemma holds_moves: "holds (pcs s ! t) \<Longrightarrow> local_step t s \<noteq> None"
  by (cases "pcs s ! t") (auto simp: step_defs)

lemma free_moves:
  "owner s = None \<Longrightarrow> \<not> between_calls (pcs s ! t) \<Longrightarrow> pcs s ! t \<noteq> Pop_Waiting \<Longrightarrow>
     local_step t s \<noteq> None \<or> pcs s ! t = Push_Notify"
  by (cases "pcs s ! t") (auto simp: step_defs)

lemma stuck_threads:
  assumes inv: "cq_inv s" and stuck: "\<not> can_move s" and t: "t < length (pcs s)"
  shows "between_calls (pcs s ! t) \<or> pcs s ! t = Pop_Waiting"
proof -
  have "owner s = None"
  proof (rule ccontr)
    assume "owner s \<noteq> None"
    then obtain u where "owner s = Some u" "u < length (pcs s)" "holds (pcs s ! u)"
      using inv by (auto simp: cq_inv_def inv_lock_def)
    with stuck holds_moves [of s u] show False by (auto simp: can_move_def)
  qed
  with stuck t free_moves [of s t] show ?thesis by (auto simp: can_move_def)
qed

text \<open>
C14: no deadlock and no lost wakeup. In a reachable state where no thread can go on by itself,
every thread has returned or sleeps in \<open>wait_and_pop\<close>, and if one sleeps, the queue is empty.
\<close>

theorem queue_no_lost_wakeup:
  assumes "reaches (\<lambda>s. s = new_cq n) cq_step s" and "\<not> can_move s" and "t < length (pcs s)"
  shows "between_calls (pcs s ! t) \<or> pcs s ! t = Pop_Waiting \<and> items s = []"
proof -
  from concurrent_queue.inv_reaches [OF assms(1)] have inv: "cq_inv s" .
  have "items s = []" if "pcs s ! t = Pop_Waiting"
  proof (rule ccontr)
    assume "items s \<noteq> []"
    moreover have "Pop_Waiting \<in> set (pcs s)" using that assms(3) by (metis nth_mem)
    ultimately have "0 < tally awake (pcs s)" using inv
      by (cases "items s") (auto simp: cq_inv_def inv_wake_def)
    then obtain u where "u < length (pcs s)" "awake (pcs s ! u)" using tally_pos by blast
    with stuck_threads [OF inv assms(2), of u] between_calls_facts [of "pcs s ! u"] show False by auto
  qed
  with stuck_threads [OF inv assms(2,3)] show ?thesis by blast
qed

text \<open>A reachable state where all is at rest: one thread sleeps on an empty queue.\<close>

lemma reaches_asleep:
  "reaches (\<lambda>s. s = new_cq 1) cq_step
     (\<lparr>items = [], owner = None, pcs = [Pop_Waiting], undefined_front = False, log = []\<rparr> :: nat cq)"
proof -
  let ?R = "reaches (\<lambda>s. s = new_cq 1) cq_step :: nat cq \<Rightarrow> bool"
  let ?st = "\<lambda>own ps. \<lparr>items = [], owner = own, pcs = ps, undefined_front = False, log = []\<rparr> :: nat cq"
  note local_simps = step_defs goto_def release_def
  have "?R (new_cq 1)" by (rule reaches_init) simp
  then have "?R (goto 0 Pop_Lock (new_cq 1))"
    by (rule reaches_step) (rule cq_call, simp_all add: new_cq_def entry_points_def)
  then have "?R (?st None [Pop_Lock])" by (simp add: goto_def new_cq_def)
  then have "?R (?st (Some 0) [Pop_Test])"
    by (rule reaches_local [where t = 0]) (simp_all add: local_simps)
  then have "?R (?st (Some 0) [Pop_Wait])"
    by (rule reaches_local [where t = 0]) (simp_all add: local_simps)
  then show ?thesis
    by (rule reaches_local [where t = 0]) (simp_all add: local_simps)
qed

theorem queue_no_lost_wakeup_witness:
  "\<not> can_move (\<lparr>items = [], owner = None, pcs = [Pop_Waiting], undefined_front = False, log = []\<rparr> :: nat cq) \<and>
   (between_calls (Pop_Waiting :: nat pc) \<or> ([] :: nat list) = [])"
proof -
  let ?s = "\<lparr>items = [], owner = None, pcs = [Pop_Waiting], undefined_front = False, log = []\<rparr> :: nat cq"
  have stuck: "\<not> can_move ?s" by (simp add: can_move_def step_defs)
  have "0 < length (pcs ?s)" by simp
  from queue_no_lost_wakeup [OF reaches_asleep stuck this] stuck show ?thesis by simp
qed

end
