(* ===== verification/QueueCalls.thy ===== *)
theory QueueCalls imports ConcQueue
begin

text \<open>
  Calls of \<open>concurrent_queue\<close> by one thread while the others stand still: what \<open>push\<close>,
  \<open>try_pop\<close> and \<open>clear\<close> do from beginning to end, as runs of the steps of the queue. The
  contract they satisfy is the locale \<open>push_pop_queue\<close> with its extension \<open>fifo_queue\<close>, and its
  clients rest on that. The last section is about \<open>clear\<close> while the others move.
\<close>

section \<open>The contract\<close>

locale push_pop_queue =
  fixes ready :: "'q \<Rightarrow> bool" and contents :: "'q \<Rightarrow> 'a list"
    and push :: "'a \<Rightarrow> 'q \<Rightarrow> 'q option" and try_pop :: "'q \<Rightarrow> ('a option \<times> 'q) option"
  assumes push_law: "ready q \<Longrightarrow> \<exists>q'. push a q = Some q' \<and> ready q' \<and> contents q' = contents q @ [a]"
    and try_pop_law: "ready q \<Longrightarrow> \<exists>q'. try_pop q =
      Some (case contents q of [] \<Rightarrow> None | x # xs \<Rightarrow> Some x, q') \<and> ready q' \<and> contents q' = tl (contents q)"
begin

primrec push_all :: "'a list \<Rightarrow> 'q \<Rightarrow> 'q option" where
  "push_all [] q = Some q"
| "push_all (a # as) q = Option.bind (push a q) (push_all as)"

primrec pop_times :: "nat \<Rightarrow> 'q \<Rightarrow> ('a option list \<times> 'q) option" where
  "pop_times 0 q = Some ([], q)"
| "pop_times (Suc k) q =
     Option.bind (try_pop q) (\<lambda>(r, q'). map_option (apfst (Cons r)) (pop_times k q'))"

lemma push_back: "ready q \<Longrightarrow> push a q = Some q' \<Longrightarrow> ready q' \<and> contents q' = contents q @ [a]"
  using push_law [of q a] by auto

lemma pop_front:
  "ready q \<Longrightarrow> try_pop q = Some (r, q') \<Longrightarrow>
     ready q' \<and> (case r of None \<Rightarrow> contents q = [] \<and> contents q' = [] | Some v \<Rightarrow> contents q = v # contents q')"
  using try_pop_law [of q] by (cases "contents q") auto

lemma push_all_contents:
  "ready q \<Longrightarrow> \<exists>q'. push_all as q = Some q' \<and> ready q' \<and> contents q' = contents q @ as"
proof (induction as arbitrary: q)
  case (Cons a as)
  from push_law [OF Cons.prems] obtain q1 where "push a q = Some q1" "ready q1"
    "contents q1 = contents q @ [a]" by blast
  with Cons.IH [of q1] show ?case by auto
qed simp

lemma pop_times_contents:
  "ready q \<Longrightarrow> k \<le> length (contents q) \<Longrightarrow>
     \<exists>q'. pop_times k q = Some (map Some (take k (contents q)), q') \<and> ready q' \<and>
       contents q' = drop k (contents q)"
proof (induction k arbitrary: q)
  case (Suc k)
  then obtain x xs where c: "contents q = x # xs" by (cases "contents q") auto
  with try_pop_law [OF Suc.prems(1)] obtain q1 where "try_pop q = Some (Some x, q1)" "ready q1"
    "contents q1 = xs" by auto
  with Suc.IH [of q1] Suc.prems c show ?case by auto
qed simp

text \<open>What is pushed is popped, in the same order, after what was there.\<close>

lemma push_pop:
  assumes "ready q" "contents q = []"
  shows "\<exists>q1 q2. push_all as q = Some q1 \<and> pop_times (length as) q1 = Some (map Some as, q2) \<and>
    contents q2 = []"
  using push_all_contents [OF assms(1), of as] pop_times_contents assms(2) by fastforce

end

text \<open>A queue that can also be cleared.\<close>

locale fifo_queue = push_pop_queue ready contents push try_pop
  for ready :: "'q \<Rightarrow> bool" and contents :: "'q \<Rightarrow> 'a list"
    and push :: "'a \<Rightarrow> 'q \<Rightarrow> 'q option" and try_pop :: "'q \<Rightarrow> ('a option \<times> 'q) option" +
  fixes clear :: "'q \<Rightarrow> 'q option"
  assumes clear_law: "ready q \<Longrightarrow> \<exists>q'. clear q = Some q' \<and> ready q' \<and> contents q' = []"
begin

lemma clear_pop:
  assumes "ready q"
  shows "\<exists>q1 q2. clear q = Some q1 \<and> try_pop q1 = Some (None, q2) \<and> contents q2 = []"
proof -
  from clear_law [OF assms] obtain q1 where q1: "clear q = Some q1" "ready q1" "contents q1 = []" by blast
  with try_pop_law [OF q1(2)] show ?thesis by auto
qed

end

section \<open>Calls\<close>

text \<open>\<open>notify_one\<close> wakes the first sleeping thread.\<close>

fun wake_first :: "'a pc list \<Rightarrow> 'a pc list" where
  "wake_first [] = []"
| "wake_first (Pop_Waiting # ps) = Pop_Relock # ps"
| "wake_first (p # ps) = p # wake_first ps"

text \<open>Thread \<open>t\<close> goes on until it has returned; the first argument bounds the steps.\<close>

fun alone :: "nat \<Rightarrow> nat \<Rightarrow> 'a cq \<Rightarrow> 'a cq option" where
  "alone 0 t s = (if between_calls (pcs s ! t) then Some s else None)"
| "alone (Suc k) t s =
     (if between_calls (pcs s ! t) then Some s
      else (case pcs s ! t of
              Push_Notify \<Rightarrow> alone k t (s\<lparr>pcs := wake_first ((pcs s)[t := Finished Pushed])\<rparr>)
            | _ \<Rightarrow> Option.bind (local_step t s) (alone k t)))"

definition call_push :: "nat \<Rightarrow> 'a \<Rightarrow> 'a cq \<Rightarrow> 'a cq option" where
  "call_push t a s = alone 4 t (goto t (Push_Lock a) s)"

definition call_try_pop :: "nat \<Rightarrow> 'a cq \<Rightarrow> ('a option \<times> 'a cq) option" where
  "call_try_pop t s =
     Option.bind (alone 4 t (goto t (Try_Lock Client) s))
       (\<lambda>s'. case pcs s' ! t of Finished (Tried r) \<Rightarrow> Some (r, s') | _ \<Rightarrow> None)"

text \<open>Seven steps for every item, and three for the last test.\<close>

definition call_clear :: "nat \<Rightarrow> 'a cq \<Rightarrow> 'a cq option" where
  "call_clear t s = alone (7 * length (items s) + 3) t (goto t (Empty_Lock Clear) s)"

definition idle :: "nat \<Rightarrow> 'a cq \<Rightarrow> bool" where
  "idle t s \<longleftrightarrow> owner s = None \<and> t < length (pcs s) \<and> between_calls (pcs s ! t)"

section \<open>The calls satisfy the contract\<close>

lemma length_wake_first [simp]: "length (wake_first ps) = length ps"
  by (induction ps rule: wake_first.induct) simp_all

lemma nth_wake_first:
  "t < length ps \<Longrightarrow> ps ! t \<noteq> Pop_Waiting \<Longrightarrow> wake_first ps ! t = ps ! t"
  by (induction ps arbitrary: t rule: wake_first.induct) (auto simp: nth_Cons split: nat.splits)

lemma alone_done: "between_calls (pcs s ! t) \<Longrightarrow> alone k t s = Some s"
  by (cases k) simp_all

lemma alone_step:
  "\<not> between_calls (pcs s ! t) \<Longrightarrow> pcs s ! t \<noteq> Push_Notify \<Longrightarrow>
     alone (Suc k) t s = Option.bind (local_step t s) (alone k t)"
  by (cases "pcs s ! t") simp_all

lemma push_alone:
  assumes "idle t s"
  shows "\<exists>s'. call_push t a s = Some s' \<and> idle t s' \<and> items s' = items s @ [a]"
  using assms
  by (simp add: call_push_def eval_nat_numeral step_defs idle_def nth_wake_first)

lemma try_pop_alone:
  assumes "idle t s"
  shows "\<exists>s'. call_try_pop t s = Some (case items s of [] \<Rightarrow> None | x # xs \<Rightarrow> Some x, s') \<and> idle t s' \<and>
    items s' = tl (items s)"
  using assms
  by (cases "items s") (simp_all add: call_try_pop_def eval_nat_numeral step_defs idle_def take_front_Cons)

lemma clear_alone_loop:
  "owner s = None \<Longrightarrow> t < length (pcs s) \<Longrightarrow> pcs s ! t = Empty_Lock Clear \<Longrightarrow>
     \<exists>s'. alone (7 * length (items s) + 3) t s = Some s' \<and> idle t s' \<and> items s' = []"
proof (induction "items s" arbitrary: s)
  case Nil
  then show ?case by (simp add: eval_nat_numeral step_defs idle_def)
next
  case (Cons x xs)
  then have x: "items s = x # xs" by simp
  let ?s1 = "goto t (Empty_Lock Clear) (s\<lparr>items := xs, log := log s @ [(t, Saw_Empty False), (t, Deq x)]\<rparr>)"
  obtain n where n: "n = 7 * length xs + 3" by simp
  then have eq1: "7 * length (items s) + 3 = Suc (Suc (Suc (Suc (Suc (Suc (Suc n))))))" by (simp add: x)
  have eq2: "alone (Suc (Suc (Suc (Suc (Suc (Suc (Suc n))))))) t s = alone n t ?s1"
    using Cons.prems x
    by (cases s) (simp add: step_defs goto_def release_def record_access_def take_front_def)
  have ex: "\<exists>s'. alone n t ?s1 = Some s' \<and> idle t s' \<and> items s' = []"
    using Cons.hyps(1) [of ?s1] Cons.prems by (simp add: n)
  show ?case unfolding eq1 eq2 by (rule ex)
qed

lemma clear_alone: "idle t s \<Longrightarrow> \<exists>s'. call_clear t s = Some s' \<and> idle t s' \<and> items s' = []"
  using clear_alone_loop [of "goto t (Empty_Lock Clear) s" t] by (simp add: call_clear_def idle_def)

interpretation alone: fifo_queue "idle t" items "call_push t" "call_try_pop t" "call_clear t"
  for t
  by unfold_locales (blast intro: push_alone try_pop_alone clear_alone)+

text \<open>The calls are runs of the system.\<close>

lemma wake_first_other: "p \<noteq> Pop_Waiting \<Longrightarrow> wake_first (p # ps) = p # wake_first ps"
  by (cases p) simp_all

lemma wake_first_none: "Pop_Waiting \<notin> set ps \<Longrightarrow> wake_first ps = ps"
  by (induction ps) (auto simp: wake_first_other)

lemma wake_first_some:
  "Pop_Waiting \<in> set ps \<Longrightarrow> \<exists>u < length ps. ps ! u = Pop_Waiting \<and> wake_first ps = ps[u := Pop_Relock]"
proof (induction ps)
  case (Cons p ps)
  show ?case
  proof (cases "p = Pop_Waiting")
    case True
    then show ?thesis by (intro exI [of _ 0]) simp
  next
    case False
    with Cons obtain u where "u < length ps" "ps ! u = Pop_Waiting" "wake_first ps = ps[u := Pop_Relock]"
      by auto
    with False show ?thesis by (intro exI [of _ "Suc u"]) (simp add: wake_first_other)
  qed
qed simp

lemma local_step_length: "local_step t s = Some s' \<Longrightarrow> length (pcs s') = length (pcs s)"
  by (erule local_step_kinds) (simp_all add: take_front_def split: list.splits)

lemma wake_first_step:
  assumes "t < length (pcs s)" "pcs s ! t = Push_Notify"
  shows "cq_step s (s\<lparr>pcs := wake_first ((pcs s)[t := Finished Pushed])\<rparr>)"
proof (cases "Pop_Waiting \<in> set ((pcs s)[t := Finished Pushed])")
  case True
  with wake_first_some [OF True] obtain u where u: "u < length (pcs s)"
    "(pcs s)[t := Finished Pushed] ! u = Pop_Waiting"
    "wake_first ((pcs s)[t := Finished Pushed]) = (pcs s)[t := Finished Pushed, u := Pop_Relock]" by auto
  moreover from u assms have "u \<noteq> t" by auto
  ultimately show ?thesis using cq_notify [OF assms, of u] by (simp add: goto_def)
next
  case False
  moreover have "Pop_Waiting \<notin> set (pcs s)"
  proof
    assume "Pop_Waiting \<in> set (pcs s)"
    then obtain u where "u < length (pcs s)" "pcs s ! u = Pop_Waiting" by (auto simp: in_set_conv_nth)
    moreover from this assms have "u \<noteq> t" by auto
    ultimately have "(pcs s)[t := Finished Pushed] ! u = Pop_Waiting" "u < length ((pcs s)[t := Finished Pushed])"
      by simp_all
    with False show False by (metis nth_mem)
  qed
  ultimately show ?thesis
    using cq_notify_none [OF assms] wake_first_none [OF False] by (simp add: goto_def)
qed

lemma alone_steps:
  assumes "alone k t s = Some s'" and "t < length (pcs s)"
  shows "cq_step\<^sup>*\<^sup>* s s'"
  using assms
proof (induction k arbitrary: s)
  case (Suc k)
  consider (over) "between_calls (pcs s ! t)" | (notify) "pcs s ! t = Push_Notify"
    | (go) "\<not> between_calls (pcs s ! t)" "pcs s ! t \<noteq> Push_Notify" by blast
  then show ?case
  proof cases
    case over
    with Suc.prems show ?thesis by simp
  next
    case notify
    with Suc.IH [of "s\<lparr>pcs := wake_first ((pcs s)[t := Finished Pushed])\<rparr>"] Suc.prems
      wake_first_step [OF Suc.prems(2) notify]
    show ?thesis by (simp add: converse_rtranclp_into_rtranclp)
  next
    case go
    with Suc.prems obtain s1 where "local_step t s = Some s1" "alone k t s1 = Some s'"
      by (auto simp: alone_step bind_eq_Some_conv simp del: alone.simps)
    with Suc.IH [of s1] Suc.prems(2) cq_local [of t s s1] local_step_length [of t s s1] show ?thesis
      by (simp add: converse_rtranclp_into_rtranclp)
  qed
qed (simp split: if_splits)

section \<open>\<open>clear\<close> among other threads\<close>

text \<open>
  A run of the queue while thread \<open>t\<close> is in \<open>clear\<close>, from the state \<open>s\<close> on: \<open>t\<close> has made \<open>k\<close> steps;
  a step of the others leaves it where it is.
\<close>

inductive clear_run :: "nat \<Rightarrow> 'a cq \<Rightarrow> nat \<Rightarrow> 'a cq \<Rightarrow> bool" for t :: nat and s :: "'a cq" where
  clear_starts: "clear_run t s 0 s"
| clear_moves: "clear_run t s k s1 \<Longrightarrow> local_step t s1 = Some s2 \<Longrightarrow> clear_run t s (Suc k) s2"
| others_move: "clear_run t s k s1 \<Longrightarrow> cq_step s1 s2 \<Longrightarrow> pcs s2 ! t = pcs s1 ! t \<Longrightarrow> clear_run t s k s2"

text \<open>How many items were ever pushed.\<close>

definition pushes :: "'a cq \<Rightarrow> nat" where
  "pushes s = length (enqs (map snd (log s)))"

text \<open>The steps that \<open>clear\<close> still has to make when the queue has \<open>n\<close> items and nobody pushes.\<close>

fun clear_left :: "'a pc \<Rightarrow> nat \<Rightarrow> nat" where
  "clear_left (Empty_Lock c) n = 7 * n + 3"
| "clear_left (Empty_Read c) n = 7 * n + 2"
| "clear_left (Empty_Unlock c b) n = (if b then 1 else max (7 * n) 6 + 1)"
| "clear_left (Try_Lock c) n = max (7 * n) 6"
| "clear_left (Try_Test c) n = max (7 * n) 6 - 1"
| "clear_left (Try_Take c) n = 7 * n - 2"
| "clear_left (Try_Unlock c r) n = 7 * n + 4"
| "clear_left p n = 0"

fun in_clear :: "'a pc \<Rightarrow> bool" where
  "in_clear (Empty_Lock c) = (c = Clear)"
| "in_clear (Empty_Read c) = (c = Clear)"
| "in_clear (Empty_Unlock c b) = (c = Clear)"
| "in_clear (Try_Lock c) = (c = Clear)"
| "in_clear (Try_Test c) = (c = Clear)"
| "in_clear (Try_Take c) = (c = Clear)"
| "in_clear (Try_Unlock c r) = (c = Clear)"
| "in_clear (Finished r) = (r = Cleared)"
| "in_clear p = False"

text \<open>The points at which it has seen the queue empty for the last time.\<close>

fun seen_empty :: "'a pc \<Rightarrow> bool" where
  "seen_empty (Empty_Unlock c b) = b"
| "seen_empty (Finished r) = (r = Cleared)"
| "seen_empty p = False"

lemma clear_left_pushed: "m \<le> n + d \<Longrightarrow> clear_left p m \<le> clear_left p n + 7 * d"
  by (cases p) auto

lemma local_step_log: "local_step t s = Some s' \<Longrightarrow> \<exists>l. log s' = log s @ l"
  by (erule local_step_kinds) (auto simp: take_front_def split: list.splits)

lemma cq_step_log: "cq_step s s' \<Longrightarrow> \<exists>l. log s' = log s @ l"
  by (cases rule: cq_step.cases) (auto dest: local_step_log)

text \<open>Items come from pushes only.\<close>

lemma items_pushed:
  assumes "cq_inv s" "cq_inv s'" "log s' = log s @ l"
  shows "pushes s \<le> pushes s'" "length (items s') + pushes s \<le> length (items s) + pushes s'"
proof -
  have balance: "pushes r = length (deqs (map snd (log r))) + length (items r)" if "cq_inv r" for r :: "'a cq"
    using replay_fifo [of "map snd (log r)" "[]" "items r"] that
    by (simp add: cq_inv_def inv_log_def pushes_def)
  have more: "pushes s' = pushes s + length (enqs (map snd l))"
    "length (deqs (map snd (log s'))) = length (deqs (map snd (log s))) + length (deqs (map snd l))"
    by (simp_all add: pushes_def assms(3) enqs_append deqs_append)
  then show "pushes s \<le> pushes s'" by simp
  show "length (items s') + pushes s \<le> length (items s) + pushes s'"
    using balance [OF assms(1)] balance [OF assms(2)] more by simp
qed

text \<open>A step of \<open>clear\<close> itself uses up one of its steps.\<close>

lemma clear_step:
  assumes inv: "cq_inv s" and t: "t < length (pcs s)" and pc: "in_clear (pcs s ! t)" and st: "local_step t s = Some s'"
  shows "in_clear (pcs s' ! t)" "clear_left (pcs s' ! t) (length (items s')) < clear_left (pcs s ! t) (length (items s))"
    "seen_empty (pcs s' ! t) \<Longrightarrow> items s' = [] \<or> seen_empty (pcs s ! t) \<and> items s' = items s"
proof -
  have take: "items s \<noteq> []" if "pcs s ! t = Try_Take c" for c
    using inv t that by (auto simp: cq_inv_def inv_knows_def dest: spec [of _ t])
  have some: "items s = [] \<or> 1 \<le> length (items s)" by (cases "items s") auto
  have "in_clear (pcs s' ! t) \<and>
      clear_left (pcs s' ! t) (length (items s')) < clear_left (pcs s ! t) (length (items s)) \<and>
      (seen_empty (pcs s' ! t) \<longrightarrow> items s' = [] \<or> seen_empty (pcs s ! t) \<and> items s' = items s)"
    using pc st t take some
    by (cases "pcs s ! t") (auto simp: step_defs take_front_def max_def split: if_splits list.splits)
  then show "in_clear (pcs s' ! t)"
    "clear_left (pcs s' ! t) (length (items s')) < clear_left (pcs s ! t) (length (items s))"
    "seen_empty (pcs s' ! t) \<Longrightarrow> items s' = [] \<or> seen_empty (pcs s ! t) \<and> items s' = items s" by auto
qed

lemma clear_run_bound:
  assumes "clear_run t s k s'" and "cq_inv s" "t < length (pcs s)" "pcs s ! t = Empty_Lock Clear"
  shows "cq_inv s' \<and> t < length (pcs s') \<and> in_clear (pcs s' ! t) \<and> pushes s \<le> pushes s' \<and>
    k + clear_left (pcs s' ! t) (length (items s')) \<le> 7 * (length (items s) + (pushes s' - pushes s)) + 3 \<and>
    (seen_empty (pcs s' ! t) \<and> pushes s' = pushes s \<longrightarrow> items s' = [])"
  using assms(1)
proof (induction rule: clear_run.induct)
  case clear_starts
  with assms(2-) show ?case by simp
next
  case (clear_moves k s1 s2)
  then have t: "t < length (pcs s1)" and inv: "cq_inv s1" by auto
  note inv2 = cq_inv_local [OF inv t clear_moves.hyps(2)]
  from local_step_log [OF clear_moves.hyps(2)] obtain l where "log s2 = log s1 @ l" ..
  note items = items_pushed [OF inv inv2 this]
  have "in_clear (pcs s1 ! t)" using clear_moves.IH by simp
  note step = clear_step [OF inv t this clear_moves.hyps(2)]
  have "items s2 = []" if "seen_empty (pcs s2 ! t)" "pushes s2 = pushes s"
    using step(3) [OF that(1)] clear_moves.IH items(1) that by auto
  with clear_moves.IH step(1,2) inv2 t items(1) local_step_length [OF clear_moves.hyps(2)]
  show ?case by auto
next
  case (others_move k s1 s2)
  then have t: "t < length (pcs s1)" and inv: "cq_inv s1" by auto
  note inv2 = cq_inv_step [OF inv others_move.hyps(2)]
  from cq_step_log [OF others_move.hyps(2)] obtain l where "log s2 = log s1 @ l" ..
  note items = items_pushed [OF inv inv2 this]
  have "clear_left (pcs s2 ! t) (length (items s2)) \<le>
      clear_left (pcs s1 ! t) (length (items s1)) + 7 * (pushes s2 - pushes s1)"
    unfolding others_move.hyps(3) using items by (intro clear_left_pushed) simp
  moreover have "items s2 = []" if "seen_empty (pcs s2 ! t)" "pushes s2 = pushes s"
    using others_move.IH others_move.hyps(3) items that by auto
  ultimately show ?case
    using others_move.IH others_move.hyps(3) inv2 t items(1) cq_step_length [OF others_move.hyps(2)] by auto
qed

lemma clear_can_move:
  "in_clear p \<Longrightarrow> pcs s ! t = p \<Longrightarrow> p \<noteq> Finished Cleared \<Longrightarrow> owner s = None \<or> holds p \<Longrightarrow> local_step t s \<noteq> None"
  by (cases p) (auto simp: step_defs)

text \<open>
C33: \<open>clear\<close> ends, unless the other threads push for ever. Called in any reachable state and
interleaved with the others in any way, it makes itself at most seven steps for each item that is in the
queue or is pushed meanwhile, and three more; until it returns it can go on whenever no other thread is
inside the lock; and when it has returned and nothing was pushed meanwhile, the queue is empty. Without
other threads it returns after at most as many steps.
\<close>

theorem clear_terminates:
  assumes "reaches (\<lambda>s. s = new_cq n) cq_step s" and "t < length (pcs s)" and "between_calls (pcs s ! t)"
    and "clear_run t (goto t (Empty_Lock Clear) s) k s'"
  shows "k \<le> 7 * (length (items s) + (pushes s' - pushes s)) + 3 \<and>
    (pcs s' ! t = Finished Cleared \<or> local_step t s' \<noteq> None \<or> (\<exists>u. u \<noteq> t \<and> owner s' = Some u)) \<and>
    (pcs s' ! t = Finished Cleared \<and> pushes s' = pushes s \<longrightarrow> items s' = []) \<and>
    (owner s = None \<longrightarrow> (\<exists>s1. alone (7 * length (items s) + 3) t (goto t (Empty_Lock Clear) s) = Some s1 \<and>
       items s1 = [] \<and> owner s1 = None \<and> between_calls (pcs s1 ! t)))"
proof -
  let ?c = "goto t (Empty_Lock Clear) s"
  have "cq_step s ?c" by (rule cq_call [OF assms(2,3)]) (simp add: entry_points_def)
  with concurrent_queue.inv_reaches [OF assms(1)] cq_inv_step have inv: "cq_inv ?c" by blast
  have same: "pushes ?c = pushes s" by (simp add: pushes_def)
  from clear_run_bound [OF assms(4) inv] assms(2) have r: "cq_inv s'" "t < length (pcs s')" "in_clear (pcs s' ! t)"
    "k \<le> 7 * (length (items s) + (pushes s' - pushes s)) + 3"
    "seen_empty (pcs s' ! t) \<and> pushes s' = pushes s \<longrightarrow> items s' = []" by (auto simp: same)
  have "holds (pcs s' ! t)" if "owner s' = Some t"
    using r(1,2) that by (simp add: cq_inv_def inv_lock_def)
  then have "pcs s' ! t = Finished Cleared \<or> local_step t s' \<noteq> None \<or> (\<exists>u. u \<noteq> t \<and> owner s' = Some u)"
    using clear_can_move [OF r(3) refl] by (cases "owner s'") auto
  moreover have "\<exists>s1. alone (7 * length (items s) + 3) t ?c = Some s1 \<and> items s1 = [] \<and> owner s1 = None \<and>
      between_calls (pcs s1 ! t)" if "owner s = None"
    using clear_alone [of t s] assms(2,3) that by (auto simp: idle_def call_clear_def)
  ultimately show ?thesis using r(4,5) by simp
qed

theorem clear_terminates_witness:
  "\<exists>s'. clear_run 0 (goto 0 (Empty_Lock Clear) (new_cq 2)) 3 s' \<and> pcs s' ! 0 = Finished Cleared \<and> items s' = ([] :: nat list)"
proof -
  let ?s = "new_cq 2 :: nat cq"
  let ?st = "\<lambda>own p l. \<lparr>items = [], owner = own, pcs = [p, Outside], undefined_front = False, log = l\<rparr> :: nat cq"
  note local_simps = step_defs goto_def release_def record_access_def
  have start: "goto 0 (Empty_Lock Clear) ?s = ?st None (Empty_Lock Clear) []"
    by (simp add: new_cq_def goto_def numeral_2_eq_2)
  have "clear_run 0 (?st None (Empty_Lock Clear) []) 0 (?st None (Empty_Lock Clear) [])" by (rule clear_starts)
  then have "clear_run 0 (?st None (Empty_Lock Clear) []) (Suc 0) (?st (Some 0) (Empty_Read Clear) [])"
    by (rule clear_moves) (simp add: local_simps)
  then have "clear_run 0 (?st None (Empty_Lock Clear) []) (Suc (Suc 0)) (?st (Some 0) (Empty_Unlock Clear True) [(0, Saw_Empty True)])"
    by (rule clear_moves) (simp add: local_simps)
  then have "clear_run 0 (?st None (Empty_Lock Clear) []) (Suc (Suc (Suc 0))) (?st None (Finished Cleared) [(0, Saw_Empty True)])"
    by (rule clear_moves) (simp add: local_simps)
  then have run: "clear_run 0 (goto 0 (Empty_Lock Clear) ?s) 3 (?st None (Finished Cleared) [(0, Saw_Empty True)])"
    unfolding start by (simp add: numeral_3_eq_3)
  have "reaches (\<lambda>s. s = new_cq 2) cq_step ?s" by (rule reaches_init) simp
  from clear_terminates [OF this _ _ run] have "items (?st None (Finished Cleared) [(0, Saw_Empty True)]) = []"
    by (simp add: new_cq_def pushes_def)
  with run show ?thesis by (intro exI [of _ "?st None (Finished Cleared) [(0, Saw_Empty True)]"]) simp
qed

end
