(* ===== verification/ServiceQueue.thy ===== *)
theory ServiceQueue imports QueueCalls StdText
begin

text \<open>
  The service side of \<open>src/Connection.hpp\<close> and \<open>src/Connection.cpp\<close>: messages, the pair of
  queues of one service, and the status of the connection to a client.
\<close>

section \<open>Messages\<close>

datatype msg_type = REQUEST | RESPONSE

datatype status_code_type = VALID | ERROR | EMPTY | OPEN | CLOSED | WAITING | RUNNING | STOPPED

text \<open>The doubles of the platform, which the modelled code stores but never computes with.\<close>

typedecl double

text \<open>
  A message. \<open>payload_size\<close> is the size of \<open>N\<close> doubles, eight bytes each, as a \<open>size_t\<close>; the
  constructor leaves the data empty.
\<close>

record srv_msg =
  msg_kind :: msg_type
  msg_status :: status_code_type
  sequence :: nat
  msg_data :: "double list"
  payload_size :: nat

definition new_srv_msg :: "msg_type \<Rightarrow> status_code_type \<Rightarrow> nat \<Rightarrow> nat \<Rightarrow> srv_msg" where
  "new_srv_msg typ stts seq n =
     \<lparr>msg_kind = typ, msg_status = stts, sequence = seq, msg_data = [],
      payload_size = (8 * n) mod 2 ^ 64\<rparr>"

definition bad_index :: nat where "bad_index = size_max"

section \<open>A service\<close>

record 'a service_queue =
  topic_name :: string
  queue_size :: nat
  seq_req :: nat
  seq_rsp :: nat
  q_req :: "'a cq"
  q_rsp :: "'a cq"

definition new_service :: "nat \<Rightarrow> string \<Rightarrow> nat \<Rightarrow> 'a service_queue" where
  "new_service threads tpc_name q_len =
     \<lparr>topic_name = tpc_name, queue_size = q_len, seq_req = 0, seq_rsp = 0,
      q_req = new_cq threads, q_rsp = new_cq threads\<rparr>"

text \<open>
  A value of the queue is the fourth argument of the constructor of a message, a \<open>size_t\<close>:
  \<open>to_size\<close> is the conversion. When there is none, the argument is the variable as it was
  declared, \<open>unset\<close>.
\<close>

definition req_pop_msg ::
    "nat \<Rightarrow> ('a \<Rightarrow> nat) \<Rightarrow> 'a \<Rightarrow> 'a service_queue \<Rightarrow> (srv_msg \<times> 'a service_queue) option" where
  "req_pop_msg t to_size unset sq =
     Option.bind (call_try_pop t (q_req sq)) (\<lambda>(result, q).
       let sq = sq\<lparr>q_req := q\<rparr> in
       case result of
         Some data \<Rightarrow> Some (new_srv_msg REQUEST VALID (seq_req sq) (to_size data),
           sq\<lparr>seq_req := (seq_req sq + 1) mod 2 ^ 64\<rparr>)
       | None \<Rightarrow> Some (new_srv_msg REQUEST EMPTY bad_index (to_size unset), sq))"

definition rsp_pop_msg ::
    "nat \<Rightarrow> ('a \<Rightarrow> nat) \<Rightarrow> 'a \<Rightarrow> 'a service_queue \<Rightarrow> (srv_msg \<times> 'a service_queue) option" where
  "rsp_pop_msg t to_size unset sq =
     Option.bind (call_try_pop t (q_rsp sq)) (\<lambda>(result, q).
       let sq = sq\<lparr>q_rsp := q\<rparr> in
       case result of
         Some data \<Rightarrow> Some (new_srv_msg RESPONSE VALID (seq_req sq) (to_size data),
           sq\<lparr>seq_req := (seq_req sq + 1) mod 2 ^ 64\<rparr>)
       | None \<Rightarrow> Some (new_srv_msg RESPONSE EMPTY bad_index (to_size unset), sq))"

text \<open>The destructor clears both queues.\<close>

definition destroy_service :: "nat \<Rightarrow> 'a service_queue \<Rightarrow> 'a service_queue option" where
  "destroy_service t sq =
     Option.bind (call_clear t (q_req sq)) (\<lambda>q1.
       Option.bind (call_clear t (q_rsp sq)) (\<lambda>q2. Some (sq\<lparr>q_req := q1, q_rsp := q2\<rparr>)))"

section \<open>What a service does\<close>

text \<open>A client of the service that pops requests and responses in some order.\<close>

definition pop_msg ::
    "nat \<Rightarrow> ('a \<Rightarrow> nat) \<Rightarrow> 'a \<Rightarrow> msg_type \<Rightarrow> 'a service_queue \<Rightarrow>
     (srv_msg \<times> 'a service_queue) option" where
  "pop_msg t to_size unset k sq =
     (case k of REQUEST \<Rightarrow> req_pop_msg t to_size unset sq | RESPONSE \<Rightarrow> rsp_pop_msg t to_size unset sq)"

fun pop_msgs ::
    "nat \<Rightarrow> ('a \<Rightarrow> nat) \<Rightarrow> 'a \<Rightarrow> msg_type list \<Rightarrow> 'a service_queue \<Rightarrow>
     (srv_msg list \<times> 'a service_queue) option" where
  "pop_msgs t to_size unset [] sq = Some ([], sq)"
| "pop_msgs t to_size unset (k # ks) sq =
     Option.bind (pop_msg t to_size unset k sq)
       (\<lambda>(msg, sq'). map_option (apfst (Cons msg)) (pop_msgs t to_size unset ks sq'))"

text \<open>
  The same on two plain lists and one counter, without locks: the messages that come out.
\<close>

fun service_spec ::
    "('a \<Rightarrow> nat) \<Rightarrow> 'a \<Rightarrow> msg_type list \<Rightarrow> (msg_type \<Rightarrow> 'a list) \<Rightarrow> nat \<Rightarrow> srv_msg list" where
  "service_spec to_size unset [] queues n = []"
| "service_spec to_size unset (k # ks) queues n =
     (case queues k of
        [] \<Rightarrow> new_srv_msg k EMPTY bad_index (to_size unset) # service_spec to_size unset ks queues n
      | x # xs \<Rightarrow> new_srv_msg k VALID n (to_size x) #
          service_spec to_size unset ks (queues(k := xs)) ((n + 1) mod 2 ^ 64))"

definition service_ready :: "nat \<Rightarrow> 'a service_queue \<Rightarrow> bool" where
  "service_ready t sq \<longleftrightarrow> idle t (q_req sq) \<and> idle t (q_rsp sq)"

definition queues_of :: "'a service_queue \<Rightarrow> msg_type \<Rightarrow> 'a list" where
  "queues_of sq k = (case k of REQUEST \<Rightarrow> items (q_req sq) | RESPONSE \<Rightarrow> items (q_rsp sq))"

lemma pop_msg_step:
  assumes "service_ready t sq"
  shows "\<exists>sq'. service_ready t sq' \<and> seq_rsp sq' = seq_rsp sq \<and>
    (case queues_of sq k of
       [] \<Rightarrow> pop_msg t to_size unset k sq = Some (new_srv_msg k EMPTY bad_index (to_size unset), sq') \<and>
         queues_of sq' = queues_of sq \<and> seq_req sq' = seq_req sq
     | x # xs \<Rightarrow> pop_msg t to_size unset k sq = Some (new_srv_msg k VALID (seq_req sq) (to_size x), sq') \<and>
         queues_of sq' = (queues_of sq)(k := xs) \<and> seq_req sq' = (seq_req sq + 1) mod 2 ^ 64)"
proof (cases k)
  case REQUEST
  from assms have "idle t (q_req sq)" by (simp add: service_ready_def)
  from alone.try_pop_law [OF this] obtain q where "call_try_pop t (q_req sq) =
      Some (case items (q_req sq) of [] \<Rightarrow> None | x # xs \<Rightarrow> Some x, q)" "idle t q"
      "items q = tl (items (q_req sq))" by blast
  with REQUEST assms show ?thesis
    by (auto simp: pop_msg_def req_pop_msg_def service_ready_def queues_of_def fun_eq_iff
        split: list.splits msg_type.splits)
next
  case RESPONSE
  from assms have "idle t (q_rsp sq)" by (simp add: service_ready_def)
  from alone.try_pop_law [OF this] obtain q where "call_try_pop t (q_rsp sq) =
      Some (case items (q_rsp sq) of [] \<Rightarrow> None | x # xs \<Rightarrow> Some x, q)" "idle t q"
      "items q = tl (items (q_rsp sq))" by blast
  with RESPONSE assms show ?thesis
    by (auto simp: pop_msg_def rsp_pop_msg_def service_ready_def queues_of_def fun_eq_iff
        split: list.splits msg_type.splits)
qed

lemma pop_msgs_spec:
  "service_ready t sq \<Longrightarrow> \<exists>sq'. pop_msgs t to_size unset ks sq =
     Some (service_spec to_size unset ks (queues_of sq) (seq_req sq), sq') \<and>
     service_ready t sq' \<and> seq_rsp sq' = seq_rsp sq"
proof (induction ks arbitrary: sq)
  case (Cons k ks)
  note step = pop_msg_step [OF Cons.prems, where k = k and to_size = to_size and unset = unset]
  show ?case
  proof (cases "queues_of sq k")
    case Nil
    with step obtain sq1 where "service_ready t sq1" "seq_rsp sq1 = seq_rsp sq"
      "pop_msg t to_size unset k sq = Some (new_srv_msg k EMPTY bad_index (to_size unset), sq1)"
      "queues_of sq1 = queues_of sq" "seq_req sq1 = seq_req sq" by auto
    with Cons.IH [of sq1] Nil show ?thesis by auto
  next
    case (Cons x xs)
    with step obtain sq1 where "service_ready t sq1" "seq_rsp sq1 = seq_rsp sq"
      "pop_msg t to_size unset k sq = Some (new_srv_msg k VALID (seq_req sq) (to_size x), sq1)"
      "queues_of sq1 = (queues_of sq)(k := xs)" "seq_req sq1 = (seq_req sq + 1) mod 2 ^ 64" by auto
    with Cons.IH [of sq1] Cons show ?thesis by (auto simp: fun_upd_def)
  qed
qed simp

text \<open>The messages that carry something.\<close>

definition valid_msgs :: "srv_msg list \<Rightarrow> srv_msg list" where
  "valid_msgs msgs = filter (\<lambda>m. msg_status m = VALID) msgs"

lemma shifted_sequence:
  "map (\<lambda>i. (n + i) mod m) [0..<Suc l] = n mod m # map (\<lambda>i. ((n + 1) mod m + i) mod m) [0..<l]"
  for n m :: nat
proof -
  have "[0..<Suc l] = 0 # map Suc [0..<l]"
    by (metis map_Suc_upt upt_conv_Cons zero_less_Suc)
  then show ?thesis by (simp add: mod_simps o_def)
qed

lemma service_spec_sequence:
  "n < 2 ^ 64 \<Longrightarrow> map sequence (valid_msgs (service_spec to_size unset ks queues n)) =
     map (\<lambda>i. (n + i) mod 2 ^ 64) [0..<length (valid_msgs (service_spec to_size unset ks queues n))]"
proof (induction ks arbitrary: queues n)
  case (Cons k ks)
  show ?case
  proof (cases "queues k")
    case Nil
    with Cons.IH [OF Cons.prems, of queues] show ?thesis
      by (simp add: valid_msgs_def new_srv_msg_def)
  next
    case (Cons x xs)
    have "(n + 1) mod 2 ^ 64 < (2 :: nat) ^ 64" by simp
    from Cons.IH [OF this, of "queues(k := xs)"] Cons Cons.prems show ?thesis
      by (simp add: valid_msgs_def new_srv_msg_def shifted_sequence fun_upd_def del: upt_Suc)
  qed
qed (simp add: valid_msgs_def)

lemma service_spec_data: "msg \<in> set (service_spec to_size unset ks queues n) \<Longrightarrow> msg_data msg = []"
  by (induction ks arbitrary: queues n) (auto simp: new_srv_msg_def split: list.splits)

lemma service_spec_no_data: "concat (map msg_data (service_spec to_size unset ks queues n)) = []"
  by (auto simp: service_spec_data)

section \<open>The properties of a service\<close>

text \<open>A service of the witnesses: one request waits in it, of value 7.\<close>

definition sample_service :: "nat service_queue" where
  "sample_service = (new_service 1 ''topic'' 10)\<lparr>q_req := (new_cq 1)\<lparr>items := [7]\<rparr>\<rparr>"

lemma sample_service_ready: "service_ready 0 sample_service"
  by (simp add: service_ready_def sample_service_def new_service_def idle_def new_cq_def)

lemma sample_seq: "seq_req sample_service = 0" "seq_rsp sample_service = 0"
  by (simp_all add: sample_service_def new_service_def)

lemma queues_sample: "queues_of sample_service = (\<lambda>k. if k = REQUEST then [7] else [])"
  by (auto simp: queues_of_def sample_service_def new_service_def new_cq_def fun_eq_iff
      split: msg_type.split)

text \<open>
C19: popping messages from the two locked queues of a service gives the messages of two plain
lists and one counter, whatever the order in which requests and responses are popped, and the
service is ready for the next call.
\<close>

theorem service_refines_lists:
  assumes "service_ready t sq"
  shows "\<exists>sq'. pop_msgs t to_size unset ks sq =
      Some (service_spec to_size unset ks (queues_of sq) (seq_req sq), sq') \<and> service_ready t sq'"
  using pop_msgs_spec [OF assms] by blast

theorem service_refines_lists_witness:
  "\<exists>sq'. pop_msgs 0 id 0 [REQUEST, RESPONSE] sample_service =
     Some ([new_srv_msg REQUEST VALID 0 7, new_srv_msg RESPONSE EMPTY bad_index 0], sq')"
  using service_refines_lists [OF sample_service_ready, of id 0 "[REQUEST, RESPONSE]"]
  by (auto simp: queues_sample sample_seq simp del: pop_msgs.simps)

text \<open>
C26: the messages of a service are numbered by one counter. In whatever order requests and
responses are popped, the valid messages of both kinds together have consecutive numbers
modulo 2 to the 64; the counter of the responses keeps its value, and no message carries data.
\<close>

theorem service_numbers_messages:
  assumes "service_ready t sq" and "seq_req sq < 2 ^ 64"
  shows "\<exists>msgs sq'. pop_msgs t to_size unset ks sq = Some (msgs, sq') \<and>
    map sequence (valid_msgs msgs) =
      map (\<lambda>i. (seq_req sq + i) mod 2 ^ 64) [0..<length (valid_msgs msgs)] \<and>
    seq_rsp sq' = seq_rsp sq \<and> concat (map msg_data msgs) = []"
proof -
  obtain sq' where "pop_msgs t to_size unset ks sq =
      Some (service_spec to_size unset ks (queues_of sq) (seq_req sq), sq')" "seq_rsp sq' = seq_rsp sq"
    using pop_msgs_spec [OF assms(1)] by blast
  moreover note service_spec_sequence [OF assms(2), of to_size unset ks "queues_of sq"]
    service_spec_no_data [of to_size unset ks "queues_of sq" "seq_req sq"]
  ultimately show ?thesis by (intro exI conjI)
qed

theorem service_numbers_messages_witness:
  "\<exists>msgs sq'. pop_msgs 0 id 0 [RESPONSE, REQUEST] sample_service = Some (msgs, sq') \<and>
     map sequence (valid_msgs msgs) = map (\<lambda>i. i mod 2 ^ 64) [0..<length (valid_msgs msgs)] \<and>
     seq_rsp sq' = 0"
proof -
  note seq = sample_seq
  then have "seq_req sample_service < 2 ^ 64" by simp
  from service_numbers_messages [OF sample_service_ready this, of id 0 "[RESPONSE, REQUEST]"] seq
  show ?thesis by auto
qed

lemma destroy_service_empties:
  assumes "service_ready t sq"
  shows "\<exists>sq'. destroy_service t sq = Some sq' \<and> queues_of sq' = (\<lambda>k. [])"
proof -
  from assms have "idle t (q_req sq)" "idle t (q_rsp sq)" by (simp_all add: service_ready_def)
  with alone.clear_law obtain q1 q2 where "call_clear t (q_req sq) = Some q1" "items q1 = []"
    "call_clear t (q_rsp sq) = Some q2" "items q2 = []" by meson
  then show ?thesis
    by (auto simp: destroy_service_def queues_of_def fun_eq_iff split: msg_type.split)
qed

text \<open>The size of a queue is stored, but nothing bounds the queues by it.\<close>

lemma queue_size_unused:
  "pop_msgs t to_size unset ks sq = Some (msgs, sq') \<Longrightarrow> queue_size sq' = queue_size sq"
proof (induction ks arbitrary: sq msgs)
  case (Cons k ks)
  then obtain msg sq1 msgs1 where "pop_msg t to_size unset k sq = Some (msg, sq1)"
    "pop_msgs t to_size unset ks sq1 = Some (msgs1, sq')" by (auto simp: bind_eq_Some_conv)
  moreover from this(1) have "queue_size sq1 = queue_size sq"
    by (cases k) (auto simp: pop_msg_def req_pop_msg_def rsp_pop_msg_def bind_eq_Some_conv Let_def
        split: option.splits)
  ultimately show ?case using Cons.IH by simp
qed simp

section \<open>The connection to a client\<close>

text \<open>
  What the network library answers to the calls of \<open>Connection::accept\<close>, in the order of the
  calls. All but the last are outside the \<open>try\<close> block.
\<close>

datatype net_error = End_Of_File | Other_Error

record accept_answers =
  resolve_ok :: bool
  open_ok :: bool
  option_ok :: bool
  bind_ok :: bool
  listen_ok :: bool
  accept_ok :: bool

record client_connection =
  conn_status :: status_code_type
  bytes_rcvd :: nat
  bytes_sent :: nat
  last_error :: "net_error option"
  conn_ip :: string
  conn_port :: string

definition new_client_connection :: client_connection where
  "new_client_connection =
     \<lparr>conn_status = CLOSED, bytes_rcvd = 0, bytes_sent = 0, last_error = None, conn_ip = [], conn_port = []\<rparr>"

text \<open>The result is what it returns, or nothing when an exception leaves the function.\<close>

definition accept_client :: "accept_answers \<Rightarrow> client_connection \<Rightarrow> bool option \<times> client_connection" where
  "accept_client net c =
     (if \<not> (resolve_ok net \<and> open_ok net \<and> option_ok net \<and> bind_ok net \<and> listen_ok net)
      then (None, c)
      else let c = c\<lparr>conn_status := WAITING\<rparr> in
        if accept_ok net then (Some True, c\<lparr>conn_status := OPEN\<rparr>)
        else (Some False, c\<lparr>conn_status := CLOSED\<rparr>))"

definition is_closed :: "client_connection \<Rightarrow> bool \<times> client_connection" where
  "is_closed c =
     (let reached_eof = (last_error c = Some End_Of_File) in
      (reached_eof, if reached_eof then c\<lparr>conn_status := CLOSED\<rparr> else c))"

text \<open>A call of \<open>accept\<close> leaves a connection open exactly when it returns true.\<close>

lemma accept_client_open:
  assumes "accept_client net c = (r, c')" and "conn_status c \<noteq> OPEN"
  shows "conn_status c' = OPEN \<longleftrightarrow> r = Some True" and "conn_status c' \<noteq> WAITING \<or> conn_status c = WAITING"
  using assms by (auto simp: accept_client_def Let_def split: if_splits)

end
