(* ===== verification/Serialization.thy ===== *)
theory Serialization imports StdText
begin

text \<open>
  \<open>ex_serialization/connection.hpp\<close>: messages on a socket, each a header of eight characters
  with the size of the data in hexadecimal, and the data. The archive that turns a value into
  text and back belongs to Boost: it is the parameters \<open>save\<close> and \<open>load\<close>.
\<close>

section \<open>State\<close>

datatype wire_error = Invalid_Argument_Error | Eof | Network_Error

text \<open>
  How a handler can end besides returning: with undefined behaviour, or with an exception that
  nothing catches before \<open>main\<close>.
\<close>

datatype fault = Undefined ub | Length_Error | Bad_Alloc

text \<open>
  The operations a connection can wait for. The target is the value that \<open>async_read\<close> was
  given by reference, and the reports are the error codes that the client's handler was called
  with so far, nothing standing for success.
\<close>

datatype s11n_pending = No_Operation | Read_Header | Read_Data nat | Writing_Message string

record 'a s11n_connection =
  outbound_header :: string
  outbound_data :: string
  inbound_header :: string
  inbound_data :: string
  s11n_pending :: s11n_pending
  target :: 'a
  reports :: "wire_error option list"

definition header_length :: nat where "header_length = 8"

text \<open>The largest \<open>std::vector<char>\<close>.\<close>

definition vector_max :: nat where "vector_max = 2 ^ 63 - 1"

definition call_handler :: "wire_error option \<Rightarrow> 'a s11n_connection \<Rightarrow> 'a s11n_connection" where
  "call_handler e c = c\<lparr>s11n_pending := No_Operation, reports := reports c @ [e]\<rparr>"

section \<open>Writing\<close>

definition async_write :: "('b \<Rightarrow> string) \<Rightarrow> 'b \<Rightarrow> 'a s11n_connection \<Rightarrow> 'a s11n_connection" where
  "async_write save t c =
     (let c = c\<lparr>outbound_data := save t\<rparr>;
          header_stream = set_width header_length (hex_text (length (outbound_data c)))
      in if length header_stream \<noteq> header_length then call_handler (Some Invalid_Argument_Error) c
         else let c = c\<lparr>outbound_header := header_stream\<rparr>
              in c\<lparr>s11n_pending := Writing_Message (outbound_header c @ outbound_data c)\<rparr>)"

section \<open>Reading\<close>

definition async_read :: "'a s11n_connection \<Rightarrow> 'a s11n_connection" where
  "async_read c = c\<lparr>s11n_pending := Read_Header\<rparr>"

definition resize_data :: "nat \<Rightarrow> string \<Rightarrow> string" where
  "resize_data n d = take n d @ replicate (n - length d) NUL"

text \<open>\<open>memory\<close> is the size from which on an allocation fails.\<close>

definition handle_read_header ::
    "nat \<Rightarrow> wire_error option \<Rightarrow> 'a s11n_connection \<Rightarrow> fault + 'a s11n_connection" where
  "handle_read_header memory e c =
     (case e of Some err \<Rightarrow> Inr (call_handler (Some err) c)
      | None \<Rightarrow>
          (case extract_hex_size (inbound_header c) of
             None \<Rightarrow> Inr (call_handler (Some Invalid_Argument_Error) c)
           | Some inbound_data_size \<Rightarrow>
               if inbound_data_size > vector_max then Inl Length_Error
               else if inbound_data_size > memory then Inl Bad_Alloc
               else Inr (c\<lparr>inbound_data := resize_data inbound_data_size (inbound_data c),
                           s11n_pending := Read_Data inbound_data_size\<rparr>)))"

text \<open>
  \<open>load\<close> gives the value after the archive was read into it, and whether that went well.
\<close>

definition handle_read_data ::
    "('a \<Rightarrow> string \<Rightarrow> 'a \<times> bool) \<Rightarrow> wire_error option \<Rightarrow> 'a s11n_connection \<Rightarrow>
     fault + 'a s11n_connection" where
  "handle_read_data load e c =
     (case e of Some err \<Rightarrow> Inr (call_handler (Some err) c)
      | None \<Rightarrow>
          if inbound_data c = [] then Inl (Undefined Index_Out_Of_Range)
          else (case load (target c) (inbound_data c) of (t, fine) \<Rightarrow>
            Inr (call_handler (if fine then None else Some Invalid_Argument_Error) (c\<lparr>target := t\<rparr>))))"

section \<open>Reading from a stream\<close>

text \<open>
  The bytes that the other end sent, before it closed the socket. A read of exactly \<open>n\<close> bytes
  takes them, or fails when fewer are left (it then has taken those).
\<close>

definition read_exactly :: "nat \<Rightarrow> string \<Rightarrow> (wire_error option \<times> string \<times> string)" where
  "read_exactly n stream =
     (if n \<le> length stream then (None, take n stream, drop n stream) else (Some Eof, stream, []))"

definition complete_header ::
    "nat \<Rightarrow> 'a s11n_connection \<Rightarrow> string \<Rightarrow> fault + ('a s11n_connection \<times> string)" where
  "complete_header memory c stream =
     (case read_exactly header_length stream of (e, got, rest) \<Rightarrow>
        bind_res (handle_read_header memory e
            (c\<lparr>s11n_pending := No_Operation, inbound_header := got @ drop (length got) (inbound_header c)\<rparr>))
          (\<lambda>c'. Inr (c', rest)))"

definition complete_data ::
    "('a \<Rightarrow> string \<Rightarrow> 'a \<times> bool) \<Rightarrow> nat \<Rightarrow> 'a s11n_connection \<Rightarrow> string \<Rightarrow>
     fault + ('a s11n_connection \<times> string)" where
  "complete_data load n c stream =
     (case read_exactly n stream of (e, got, rest) \<Rightarrow>
        bind_res (handle_read_data load e
            (c\<lparr>s11n_pending := No_Operation, inbound_data := got @ drop (length got) (inbound_data c)\<rparr>))
          (\<lambda>c'. Inr (c', rest)))"

text \<open>One \<open>async_read\<close>, from its start to the call of the client's handler.\<close>

definition read_message ::
    "nat \<Rightarrow> ('a \<Rightarrow> string \<Rightarrow> 'a \<times> bool) \<Rightarrow> 'a s11n_connection \<Rightarrow> string \<Rightarrow>
     fault + ('a s11n_connection \<times> string)" where
  "read_message memory load c stream =
     bind_res (complete_header memory (async_read c) stream) (\<lambda>(c', rest).
       case s11n_pending c' of
         Read_Data n \<Rightarrow> complete_data load n c' rest
       | _ \<Rightarrow> Inr (c', rest))"

text \<open>As many as the first argument says, keeping the targets.\<close>

fun read_messages ::
    "nat \<Rightarrow> nat \<Rightarrow> ('a \<Rightarrow> string \<Rightarrow> 'a \<times> bool) \<Rightarrow> 'a s11n_connection \<Rightarrow> string \<Rightarrow>
     fault + ('a list \<times> 'a s11n_connection \<times> string)" where
  "read_messages 0 memory load c stream = Inr ([], c, stream)"
| "read_messages (Suc k) memory load c stream =
     bind_res (read_message memory load c stream) (\<lambda>(c', rest).
       bind_res (read_messages k memory load c' rest) (\<lambda>(ts, c'', rest').
         Inr (target c' # ts, c'', rest')))"

section \<open>Frames\<close>

definition frame :: "('a \<Rightarrow> string) \<Rightarrow> 'a \<Rightarrow> string" where
  "frame save x = set_width header_length (hex_text (length (save x))) @ save x"

text \<open>A size fits the header when it has at most eight hexadecimal digits.\<close>

lemma header_fits: "length (set_width header_length (hex_text n)) = header_length \<longleftrightarrow> n < 2 ^ 32"
proof -
  have "length (set_width header_length (hex_text n)) = header_length \<longleftrightarrow> length (base_text 16 n) \<le> 8"
    by (auto simp: set_width_def header_length_def hex_text_def)
  also have "\<dots> \<longleftrightarrow> n < 2 ^ 32" by (simp add: length_base_text_le)
  finally show ?thesis .
qed

lemma async_write_cases:
  "async_write save t c =
     (if length (save t) < 2 ^ 32
      then c\<lparr>outbound_data := save t, outbound_header := set_width header_length (hex_text (length (save t))),
             s11n_pending := Writing_Message (frame save t)\<rparr>
      else call_handler (Some Invalid_Argument_Error) (c\<lparr>outbound_data := save t\<rparr>))"
  by (simp add: async_write_def header_fits frame_def Let_def)

section \<open>The archive\<close>

text \<open>What the messages rely on: what was saved is loaded, whatever the target was before.\<close>

locale archive =
  fixes save :: "'a \<Rightarrow> string" and load :: "'a \<Rightarrow> string \<Rightarrow> 'a \<times> bool"
  assumes load_save: "load t (save x) = (x, True)"
    and save_not_Nil: "save x \<noteq> []"
begin

lemma read_frame:
  assumes fits: "length (save x) < 2 ^ 32" "length (save x) \<le> memory" and c: "length (inbound_header c) = 8"
  shows "\<exists>c'. read_message memory load c (frame save x @ rest) = Inr (c', rest) \<and> target c' = x \<and>
    reports c' = reports c @ [None] \<and> s11n_pending c' = No_Operation \<and> length (inbound_header c') = 8"
proof -
  let ?n = "length (save x)" and ?h = "set_width header_length (hex_text (length (save x)))"
  have h: "length ?h = 8" using header_fits [of ?n] fits by (simp add: header_length_def)
  have n: "extract_hex_size ?h = Some ?n" "?n \<le> vector_max"
    using fits by (simp_all add: extract_hex_size_hex_text size_max_def vector_max_def)
  have hd: "complete_header memory (async_read c) (frame save x @ rest) =
      Inr (c\<lparr>inbound_header := ?h, inbound_data := resize_data ?n (inbound_data c),
             s11n_pending := Read_Data ?n\<rparr>, save x @ rest)"
    using h n fits(2) c
    by (cases c) (simp add: complete_header_def async_read_def read_exactly_def header_length_def [symmetric]
        frame_def handle_read_header_def)
  have "length (resize_data ?n (inbound_data c)) = ?n" by (simp add: resize_data_def)
  with hd h save_not_Nil load_save show ?thesis
    by (simp add: read_message_def complete_data_def read_exactly_def handle_read_data_def call_handler_def)
qed

lemma read_frames:
  "\<lbrakk> \<forall>x \<in> set xs. length (save x) < 2 ^ 32 \<and> length (save x) \<le> memory; length (inbound_header c) = 8 \<rbrakk>
   \<Longrightarrow> \<exists>c'. read_messages (length xs) memory load c (concat (map (frame save) xs) @ rest) = Inr (xs, c', rest) \<and>
     reports c' = reports c @ replicate (length xs) None"
proof (induction xs arbitrary: c)
  case (Cons x xs)
  then obtain c1 where c1: "read_message memory load c (frame save x @ concat (map (frame save) xs) @ rest) =
      Inr (c1, concat (map (frame save) xs) @ rest)" "target c1 = x" "reports c1 = reports c @ [None]"
      "length (inbound_header c1) = 8"
    using read_frame [of x memory c "concat (map (frame save) xs) @ rest"] by auto
  with Cons.IH [of c1] Cons.prems obtain c2 where
    "read_messages (length xs) memory load c1 (concat (map (frame save) xs) @ rest) = Inr (xs, c2, rest)"
    "reports c2 = reports c1 @ replicate (length xs) None" by auto
  with c1 show ?case by simp
qed simp

end

section \<open>Headers that a peer can send\<close>

lemma base_value_less:
  assumes "list_all (base_digit b) ds" "0 < b"
  shows "base_value b ds < b ^ length ds"
  using assms(1)
proof (induction ds rule: rev_induct)
  case (snoc c ds)
  then obtain d where d: "digit_of c = Some d" "d < b"
    by (auto simp: base_digit_def split: option.splits)
  from snoc have "base_value b ds < b ^ length ds" by simp
  then have "base_value b ds * b + d < b ^ length ds * b"
    using d(2) by (metis Suc_leI add_less_cancel_left less_le_trans mult.commute mult_Suc mult_le_mono2 add.commute)
  with d show ?case by (simp add: base_value_snoc mult.commute)
qed (simp add: base_value_def)

lemma scan_number_less:
  assumes "scan_number 16 s = Some (neg, m)"
  shows "m < 16 ^ length s"
proof -
  obtain ds where ds: "m = base_value 16 ds" "list_all (base_digit 16) ds" "length ds \<le> length s"
  proof -
    let ?s2 = "snd (split_sign (dropWhile is_space s))"
    let ?ds = "takeWhile (base_digit 16) (skip_prefix ?s2)"
    have "length (skip_prefix t) \<le> length t" for t by (cases t rule: skip_prefix.cases) auto
    moreover have "length (snd (split_sign t)) \<le> length t" for t by (cases t) auto
    ultimately have "length ?ds \<le> length s"
      by (meson length_dropWhile_le length_takeWhile_le le_trans)
    moreover have "list_all (base_digit 16) ?ds" by (auto simp: list_all_iff dest: set_takeWhileD)
    moreover have "m = base_value 16 ?ds"
      using assms by (auto simp: scan_number_def Let_def split: prod.splits if_splits)
    ultimately show thesis using that by blast
  qed
  have "base_value 16 ds < 16 ^ length ds" by (rule base_value_less [OF ds(2)]) simp
  also have "\<dots> \<le> 16 ^ length s" using ds(3) by (simp add: power_increasing)
  finally show ?thesis using ds(1) by simp
qed

lemma header_value:
  assumes "length h = 8" and "scan_number 16 h = Some (neg, m)"
  shows "m < 2 ^ 32" "extract_hex_size h = Some (if neg \<and> 0 < m then 2 ^ 64 - m else m)"
proof -
  show m: "m < 2 ^ 32" using scan_number_less [OF assms(2)] assms(1) by simp
  then have "(2 ^ 64 - m) mod 2 ^ 64 = (if m = 0 then 0 else 2 ^ 64 - m)" by auto
  with m assms(2) show "extract_hex_size h = Some (if neg \<and> 0 < m then 2 ^ 64 - m else m)"
    by (simp add: extract_hex_size_def size_max_def unsigned_of_def)
qed

text \<open>What a read does with the header and the data, by what the header scans to.\<close>

lemma read_message_short:
  "length stream < 8 \<Longrightarrow> \<exists>c'. read_message memory load c stream = Inr (c', [])"
  by (simp add: read_message_def complete_header_def read_exactly_def header_length_def
      handle_read_header_def call_handler_def)

lemma complete_header_long:
  assumes "8 \<le> length stream" and "length (inbound_header c) = 8"
  shows "complete_header memory (async_read c) stream =
    (case extract_hex_size (take 8 stream) of
       None \<Rightarrow> Inr (call_handler (Some Invalid_Argument_Error)
                 (c\<lparr>s11n_pending := No_Operation, inbound_header := take 8 stream\<rparr>), drop 8 stream)
     | Some n \<Rightarrow>
         if n > vector_max then Inl Length_Error
         else if n > memory then Inl Bad_Alloc
         else Inr (c\<lparr>inbound_header := take 8 stream, inbound_data := resize_data n (inbound_data c),
                     s11n_pending := Read_Data n\<rparr>, drop 8 stream))"
  using assms
  by (cases c) (simp add: complete_header_def read_exactly_def header_length_def async_read_def
      handle_read_header_def split: option.split)

lemma complete_data_empty: "inbound_data c = [] \<Longrightarrow> complete_data load 0 c s = Inl (Undefined Index_Out_Of_Range)"
  by (simp add: complete_data_def read_exactly_def handle_read_data_def)

lemma complete_data_some:
  "0 < n \<Longrightarrow> \<exists>c' rest. complete_data load n c s = Inr (c', rest)"
  by (cases "n \<le> length s"; cases s)
    (simp_all add: complete_data_def read_exactly_def handle_read_data_def split: prod.splits)

lemma read_message_header:
  fixes stream c memory load
  defines "h \<equiv> take 8 stream"
  assumes len: "8 \<le> length stream" and c: "length (inbound_header c) = 8"
  shows "case scan_number 16 h of
      None \<Rightarrow> \<exists>c'. read_message memory load c stream = Inr (c', drop 8 stream)
    | Some (neg, m) \<Rightarrow>
        if neg \<and> 0 < m then read_message memory load c stream = Inl Length_Error
        else if memory < m then read_message memory load c stream = Inl Bad_Alloc
        else if m = 0 then read_message memory load c stream = Inl (Undefined Index_Out_Of_Range)
        else \<exists>c' rest. read_message memory load c stream = Inr (c', rest)"
proof (cases "scan_number 16 h")
  case None
  then have "extract_hex_size (take 8 stream) = None" by (simp add: extract_hex_size_def h_def)
  with None show ?thesis
    by (simp add: read_message_def complete_header_long [OF len c] call_handler_def)
next
  case (Some a)
  obtain neg m where a: "a = (neg, m)" by (cases a)
  have h: "length h = 8" using len by (simp add: h_def)
  note v = header_value [OF h Some [unfolded a]]
  show ?thesis
  proof (cases "neg \<and> 0 < m")
    case True
    have "2 ^ 64 - m > vector_max" using v(1) by (simp add: vector_max_def)
    with True Some a v(2) show ?thesis
      by (simp add: read_message_def complete_header_long [OF len c] h_def)
  next
    case False
    with v have e: "extract_hex_size (take 8 stream) = Some m" "\<not> vector_max < m"
      by (auto simp: h_def vector_max_def)
    show ?thesis
    proof (cases "memory < m")
      case True
      with False Some a e show ?thesis
        by (simp add: read_message_def complete_header_long [OF len c] h_def)
    next
      case fits: False
      show ?thesis
      proof (cases "m = 0")
        case True
        with Some a e fits show ?thesis
          by (simp add: read_message_def complete_header_long [OF len c] complete_data_empty resize_data_def)
      next
        case nonzero: False
        with False fits Some a e show ?thesis
          using complete_data_some [of m load]
          by (simp add: read_message_def complete_header_long [OF len c])
      qed
    qed
  qed
qed

section \<open>The properties\<close>

text \<open>
C17: messages survive the connection. With an archive that loads what it saved, messages whose
text is shorter than four gigabytes (and fits the reader's memory) are framed and written,
and a reader of the stream gets exactly them, in order, each reported once without an error,
and leaves what follows unread.
\<close>

theorem messages_round_trip:
  assumes "archive save load" and "length (inbound_header c) = 8"
    and sizes: "\<forall>x \<in> set xs. length (save x) < 2 ^ 32 \<and> length (save x) \<le> memory"
  shows "\<exists>c'. list_all (\<lambda>x. s11n_pending (async_write save x w) = Writing_Message (frame save x)) xs \<and>
    read_messages (length xs) memory load c (concat (map (frame save) xs) @ rest) = Inr (xs, c', rest) \<and>
    reports c' = reports c @ replicate (length xs) None"
  using archive.read_frames [OF assms(1) sizes assms(2)] sizes
  by (simp add: async_write_cases list_all_iff)

text \<open>An archive of one number, as a text stream writes and reads it.\<close>

definition load_number :: "nat \<Rightarrow> string \<Rightarrow> nat \<times> bool" where
  "load_number t s = (case scan_number 10 s of Some (False, n) \<Rightarrow> (n, True) | _ \<Rightarrow> (t, False))"

lemma number_archive: "archive dec_text load_number"
proof
  show "load_number t (dec_text x) = (x, True)" for t x
    using scan_base_text [of 10 0 x] by (simp add: load_number_def dec_text_def)
  show "dec_text x \<noteq> []" for x by (simp add: dec_text_def)
qed

definition sample_reader :: "nat s11n_connection" where
  "sample_reader = \<lparr>outbound_header = [], outbound_data = [], inbound_header = replicate 8 NUL,
     inbound_data = [], s11n_pending = No_Operation, target = 0, reports = []\<rparr>"

lemma sample_reader_header: "length (inbound_header sample_reader) = 8"
  by (simp add: sample_reader_def)

theorem messages_round_trip_witness:
  "\<exists>c'. read_messages 2 1000 load_number sample_reader ''       14       17next'' = Inr ([4, 7], c', ''next'') \<and>
     reports c' = [None, None]"
proof -
  have "dec_text 4 = ''4''" "dec_text 7 = ''7''" by code_simp+
  then have "\<forall>x \<in> set [4, 7]. length (dec_text x) < 2 ^ 32 \<and> length (dec_text x) \<le> 1000" by simp
  note round_trip = messages_round_trip [OF number_archive sample_reader_header this, of sample_reader "''next''"]
  moreover have "concat (map (frame dec_text) [4, 7]) @ ''next'' = ''       14       17next''" by code_simp
  moreover have "reports sample_reader @ replicate (length [4, 7 :: nat]) None = [None, None]"
    by (simp add: sample_reader_def)
  ultimately show ?thesis by (simp only: list.size One_nat_def add_Suc_right add_0_right numeral_2_eq_2) blast
qed

text \<open>
A message is refused by the writer exactly when its text has four gigabytes or more; the
client's handler is then called with an error and nothing is written, otherwise the frame is.
\<close>

lemma write_refused_iff:
  "reports (async_write save t c) = reports c @ (if 2 ^ 32 \<le> length (save t) then [Some Invalid_Argument_Error] else []) \<and>
   s11n_pending (async_write save t c) = (if 2 ^ 32 \<le> length (save t) then No_Operation else Writing_Message (frame save t))"
  by (simp add: async_write_cases call_handler_def)

text \<open>
C18: what a peer can do to a reader with the eight characters of a header. A minus sign before
a number other than zero makes the resize throw, a number zero leads to the address of the
first element of an empty vector, and a number above what can be allocated to a failed
allocation. Nothing else ends a read other than by a call of the client's handler.
\<close>

theorem reader_faults_iff:
  assumes "length (inbound_header c) = 8"
  shows "(read_message memory load c stream = Inl f) =
    (8 \<le> length stream \<and>
     (\<exists>neg m. scan_number 16 (take 8 stream) = Some (neg, m) \<and>
        f = (if neg \<and> 0 < m then Length_Error else if memory < m then Bad_Alloc
             else Undefined Index_Out_Of_Range) \<and>
        (neg \<or> m = 0 \<or> memory < m)))"
proof (cases "8 \<le> length stream")
  case True
  note result = read_message_header [OF True assms, of memory load]
  show ?thesis
  proof (cases "scan_number 16 (take 8 stream)")
    case None
    with result True show ?thesis by auto
  next
    case (Some a)
    obtain neg m where a: "a = (neg, m)" by (cases a)
    have "(read_message memory load c stream = Inl f) =
      (f = (if neg \<and> 0 < m then Length_Error else if memory < m then Bad_Alloc
            else Undefined Index_Out_Of_Range) \<and> (neg \<or> m = 0 \<or> memory < m))"
    proof (cases "neg \<and> 0 < m \<or> memory < m \<or> m = 0")
      case True
      with result Some a show ?thesis by (auto split: if_splits)
    next
      case False
      with result Some a obtain c' rest where "read_message memory load c stream = Inr (c', rest)"
        by auto
      with False show ?thesis by auto
    qed
    with Some a True show ?thesis by simp
  qed
next
  case False
  then show ?thesis using read_message_short [of stream memory load c] by auto
qed

theorem reader_faults_iff_witness:
  "read_message 1000 (\<lambda>t s. (t, True)) sample_reader ''      -1 22 serialization'' = Inl Length_Error \<and>
   read_message 1000 (\<lambda>t s. (t, True)) sample_reader ''       0'' = Inl (Undefined Index_Out_Of_Range)"
proof -
  have "scan_number 16 ''      -1'' = Some (True, 1)" "scan_number 16 ''       0'' = Some (False, 0)"
    by code_simp+
  then show ?thesis
    using reader_faults_iff [OF sample_reader_header, of 1000 "\<lambda>t s. (t, True)"] by auto
qed

end
