(* ===== verification/StockService.thy ===== *)
theory StockService imports Serialization
begin

text \<open>
  \<open>ex_serialization/stock.hpp\<close>, \<open>server.cpp\<close> and \<open>client.cpp\<close>: a server that sends the same two
  stocks to every client, and a client that prints what it gets. Prices are doubles: their
  type is a parameter, with the conversion \<open>lit m k\<close> of the literal that stands for \<open>m\<close> divided
  by the \<open>k\<close>th power of ten, and \<open>show_d\<close>, what \<open>operator<<\<close> prints.
\<close>

section \<open>Stocks\<close>

record 'd stock =
  code :: string
  stock_name :: string
  open_price :: 'd
  high_price :: 'd
  low_price :: 'd
  last_price :: 'd
  buy_price :: 'd
  buy_quantity :: int
  sell_price :: 'd
  sell_quantity :: int

text \<open>
  What \<open>serialize\<close> gives to an archive, member by member, and what it takes from one.
\<close>

datatype 'd field = F_String string | F_Double 'd | F_Int int

definition save_fields :: "'d stock \<Rightarrow> 'd field list" where
  "save_fields s =
     [F_String (code s), F_String (stock_name s), F_Double (open_price s), F_Double (high_price s),
      F_Double (low_price s), F_Double (last_price s), F_Double (buy_price s), F_Int (buy_quantity s),
      F_Double (sell_price s), F_Int (sell_quantity s)]"

fun take_string :: "'d field list \<Rightarrow> (string \<times> 'd field list) option" where
  "take_string (F_String s # fs) = Some (s, fs)"
| "take_string _ = None"

fun take_double :: "'d field list \<Rightarrow> ('d \<times> 'd field list) option" where
  "take_double (F_Double d # fs) = Some (d, fs)"
| "take_double _ = None"

fun take_int :: "'d field list \<Rightarrow> (int \<times> 'd field list) option" where
  "take_int (F_Int i # fs) = Some (i, fs)"
| "take_int _ = None"

definition load_fields :: "'d field list \<Rightarrow> ('d stock \<times> 'd field list) option" where
  "load_fields fs =
     Option.bind (take_string fs) (\<lambda>(c, fs).
     Option.bind (take_string fs) (\<lambda>(n, fs).
     Option.bind (take_double fs) (\<lambda>(p1, fs).
     Option.bind (take_double fs) (\<lambda>(p2, fs).
     Option.bind (take_double fs) (\<lambda>(p3, fs).
     Option.bind (take_double fs) (\<lambda>(p4, fs).
     Option.bind (take_double fs) (\<lambda>(p5, fs).
     Option.bind (take_int fs) (\<lambda>(q1, fs).
     Option.bind (take_double fs) (\<lambda>(p6, fs).
     Option.bind (take_int fs) (\<lambda>(q2, fs).
       Some (\<lparr>code = c, stock_name = n, open_price = p1, high_price = p2, low_price = p3,
              last_price = p4, buy_price = p5, buy_quantity = q1, sell_price = p6,
              sell_quantity = q2\<rparr>, fs)))))))))))"

lemma load_save_fields: "load_fields (save_fields s @ fs) = Some (s, fs)"
  by (simp add: save_fields_def load_fields_def)

fun load_stocks :: "nat \<Rightarrow> 'd field list \<Rightarrow> ('d stock list \<times> 'd field list) option" where
  "load_stocks 0 fs = Some ([], fs)"
| "load_stocks (Suc k) fs =
     Option.bind (load_fields fs) (\<lambda>(s, fs). map_option (apfst (Cons s)) (load_stocks k fs))"

lemma load_save_stocks:
  "load_stocks (length ss) (concat (map save_fields ss) @ fs) = Some (ss, fs)"
  by (induction ss) (simp_all add: load_save_fields)

section \<open>The server\<close>

definition initial_stocks :: "(int \<Rightarrow> nat \<Rightarrow> 'd) \<Rightarrow> 'd stock list" where
  "initial_stocks lit =
     [\<lparr>code = ''ABC'', stock_name = ''A Big Company'', open_price = lit 456 2, high_price = lit 512 2,
       low_price = lit 433 2, last_price = lit 498 2, buy_price = lit 496 2, buy_quantity = 1000,
       sell_price = lit 499 2, sell_quantity = 2000\<rparr>,
      \<lparr>code = ''DEF'', stock_name = ''Developer Entertainment Firm'', open_price = lit 2024 2,
       high_price = lit 2288 2, low_price = lit 1950 2, last_price = lit 1976 2,
       buy_price = lit 1972 2, buy_quantity = 34000, sell_price = lit 1985 2, sell_quantity = 45000\<rparr>]"

record 'd stock_server =
  stocks :: "'d stock list"
  waiting_accept :: bool
  served :: "unit s11n_connection list"
  server_log :: "wire_error list"

text \<open>A new connection; what its constructor leaves unset is an argument.\<close>

definition new_s11n_connection :: "string \<Rightarrow> 'a \<Rightarrow> 'a s11n_connection" where
  "new_s11n_connection junk t =
     \<lparr>outbound_header = [], outbound_data = [], inbound_header = take header_length (junk @ replicate 8 NUL),
      inbound_data = [], s11n_pending = No_Operation, target = t, reports = []\<rparr>"

definition new_stock_server :: "(int \<Rightarrow> nat \<Rightarrow> 'd) \<Rightarrow> 'd stock_server" where
  "new_stock_server lit =
     \<lparr>stocks = initial_stocks lit, waiting_accept = True, served = [], server_log = []\<rparr>"

definition server_accept ::
    "('d stock list \<Rightarrow> string) \<Rightarrow> wire_error option \<Rightarrow> string \<Rightarrow> 'd stock_server \<Rightarrow> 'd stock_server" where
  "server_accept save e junk s =
     (case e of
        None \<Rightarrow> s\<lparr>served := served s @ [async_write save (stocks s) (new_s11n_connection junk ())],
                  waiting_accept := True\<rparr>
      | Some err \<Rightarrow> s\<lparr>server_log := server_log s @ [err]\<rparr>)"

text \<open>The accepts of a run: the server waits for the next one until one fails.\<close>

fun server_accepts ::
    "('d stock list \<Rightarrow> string) \<Rightarrow> (wire_error option \<times> string) list \<Rightarrow> 'd stock_server \<Rightarrow> 'd stock_server" where
  "server_accepts save [] s = s"
| "server_accepts save ((e, junk) # as) s =
     (if waiting_accept s then server_accepts save as (server_accept save e junk (s\<lparr>waiting_accept := False\<rparr>))
      else s)"

section \<open>The client\<close>

text \<open>
  The end points are tried in order; \<open>connect\<close> tells what a connection attempt gives. When all
  fail the error of the last one is logged.
\<close>

fun handle_connect ::
    "('ep \<Rightarrow> wire_error option) \<Rightarrow> 'ep \<Rightarrow> 'ep list \<Rightarrow> wire_error + 'ep" where
  "handle_connect connect ep rest =
     (case connect ep of
        None \<Rightarrow> Inr ep
      | Some e \<Rightarrow> (case rest of [] \<Rightarrow> Inl e | ep' # rest' \<Rightarrow> handle_connect connect ep' rest'))"

definition stock_text :: "('d \<Rightarrow> string) \<Rightarrow> nat \<Rightarrow> 'd stock \<Rightarrow> string" where
  "stock_text show_d i s =
     ''Stock number '' @ dec_text i @ [LF] @
     ''  code: '' @ code s @ [LF] @
     ''  name: '' @ stock_name s @ [LF] @
     ''  open_price: '' @ show_d (open_price s) @ [LF] @
     ''  high_price: '' @ show_d (high_price s) @ [LF] @
     ''  low_price: '' @ show_d (low_price s) @ [LF] @
     ''  last_price: '' @ show_d (last_price s) @ [LF] @
     ''  buy_price: '' @ show_d (buy_price s) @ [LF] @
     ''  buy_quantity: '' @ int_text (buy_quantity s) @ [LF] @
     ''  sell_price: '' @ show_d (sell_price s) @ [LF] @
     ''  sell_quantity: '' @ int_text (sell_quantity s) @ [LF]"

fun stocks_text :: "('d \<Rightarrow> string) \<Rightarrow> nat \<Rightarrow> 'd stock list \<Rightarrow> string" where
  "stocks_text show_d i [] = []"
| "stocks_text show_d i (s # ss) = stock_text show_d i s @ stocks_text show_d (i + 1) ss"

text \<open>What the client writes to its output and to its error stream.\<close>

record client_output =
  printed :: string
  errors :: "wire_error list"

definition client_handle_read ::
    "('d \<Rightarrow> string) \<Rightarrow> wire_error option \<Rightarrow> 'd stock list \<Rightarrow> client_output \<Rightarrow> client_output" where
  "client_handle_read show_d e ss out =
     (case e of None \<Rightarrow> out\<lparr>printed := printed out @ stocks_text show_d 0 ss\<rparr>
      | Some err \<Rightarrow> out\<lparr>errors := errors out @ [err]\<rparr>)"

text \<open>
  The client from its constructor to its end: \<open>resolve\<close> is the list of end points, at least
  one, and \<open>stream\<close> the bytes that an end point sends.
\<close>

definition run_client ::
    "nat \<Rightarrow> ('d stock list \<Rightarrow> string \<Rightarrow> 'd stock list \<times> bool) \<Rightarrow> ('d \<Rightarrow> string) \<Rightarrow> string \<Rightarrow>
     ('ep \<Rightarrow> wire_error option) \<Rightarrow> ('ep \<Rightarrow> string) \<Rightarrow> 'ep \<Rightarrow> 'ep list \<Rightarrow> fault + client_output" where
  "run_client memory load show_d junk connect stream ep rest =
     (case handle_connect connect ep rest of
        Inl e \<Rightarrow> Inr \<lparr>printed = [], errors = [e]\<rparr>
      | Inr ep' \<Rightarrow>
          bind_res (read_message memory load (new_s11n_connection junk []) (stream ep')) (\<lambda>(c, left).
            Inr (client_handle_read show_d (last (reports c)) (target c) \<lparr>printed = [], errors = []\<rparr>)))"

section \<open>An archive\<close>

text \<open>
  A text archive for prices that are decimal numbers, so that the contract of an archive is
  met by something that saves and loads stocks: numbers in decimal, strings with their length.
\<close>

type_synonym decimal = "int \<times> nat"

definition put_nat :: "nat \<Rightarrow> string" where
  "put_nat n = dec_text n @ [CHR '' '']"

definition put_int :: "int \<Rightarrow> string" where
  "put_int i = (if i < 0 then CHR ''-'' else CHR ''+'') # put_nat (nat \<bar>i\<bar>)"

fun put_field :: "decimal field \<Rightarrow> string" where
  "put_field (F_String s) = CHR ''s'' # put_nat (length s) @ s"
| "put_field (F_Double d) = CHR ''d'' # put_int (fst d) @ put_nat (snd d)"
| "put_field (F_Int i) = CHR ''i'' # put_int i"

definition get_nat :: "string \<Rightarrow> (nat \<times> string) option" where
  "get_nat s =
     (let ds = takeWhile (base_digit 10) s in
      if ds = [] then None else Some (base_value 10 ds, drop (length ds + 1) s))"

fun get_int :: "string \<Rightarrow> (int \<times> string) option" where
  "get_int [] = None"
| "get_int (c # s) = map_option (apfst (\<lambda>n. if c = CHR ''-'' then - int n else int n)) (get_nat s)"

fun get_field :: "string \<Rightarrow> (decimal field \<times> string) option" where
  "get_field [] = None"
| "get_field (c # s) =
     (if c = CHR ''s'' then
        Option.bind (get_nat s) (\<lambda>(n, r). Some (F_String (take n r), drop n r))
      else if c = CHR ''d'' then
        Option.bind (get_int s) (\<lambda>(m, r). map_option (apfst (\<lambda>k. F_Double (m, k))) (get_nat r))
      else if c = CHR ''i'' then map_option (apfst F_Int) (get_int s)
      else None)"

fun get_fields :: "nat \<Rightarrow> string \<Rightarrow> decimal field list option" where
  "get_fields 0 s = Some []"
| "get_fields (Suc k) s =
     Option.bind (get_field s) (\<lambda>(f, r). map_option (Cons f) (get_fields k r))"

definition save_text :: "decimal stock list \<Rightarrow> string" where
  "save_text ss = put_nat (length ss) @ concat (map put_field (concat (map save_fields ss)))"

definition load_text :: "decimal stock list \<Rightarrow> string \<Rightarrow> decimal stock list \<times> bool" where
  "load_text t s =
     (case Option.bind (get_nat s) (\<lambda>(n, r).
             Option.bind (get_fields (10 * n) r) (load_stocks n)) of
        None \<Rightarrow> (t, False)
      | Some (ss, fs) \<Rightarrow> (ss, True))"

lemma get_put_nat [simp]: "get_nat (put_nat n @ r) = Some (n, r)"
proof -
  have "\<not> base_digit 10 (CHR '' '')" by (simp add: base_digit_def digit_of_def char_int_def)
  then have "takeWhile (base_digit 10) (put_nat n @ r) = dec_text n"
    using dec_text_digits [of n] by (simp add: put_nat_def takeWhile_tail takeWhile_append2 list_all_iff)
  then show ?thesis
    by (simp add: get_nat_def put_nat_def dec_text_def base_value_base_text)
qed

lemma get_put_int [simp]: "get_int (put_int i @ r) = Some (i, r)"
  by (simp add: put_int_def)

lemma get_put_field: "get_field (put_field f @ r) = Some (f, r)"
  by (cases f) simp_all

lemma get_put_fields: "get_fields (length fs) (concat (map put_field fs)) = Some fs"
  by (induction fs) (simp_all add: get_put_field)

lemma length_save_fields: "length (concat (map save_fields ss)) = 10 * length ss"
  by (induction ss) (simp_all add: save_fields_def)

interpretation text_archive: archive save_text load_text
proof
  show "load_text t (save_text x) = (x, True)" for t x
    using get_put_fields [of "concat (map save_fields x)"] load_save_stocks [of x "[]"]
    by (simp add: load_text_def save_text_def length_save_fields)
  show "save_text x \<noteq> []" for x by (simp add: save_text_def put_nat_def)
qed

section \<open>The properties\<close>

lemma accept_served:
  "stocks (server_accepts save as s) = stocks s \<and>
   (\<forall>c \<in> set (served (server_accepts save as s)).
      c \<in> set (served s) \<or> (\<exists>junk. c = async_write save (stocks s) (new_s11n_connection junk ())))"
proof (induction save as s rule: server_accepts.induct)
  case (2 save e junk as s)
  show ?case
  proof (cases "waiting_accept s")
    case True
    let ?s = "server_accept save e junk (s\<lparr>waiting_accept := False\<rparr>)"
    have "stocks ?s = stocks s"
      "\<forall>c \<in> set (served ?s). c \<in> set (served s) \<or>
         (\<exists>junk. c = async_write save (stocks s) (new_s11n_connection junk ()))"
      by (auto simp: server_accept_def split: option.splits)
    with 2 [OF True] True show ?thesis by simp blast
  qed simp
qed simp

lemma handle_connect_first:
  "handle_connect connect ep rest = Inr ep' \<Longrightarrow> connect ep' = None \<and> ep' \<in> set (ep # rest)"
  by (induction connect ep rest rule: handle_connect.induct) (auto split: option.splits list.splits)

text \<open>
The client connects to the first end point, in the resolver's order, that accepts, and
reports the error of the last one when none does.
\<close>

lemma connects_to_first:
  "handle_connect connect ep rest =
     (case find (\<lambda>e. connect e = None) (ep # rest) of
        Some ep' \<Rightarrow> Inr ep'
      | None \<Rightarrow> Inl (the (connect (last (ep # rest)))))"
  by (induction connect ep rest rule: handle_connect.induct) (auto split: option.splits list.splits)

text \<open>The text of the two stocks, line by line.\<close>

lemma printed_stocks:
  "stocks_text show_d 0 (initial_stocks lit) = concat (map (\<lambda>l. l @ [LF])
     [''Stock number 0'', ''  code: ABC'', ''  name: A Big Company'',
      ''  open_price: '' @ show_d (lit 456 2), ''  high_price: '' @ show_d (lit 512 2),
      ''  low_price: '' @ show_d (lit 433 2), ''  last_price: '' @ show_d (lit 498 2),
      ''  buy_price: '' @ show_d (lit 496 2), ''  buy_quantity: 1000'',
      ''  sell_price: '' @ show_d (lit 499 2), ''  sell_quantity: 2000'',
      ''Stock number 1'', ''  code: DEF'', ''  name: Developer Entertainment Firm'',
      ''  open_price: '' @ show_d (lit 2024 2), ''  high_price: '' @ show_d (lit 2288 2),
      ''  low_price: '' @ show_d (lit 1950 2), ''  last_price: '' @ show_d (lit 1976 2),
      ''  buy_price: '' @ show_d (lit 1972 2), ''  buy_quantity: 34000'',
      ''  sell_price: '' @ show_d (lit 1985 2), ''  sell_quantity: 45000''])"
proof -
  have numbers: "dec_text 0 = ''0''" "dec_text (0 + 1) = ''1''" "int_text 1000 = ''1000''" "int_text 2000 = ''2000''"
    "int_text 34000 = ''34000''" "int_text 45000 = ''45000''"
    by (simp_all add: int_text_def dec_text_def base_text.simps decimal_digits)
  have texts: "''Stock number '' @ ''0'' @ r = ''Stock number 0'' @ r" "''Stock number '' @ ''1'' @ r = ''Stock number 1'' @ r"
    "''  code: '' @ ''ABC'' @ r = ''  code: ABC'' @ r" "''  code: '' @ ''DEF'' @ r = ''  code: DEF'' @ r"
    "''  name: '' @ ''A Big Company'' @ r = ''  name: A Big Company'' @ r"
    "''  name: '' @ ''Developer Entertainment Firm'' @ r = ''  name: Developer Entertainment Firm'' @ r"
    "''  buy_quantity: '' @ ''1000'' @ r = ''  buy_quantity: 1000'' @ r" "''  buy_quantity: '' @ ''34000'' @ r = ''  buy_quantity: 34000'' @ r"
    "''  sell_quantity: '' @ ''2000'' @ r = ''  sell_quantity: 2000'' @ r"
    "''  sell_quantity: '' @ ''45000'' @ r = ''  sell_quantity: 45000'' @ r" for r
    by (simp_all only: append_Cons append_Nil)
  show ?thesis
    by (simp only: initial_stocks_def stocks_text.simps stock_text_def stock.select_convs numbers texts
        list.map concat.simps append_assoc append_Nil2)
qed

text \<open>
C27: the service end to end. A client that reaches an end point on which the server has accepted
it prints the two stocks of the server, in the 22 lines of the statement, and reports no error, for
every archive that loads what it saved.
\<close>

theorem client_prints_stocks:
  assumes "archive save load"
    and "length (save (initial_stocks lit)) < 2 ^ 32" "length (save (initial_stocks lit)) \<le> memory"
    and "handle_connect connect ep rest = Inr ep'"
    and served: "c \<in> set (served (server_accepts save as (new_stock_server lit)))"
      "s11n_pending c = Writing_Message (stream ep')"
  shows "run_client memory load show_d junk connect stream ep rest =
    Inr \<lparr>printed = concat (map (\<lambda>l. l @ [LF]) 
     [''Stock number 0'', ''  code: ABC'', ''  name: A Big Company'',
      ''  open_price: '' @ show_d (lit 456 2), ''  high_price: '' @ show_d (lit 512 2),
      ''  low_price: '' @ show_d (lit 433 2), ''  last_price: '' @ show_d (lit 498 2),
      ''  buy_price: '' @ show_d (lit 496 2), ''  buy_quantity: 1000'',
      ''  sell_price: '' @ show_d (lit 499 2), ''  sell_quantity: 2000'',
      ''Stock number 1'', ''  code: DEF'', ''  name: Developer Entertainment Firm'',
      ''  open_price: '' @ show_d (lit 2024 2), ''  high_price: '' @ show_d (lit 2288 2),
      ''  low_price: '' @ show_d (lit 1950 2), ''  last_price: '' @ show_d (lit 1976 2),
      ''  buy_price: '' @ show_d (lit 1972 2), ''  buy_quantity: 34000'',
      ''  sell_price: '' @ show_d (lit 1985 2), ''  sell_quantity: 45000'']), errors = []\<rparr>"
proof -
  let ?ss = "initial_stocks lit" and ?c = "new_s11n_connection junk [] :: 'a stock list s11n_connection"
  have "stream ep' = frame save ?ss"
    using served accept_served [of save as "new_stock_server lit"] assms(2)
    by (auto simp: new_stock_server_def async_write_cases)
  moreover have "length (inbound_header ?c) = 8"
    by (simp add: new_s11n_connection_def header_length_def)
  ultimately obtain c' where "read_message memory load ?c (stream ep') = Inr (c', [])" "target c' = ?ss"
    "reports c' = [None]"
    using archive.read_frame [OF assms(1-3), of ?c "[]"] by (auto simp: new_s11n_connection_def)
  with assms(4) show ?thesis by (simp add: run_client_def client_handle_read_def printed_stocks)
qed

theorem client_prints_stocks_witness:
  "run_client 1000 load_text (\<lambda>d. int_text (fst d)) [] (\<lambda>ep. if ep = (0 :: nat) then Some Network_Error else None)
     (\<lambda>ep. frame save_text (initial_stocks Pair)) 0 [1, 2] =
   Inr \<lparr>printed = concat (map (\<lambda>l. l @ [LF]) 
     [''Stock number 0'', ''  code: ABC'', ''  name: A Big Company'',
      ''  open_price: 456'', ''  high_price: 512'',
      ''  low_price: 433'', ''  last_price: 498'',
      ''  buy_price: 496'', ''  buy_quantity: 1000'',
      ''  sell_price: 499'', ''  sell_quantity: 2000'',
      ''Stock number 1'', ''  code: DEF'', ''  name: Developer Entertainment Firm'',
      ''  open_price: 2024'', ''  high_price: 2288'',
      ''  low_price: 1950'', ''  last_price: 1976'',
      ''  buy_price: 1972'', ''  buy_quantity: 34000'',
      ''  sell_price: 1985'', ''  sell_quantity: 45000'']), errors = []\<rparr>"
proof -
  have len: "length (save_text (initial_stocks Pair)) < 1000"
    by (simp add: save_text_def initial_stocks_def save_fields_def put_nat_def put_int_def dec_text_def
        base_text.simps)
  then have fits: "length (save_text (initial_stocks Pair)) < 2 ^ 32"
    "length (save_text (initial_stocks Pair)) \<le> 1000" by simp_all
  have connected: "handle_connect (\<lambda>ep. if ep = (0 :: nat) then Some Network_Error else None) 0 [1, 2] = Inr 1"
    by simp
  have served: "async_write save_text (initial_stocks Pair) (new_s11n_connection [] ()) \<in>
      set (served (server_accepts save_text [(None, [])] (new_stock_server Pair)))"
    by (simp add: new_stock_server_def server_accept_def)
  have written: "s11n_pending (async_write save_text (initial_stocks Pair) (new_s11n_connection [] ())) =
      Writing_Message (frame save_text (initial_stocks Pair))"
    using fits by (simp add: async_write_cases)
  have "int_text 456 = ''456''" "int_text 512 = ''512''" "int_text 433 = ''433''" "int_text 498 = ''498''"
    "int_text 496 = ''496''" "int_text 499 = ''499''" "int_text 2024 = ''2024''" "int_text 2288 = ''2288''"
    "int_text 1950 = ''1950''" "int_text 1976 = ''1976''" "int_text 1972 = ''1972''" "int_text 1985 = ''1985''"
    by (simp_all add: int_text_def dec_text_def base_text.simps decimal_digits)
  then show ?thesis
    using client_prints_stocks [where stream = "\<lambda>ep. frame save_text (initial_stocks Pair)"
        and show_d = "\<lambda>d. int_text (fst d)" and junk = "[]",
      OF text_archive.archive_axioms fits connected served written] by simp
qed

end
