(* ===== verification/Helpers.thy ===== *)
theory Helpers imports StdText
begin

text \<open>
  \<open>helpers/helper.cpp\<close> and \<open>helper.hpp\<close>: trimming and splitting of lines, the lines of a file,
  and small container utilities. The debug output of these functions is left out.
\<close>

section \<open>Trimming\<close>

definition whitespace :: string where
  "whitespace = [CHR '' '', CHR 0x0A, CHR 0x0D, CHR 0x09, CHR 0x0C, CHR 0x0B]"

definition is_ws :: "char \<Rightarrow> bool" where
  "is_ws c \<longleftrightarrow> c \<in> set whitespace"

definition ltrim :: "string \<Rightarrow> string" where
  "ltrim s = (case find_first (\<lambda>c. \<not> is_ws c) s of None \<Rightarrow> [] | Some start \<Rightarrow> drop start s)"

definition rtrim :: "string \<Rightarrow> string" where
  "rtrim s = (case find_last (\<lambda>c. \<not> is_ws c) s of None \<Rightarrow> [] | Some i \<Rightarrow> substr s 0 (i + 1))"

definition trim :: "string \<Rightarrow> string" where
  "trim s = rtrim (ltrim s)"

section \<open>Splitting a line\<close>

text \<open>A position that \<open>find\<close> returns lies between the start of the search and the end.\<close>

lemma find_from_range: "find_from s d pos = Some i \<Longrightarrow> pos \<le> i \<and> i \<le> pos + length s"
  by (induction s d pos rule: find_from.induct) (auto split: if_splits)

lemma str_find_range: "str_find s d pos = Some i \<Longrightarrow> pos \<le> i \<and> i \<le> length s"
  using find_from_range [of "drop pos s" d pos i] by (auto simp: str_find_def split: if_splits)

text \<open>
  The loop over the delimiters: \<open>pos\<close> is \<open>last + 1\<close>. It returns the tokens and the value of
  \<open>last + 1\<close> at its end. Whatever the length of the delimiter, one character is skipped.
\<close>

function split_loop :: "string \<Rightarrow> string \<Rightarrow> nat \<Rightarrow> string list \<times> nat" where
  "split_loop line delimiter pos =
     (case str_find line delimiter pos of
        Some found \<Rightarrow>
          (case split_loop line delimiter (found + 1) of (tokens, pos') \<Rightarrow>
             (substr line pos (found - pos) # tokens, pos'))
      | None \<Rightarrow> ([], pos))"
  by pat_completeness auto
termination
  by (relation "measure (\<lambda>(line, d, pos). length line + 1 - pos)") (auto dest: str_find_range)

declare split_loop.simps [simp del]

definition scan_tokens :: "string \<Rightarrow> string \<Rightarrow> string list" where
  "scan_tokens line delimiter =
     (case split_loop line delimiter 0 of (tokens, pos) \<Rightarrow>
        let len = int (length line) in
        if int pos < len - 1 then tokens @ [substr line pos (nat (len - 1))] else tokens)"

text \<open>The flag \<open>stripWS\<close> is not used.\<close>

definition split_CSV_line :: "string \<Rightarrow> string \<Rightarrow> bool \<Rightarrow> string list" where
  "split_CSV_line line delimiter strip_ws =
     filter (\<lambda>token. token \<noteq> []) (map trim (scan_tokens line delimiter))"

section \<open>The lines of a file\<close>

text \<open>
  \<open>getline\<close> takes the characters up to the next line feed, which it drops, and fails at the
  end of the file.
\<close>

function get_lines :: "string \<Rightarrow> string list" where
  "get_lines s =
     (if s = [] then []
      else takeWhile (\<lambda>c. c \<noteq> LF) s # get_lines (drop 1 (dropWhile (\<lambda>c. c \<noteq> LF) s)))"
  by pat_completeness auto
termination
proof (relation "measure length")
  show "(drop 1 (dropWhile (\<lambda>c. c \<noteq> LF) s), s) \<in> measure length" if "s \<noteq> []" for s
    using that length_dropWhile_le [of "\<lambda>c. c \<noteq> LF" s] by (cases s) auto
qed simp

declare get_lines.simps [simp del]

text \<open>
  \<open>stat_file\<close> tells which paths exist, \<open>fs\<close> the bytes of those that open for reading.
\<close>

definition file_exists :: "(string \<Rightarrow> bool) \<Rightarrow> string \<Rightarrow> bool" where
  "file_exists stat_file f_name = stat_file (c_str f_name)"

definition readlines :: "(string \<Rightarrow> bool) \<Rightarrow> (string \<Rightarrow> string option) \<Rightarrow> string \<Rightarrow> string list" where
  "readlines stat_file fs path =
     (if file_exists stat_file path
      then (case fs (c_str path) of None \<Rightarrow> [] | Some bytes \<Rightarrow> get_lines bytes)
      else [])"

section \<open>Containers\<close>

text \<open>The text of a vector, given that of an element.\<close>

fun elements_text :: "('a \<Rightarrow> string) \<Rightarrow> 'a list \<Rightarrow> string" where
  "elements_text show_a [] = []"
| "elements_text show_a (x # xs) = show_a x @ (if xs \<noteq> [] then '', '' else []) @ elements_text show_a xs"

definition vector_text :: "('a \<Rightarrow> string) \<Rightarrow> 'a list \<Rightarrow> string" where
  "vector_text show_a v = ''[ '' @ elements_text show_a v @ '' ]''"

text \<open>
  A \<open>std::set\<close> is the strictly ascending list of its elements; its search and its insertion
  compare along the list.
\<close>

fun set_find :: "'a :: linorder list \<Rightarrow> 'a \<Rightarrow> bool" where
  "set_find [] x = False"
| "set_find (y # ys) x = (if x = y then True else if x < y then False else set_find ys x)"

fun set_insert :: "'a :: linorder \<Rightarrow> 'a list \<Rightarrow> 'a list" where
  "set_insert x [] = [x]"
| "set_insert x (y # ys) = (if x = y then y # ys else if x < y then x # y # ys else y # set_insert x ys)"

definition container_has :: "'a :: linorder list \<Rightarrow> 'a \<Rightarrow> bool" where
  "container_has container x = set_find container x"

definition convert_set_to_vector :: "'a list \<Rightarrow> 'a list" where
  "convert_set_to_vector s = s"

definition clear_queue :: "'a list \<Rightarrow> 'a list" where
  "clear_queue q = (let empty = []; (q', empty') = (empty, q) in q')"

definition bad_boost_arr :: "'d \<Rightarrow> nat \<Rightarrow> 'd list" where
  "bad_boost_arr nan n = map (\<lambda>i. nan) [0..<n]"

record counter =
  count :: nat

definition new_counter :: counter where
  "new_counter = \<lparr>count = 0\<rparr>"

definition call_counter :: "counter \<Rightarrow> nat" where
  "call_counter c = count c"

section \<open>Facts: trimming\<close>

lemma find_first_drop:
  "(case find_first P s of None \<Rightarrow> [] | Some i \<Rightarrow> drop i s) = dropWhile (\<lambda>c. \<not> P c) s"
  by (induction s) (auto split: option.splits)

lemma find_last_None: "find_last P s = None \<longleftrightarrow> (\<forall>c \<in> set s. \<not> P c)"
  by (induction s) (auto split: option.splits)

lemma find_last_snoc: "find_last P (s @ [c]) = (if P c then Some (length s) else find_last P s)"
  by (induction s) (auto split: option.splits)

lemma ltrim_dropWhile: "ltrim s = dropWhile is_ws s"
  using find_first_drop [where P = "\<lambda>c. \<not> is_ws c" and s = s] by (simp add: ltrim_def)

lemma find_last_less: "find_last P s = Some i \<Longrightarrow> i < length s"
  by (induction s arbitrary: i) (auto split: option.splits if_splits)

lemma rtrim_dropWhile: "rtrim s = rev (dropWhile is_ws (rev s))"
proof (induction s rule: rev_induct)
  case (snoc c s)
  show ?case
  proof (cases "is_ws c")
    case True
    have "rtrim (s @ [c]) = rtrim s"
      using True find_last_less [of "\<lambda>c. \<not> is_ws c" s]
      by (auto simp: rtrim_def find_last_snoc substr_def split: option.split)
    with True snoc show ?thesis by simp
  next
    case False
    then show ?thesis by (simp add: rtrim_def find_last_snoc substr_def)
  qed
qed (simp add: rtrim_def)

lemma rev_dropWhile_prefix: "prefix (rev (dropWhile P (rev t))) t"
  by (metis rev_rev_ident suffix_dropWhile suffix_to_prefix)

lemma trim_sublist: "sublist (trim s) s"
proof -
  have "sublist (ltrim s) s" by (simp add: ltrim_dropWhile suffix_dropWhile)
  moreover have "prefix (rtrim t) t" for t
    by (simp add: rtrim_dropWhile rev_dropWhile_prefix)
  then have "sublist (trim s) (ltrim s)" by (simp add: trim_def prefix_imp_sublist)
  ultimately show ?thesis by (rule sublist_order.order.trans [rotated])
qed

lemma prefix_hd: "prefix a b \<Longrightarrow> a \<noteq> [] \<Longrightarrow> hd a = hd b \<and> b \<noteq> []"
  by (auto simp: prefix_def)

lemma trim_ends: "trim s \<noteq> [] \<Longrightarrow> \<not> is_ws (hd (trim s)) \<and> \<not> is_ws (last (trim s))"
proof -
  assume ne: "trim s \<noteq> []"
  let ?t = "dropWhile is_ws s" and ?r = "dropWhile is_ws (rev (dropWhile is_ws s))"
  have t: "trim s = rev ?r" by (simp add: trim_def ltrim_dropWhile rtrim_dropWhile)
  with ne have "?r \<noteq> []" by simp
  then have "\<not> is_ws (hd ?r)" by (simp add: hd_dropWhile)
  moreover have "prefix (rev ?r) ?t" by (rule rev_dropWhile_prefix)
  from prefix_hd [OF this] \<open>?r \<noteq> []\<close> have "hd (rev ?r) = hd ?t" "?t \<noteq> []" by auto
  ultimately show ?thesis using hd_dropWhile [of is_ws s] \<open>?r \<noteq> []\<close>
    by (simp add: t last_rev del: dropWhile_eq_Nil_conv)
qed

section \<open>Facts: splitting\<close>

text \<open>The fields of a line, between its delimiters.\<close>

fun split_on :: "char \<Rightarrow> string \<Rightarrow> string list" where
  "split_on c [] = [[]]"
| "split_on c (x # xs) =
     (if x = c then [] # split_on c xs
      else (case split_on c xs of [] \<Rightarrow> [[x]] | w # ws \<Rightarrow> (x # w) # ws))"

lemma split_on_not_Nil [simp]: "split_on c s \<noteq> []"
  by (induction s) (auto split: list.split)

lemma split_on_none: "c \<notin> set s \<Longrightarrow> split_on c s = [s]"
  by (induction s) auto

lemma split_on_some:
  "c \<in> set s \<Longrightarrow> split_on c s =
     takeWhile (\<lambda>x. x \<noteq> c) s # split_on c (drop (length (takeWhile (\<lambda>x. x \<noteq> c) s) + 1) s)"
  by (induction s) auto

lemma find_from_char:
  "find_from s [c] pos = (if c \<in> set s then Some (pos + length (takeWhile (\<lambda>x. x \<noteq> c) s)) else None)"
  by (induction s arbitrary: pos) auto

lemma takeWhile_other_less: "c \<in> set s \<Longrightarrow> length (takeWhile (\<lambda>x. x \<noteq> c) s) < length s"
  by (induction s) auto

lemma split_on_last_suffix: "suffix (last (split_on c s)) s"
proof (induction "length s" arbitrary: s rule: less_induct)
  case less
  show ?case
  proof (cases "c \<in> set s")
    case True
    let ?r = "drop (length (takeWhile (\<lambda>x. x \<noteq> c) s) + 1) s"
    have "length ?r < length s" using True by (cases s) auto
    from less [OF this] have "suffix (last (split_on c ?r)) s"
      using suffix_drop suffix_order.trans by blast
    then show ?thesis by (simp add: split_on_some [OF True])
  qed (simp add: split_on_none)
qed

lemma split_on_last_length: "length (last (split_on c s)) \<le> length s"
  by (rule suffix_length_le) (rule split_on_last_suffix)

lemma split_on_one: "length (split_on c s) = 1 \<Longrightarrow> split_on c s = [s]"
  by (cases "c \<in> set s") (simp_all add: split_on_none split_on_some)

lemma split_loop_fields:
  "pos \<le> length line \<Longrightarrow> split_loop line [c] pos =
     (butlast (split_on c (drop pos line)), length line - length (last (split_on c (drop pos line))))"
proof (induction "length line - pos" arbitrary: pos rule: less_induct)
  case less
  let ?s = "drop pos line" and ?n = "length (takeWhile (\<lambda>x. x \<noteq> c) (drop pos line))"
  show ?case
  proof (cases "c \<in> set ?s")
    case True
    then have "?n < length ?s" by (rule takeWhile_other_less)
    then have pos: "pos + ?n + 1 \<le> length line" by simp
    have "split_loop line [c] (pos + ?n + 1) =
        (butlast (split_on c (drop (pos + ?n + 1) line)),
         length line - length (last (split_on c (drop (pos + ?n + 1) line))))"
      using less.hyps [of "pos + ?n + 1"] pos by simp
    moreover have "take ?n ?s = takeWhile (\<lambda>x. x \<noteq> c) ?s" by (simp add: takeWhile_eq_take [symmetric])
    moreover have "drop (?n + 1) ?s = drop (pos + ?n + 1) line" by (simp add: add.commute)
    ultimately show ?thesis
      using less.prems True split_on_some [OF True]
      by (subst split_loop.simps) (simp add: str_find_def find_from_char substr_def)
  next
    case False
    with less.prems show ?thesis
      by (subst split_loop.simps) (simp add: str_find_def find_from_char split_on_none)
  qed
qed

text \<open>
  What the code makes of the fields: the last one is dropped when it has at most one
  character, and a line of one field loses its last character.
\<close>

definition kept_fields :: "string list \<Rightarrow> string list" where
  "kept_fields fs =
     (if length (last fs) \<le> 1 then butlast fs
      else if length fs = 1 then [butlast (hd fs)]
      else fs)"

lemma drop_to_suffix: "suffix x s \<Longrightarrow> drop (length s - length x) s = x"
  by (auto simp: suffix_def)

lemma scan_tokens_fields: "scan_tokens line [c] = kept_fields (split_on c line)"
proof -
  let ?fs = "split_on c line"
  let ?l = "last ?fs" and ?n = "length line"
  have loop: "split_loop line [c] 0 = (butlast ?fs, ?n - length ?l)"
    using split_loop_fields [of 0 line c] by simp
  have l: "length ?l \<le> ?n" "drop (?n - length ?l) line = ?l"
    by (rule split_on_last_length, rule drop_to_suffix, rule split_on_last_suffix)
  have "int (?n - length ?l) < int ?n - 1 \<longleftrightarrow> 1 < length ?l" using l(1) by auto
  then have scan: "scan_tokens line [c] =
      (if 1 < length ?l then butlast ?fs @ [take (?n - 1) ?l] else butlast ?fs)"
    using l by (simp add: scan_tokens_def loop substr_def nat_diff_distrib')
  show ?thesis
  proof (cases "length ?fs = 1")
    case True
    then have "?fs = [line]" by (rule split_on_one)
    then show ?thesis by (simp add: scan kept_fields_def butlast_conv_take)
  next
    case False
    then have "c \<in> set line" using split_on_none by fastforce
    then have "length ?l < ?n"
      using split_on_some [of c line] split_on_last_length [of c "drop (length (takeWhile (\<lambda>x. x \<noteq> c) line) + 1) line"]
        takeWhile_other_less [of c line] by simp
    then have "take (?n - 1) ?l = ?l" by simp
    with False show ?thesis by (simp add: scan kept_fields_def)
  qed
qed

text \<open>The shape of the tokens, for every delimiter.\<close>

lemma split_loop_tokens:
  "pos \<le> length line + 1 \<Longrightarrow> split_loop line d pos = (ts, q) \<Longrightarrow>
     length ts + pos \<le> q \<and> q \<le> length line + 1 \<and> (\<forall>t \<in> set ts. sublist t line)"
proof (induction line d pos arbitrary: ts q rule: split_loop.induct)
  case (1 line d pos)
  show ?case
  proof (cases "str_find line d pos")
    case None
    with 1 show ?thesis by (subst (asm) split_loop.simps) simp
  next
    case (Some i)
    obtain ts1 where ts: "ts = substr line pos (i - pos) # ts1" "split_loop line d (i + 1) = (ts1, q)"
      using 1(3) Some by (subst (asm) split_loop.simps) (auto split: prod.splits)
    have i: "pos \<le> i" "i \<le> length line" using str_find_range [OF Some] by simp_all
    have "sublist (substr line pos k) line" for k
      using sublist_order.order.trans [OF prefix_imp_sublist [OF take_is_prefix] suffix_imp_sublist [OF suffix_drop]]
      by (simp add: substr_def)
    with 1(1) [OF Some _ ts(2)] ts(1) i show ?thesis by auto
  qed
qed

section \<open>Facts: lines\<close>

lemma get_lines_Nil [simp]: "get_lines [] = []"
  by (subst get_lines.simps) simp

lemma line_parts:
  "LF \<notin> set l \<Longrightarrow> takeWhile (\<lambda>c. c \<noteq> LF) (l @ LF # s) = l \<and> dropWhile (\<lambda>c. c \<noteq> LF) (l @ LF # s) = LF # s"
  by (induction l) auto

lemma last_line_parts:
  "LF \<notin> set l \<Longrightarrow> takeWhile (\<lambda>c. c \<noteq> LF) l = l \<and> dropWhile (\<lambda>c. c \<noteq> LF) l = []"
  by (induction l) auto

lemma get_lines_line: "LF \<notin> set l \<Longrightarrow> get_lines (l @ LF # s) = l # get_lines s"
  by (subst get_lines.simps) (simp add: line_parts)

lemma get_lines_last: "LF \<notin> set l \<Longrightarrow> l \<noteq> [] \<Longrightarrow> get_lines l = [l]"
  by (subst get_lines.simps) (simp add: last_line_parts)

lemma get_lines_lines:
  "\<forall>l \<in> set ls. LF \<notin> set l \<Longrightarrow> get_lines (concat (map (\<lambda>l. l @ [LF]) ls) @ s) = ls @ get_lines s"
  by (induction ls) (simp_all add: get_lines_line)

lemma get_lines_plain: "l \<in> set (get_lines s) \<Longrightarrow> LF \<notin> set l"
proof (induction s rule: get_lines.induct)
  case (1 s)
  then show ?case
    by (subst (asm) (2) get_lines.simps) (auto split: if_splits dest: set_takeWhileD)
qed

section \<open>Facts: sets\<close>

lemma set_find_iff: "sorted_wrt (<) s \<Longrightarrow> set_find s x \<longleftrightarrow> x \<in> set s"
  by (induction s) auto

lemma set_set_insert: "set (set_insert x s) = insert x (set s)"
  by (induction s) auto

lemma sorted_set_insert: "sorted_wrt (<) s \<Longrightarrow> sorted_wrt (<) (set_insert x s)"
  by (induction s) (auto simp: set_set_insert)

lemma container_has_iff: "sorted_wrt (<) s \<Longrightarrow> container_has s x \<longleftrightarrow> x \<in> set s"
  by (simp add: container_has_def set_find_iff)

section \<open>The properties\<close>

lemma dropWhile_keeps: "s = [] \<or> \<not> P (hd s) \<Longrightarrow> dropWhile P s = s"
  by (cases s) auto

lemma trim_idem: "trim (trim s) = trim s"
proof (cases "trim s = []")
  case True
  moreover have "trim [] = []" by (simp add: trim_def ltrim_def rtrim_def)
  ultimately show ?thesis by simp
next
  case False
  with trim_ends [OF False] show ?thesis
    by (subst trim_def) (simp add: ltrim_dropWhile rtrim_dropWhile dropWhile_keeps hd_rev)
qed

text \<open>
Trimming removes the white space at both ends and nothing else, and doing it twice is
doing it once.
\<close>

lemma trim_spec:
  "trim s = rev (dropWhile is_ws (rev (dropWhile is_ws s))) \<and> trim (trim s) = trim s"
  by (intro conjI trim_idem) (simp only: trim_def ltrim_dropWhile rtrim_dropWhile)

text \<open>
C28: what \<open>split_CSV_line\<close> returns for a delimiter of one character: the trimmed fields between
the delimiters, without the empty ones, except that the last field is dropped when it has at
most one character, and that a line without a delimiter loses its last character. The flag
for white space makes no difference.
\<close>

theorem split_CSV_line_fields:
  "split_CSV_line line [c] strip_ws =
     filter (\<lambda>t. t \<noteq> []) (map trim (kept_fields (split_on c line)))"
  by (simp add: split_CSV_line_def scan_tokens_fields)

lemma scan_tokens_shape:
  "length (scan_tokens line d) \<le> length line + 1" "t \<in> set (scan_tokens line d) \<Longrightarrow> sublist t line"
proof -
  obtain ts q where loop: "split_loop line d 0 = (ts, q)" by (cases "split_loop line d 0")
  have ts: "length ts \<le> q" "q \<le> length line + 1" "\<forall>t \<in> set ts. sublist t line"
    using split_loop_tokens [OF _ loop] by auto
  then show "length (scan_tokens line d) \<le> length line + 1"
    by (auto simp: scan_tokens_def loop Let_def)
  have "sublist (substr line q k) line" for k
    using sublist_order.order.trans [OF prefix_imp_sublist [OF take_is_prefix] suffix_imp_sublist [OF suffix_drop]]
    by (simp add: substr_def)
  with ts(3) show "t \<in> set (scan_tokens line d) \<Longrightarrow> sublist t line"
    by (auto simp: scan_tokens_def loop Let_def split: if_splits)
qed

lemma token_shape:
  "list_all (\<lambda>t. t \<noteq> [] \<and> trim t = t \<and> sublist t line) (split_CSV_line line d ws)"
proof -
  have "sublist (trim t) line" if "t \<in> set (scan_tokens line d)" for t
    using scan_tokens_shape(2) [OF that] trim_sublist sublist_order.order.trans by blast
  then show ?thesis by (auto simp: split_CSV_line_def list_all_iff trim_idem)
qed

text \<open>
Whatever the delimiter, even the empty text, the loop of \<open>split_CSV_line\<close> ends, with at most
one token more than the line has characters, and each token is a part of the line, not
empty, and without white space at its ends.
\<close>

lemma split_CSV_line_tokens:
  "length (split_CSV_line line d ws) \<le> length line + 1 \<and>
   list_all (\<lambda>t. t \<noteq> [] \<and> trim t = t \<and> sublist t line) (split_CSV_line line d ws)"
proof -
  have "length (split_CSV_line line d ws) \<le> length (scan_tokens line d)"
    unfolding split_CSV_line_def by (metis length_filter_le length_map)
  with scan_tokens_shape(1) [of line d] token_shape show ?thesis by simp
qed

text \<open>
The lines of a file come back as they were written, each ended by a line feed; a last
line without one counts as a line when it is not empty.
\<close>

lemma readlines_written:
  assumes "stat_file path" "fs path = Some (concat (map (\<lambda>l. l @ [LF]) ls) @ l)"
    and "NUL \<notin> set path" "\<forall>l \<in> set ls. LF \<notin> set l" "LF \<notin> set l"
  shows "readlines stat_file fs path = ls @ (if l = [] then [] else [l])"
proof -
  have "c_str path = path" using assms(3) by (induction path) (auto simp: c_str_def)
  then show ?thesis
    using assms get_lines_last [of l] by (simp add: readlines_def file_exists_def get_lines_lines)
qed

section \<open>Lines that are split wrongly\<close>

lemma one_digit_dropped: "split_CSV_line ''topic,10,5,4'' '','' True = [''topic'', ''10'', ''5'']"
  by code_simp

lemma single_field_shortened: "split_CSV_line ''topic'' '','' True = [''topi'']"
  by code_simp

end
