(* ===== verification/ServiceBridge.thy ===== *)
theory ServiceBridge imports Helpers ServiceQueue "HOL-Library.List_Lexorder"
begin

text \<open>
  \<open>test/test01_server.cpp\<close>: the server that bridges ROS services, as far as it is written. It
  reads the services from a file, one line each, and plans its threads. What it prints is
  left out.
\<close>

section \<open>State\<close>

text \<open>
  The names are a \<open>std::set\<close>. A queue of a service has a number of threads in the model; it is
  the argument \<open>n\<close> below.
\<close>

record 'a bridge =
  service_names :: "string list"
  services :: "'a service_queue list"
  threads_per_topic :: nat
  total_threads :: nat
  num_services :: nat
  created_threads :: nat
  bridge_status :: status_code_type
  bridge_ip :: string
  bridge_port :: nat

text \<open>The members that the constructor leaves unset are arguments.\<close>

definition new_bridge :: "nat \<Rightarrow> nat \<Rightarrow> nat \<Rightarrow> nat \<Rightarrow> status_code_type \<Rightarrow> 'a bridge" where
  "new_bridge threads port unset1 unset2 unset3 =
     \<lparr>service_names = [], services = [], threads_per_topic = threads, total_threads = unset1,
      num_services = unset2, created_threads = 0, bridge_status = unset3, bridge_ip = [],
      bridge_port = port\<rparr>"

definition default_bridge :: "nat \<Rightarrow> nat \<Rightarrow> status_code_type \<Rightarrow> 'a bridge" where
  "default_bridge = new_bridge 2 8000"

section \<open>Reading the services\<close>

definition min_attrs :: nat where "min_attrs = 4"
definition min_lines :: nat where "min_lines = 1"

definition parse_line :: "nat \<Rightarrow> string \<Rightarrow> 'a bridge \<Rightarrow> stoull_error + 'a bridge" where
  "parse_line n line b =
     (let serv_spec = split_CSV_line line '','' True in
      if length serv_spec < min_attrs then Inr b
      else
        let topic_name = serv_spec ! 0 in
        bind_res (stoull (serv_spec ! 1)) (\<lambda>q_len.
        bind_res (stoull (serv_spec ! 2)) (\<lambda>req_len.
        bind_res (stoull (serv_spec ! 3)) (\<lambda>rsp_len.
          let max_len = max req_len rsp_len in
          if \<not> container_has (service_names b) topic_name then
            if max_len \<le> 32
            then Inr (b\<lparr>services := services b @ [new_service n topic_name q_len],
                        service_names := set_insert topic_name (service_names b)\<rparr>)
            else Inr b
          else Inr b))))"

fun parse_lines :: "nat \<Rightarrow> string list \<Rightarrow> 'a bridge \<Rightarrow> stoull_error + 'a bridge" where
  "parse_lines n [] b = Inr b"
| "parse_lines n (line # lines) b = bind_res (parse_line n line b) (parse_lines n lines)"

definition parse_service_file ::
    "(string \<Rightarrow> bool) \<Rightarrow> (string \<Rightarrow> string option) \<Rightarrow> nat \<Rightarrow> string \<Rightarrow> 'a bridge \<Rightarrow>
     stoull_error + (bool \<times> 'a bridge)" where
  "parse_service_file stat_file fs n full_path b =
     (let lines = readlines stat_file fs full_path in
      if length lines \<ge> min_lines
      then bind_res (parse_lines n lines b) (\<lambda>b'. Inr (True, b'))
      else Inr (False, b))"

text \<open>The constructor with a path reads the file at once; its result is not looked at.\<close>

definition file_bridge ::
    "(string \<Rightarrow> bool) \<Rightarrow> (string \<Rightarrow> string option) \<Rightarrow> nat \<Rightarrow> string \<Rightarrow> 'a bridge \<Rightarrow>
     stoull_error + 'a bridge" where
  "file_bridge stat_file fs n full_path b =
     bind_res (parse_service_file stat_file fs n full_path b) (\<lambda>(ok, b'). Inr b')"

definition how_many_services :: "'a bridge \<Rightarrow> nat" where
  "how_many_services b = length (services b)"

definition get_served_ROS_topic_names :: "'a bridge \<Rightarrow> string list" where
  "get_served_ROS_topic_names b = convert_set_to_vector (service_names b)"

section \<open>Planning the threads\<close>

text \<open>
  The numbers of \<open>init_server\<close>, as \<open>size_t\<close>; \<open>cpus\<close> is what \<open>hardware_concurrency()\<close> returns,
  an \<open>unsigned\<close>. The result is the threads for each topic and their total.
\<close>

definition thread_plan :: "nat \<Rightarrow> nat \<Rightarrow> nat \<Rightarrow> ub + (nat \<times> nat)" where
  "thread_plan cpus per_topic num =
     (let total = (per_topic * num) mod 2 ^ 64;
          cpu_lim = (cpus * 2) mod 2 ^ 32;
          total = (if cpu_lim > 0 then min cpu_lim total else total)
      in if num = 0 then Inl Division_By_Zero
         else let per = total div num;
                  per = (per + (if num > 1 then total mod num else 0)) mod 2 ^ 64
              in Inr (per, (per * num) mod 2 ^ 64))"

text \<open>
  \<open>local_ip\<close> is what \<open>get_local_ip_addr()\<close> returns. One thread is created for each number of an
  \<open>unsigned\<close> below the total; the loop does not end when there is no \<open>unsigned\<close> as large, and
  then the function returns nothing.
\<close>

definition init_server :: "nat \<Rightarrow> string \<Rightarrow> 'a bridge \<Rightarrow> ub + 'a bridge option" where
  "init_server cpus local_ip b =
     (let b = b\<lparr>bridge_ip := local_ip\<rparr>; num = length (service_names b) in
      bind_res (thread_plan cpus (threads_per_topic b) num) (\<lambda>(per, total).
        Inr (if total \<le> 2 ^ 32 - 1
             then Some (b\<lparr>num_services := num, threads_per_topic := per, total_threads := total,
                          created_threads := created_threads b + total\<rparr>)
             else None)))"

section \<open>Serving\<close>

text \<open>What is written of it: two loops without a body, and one that waits for a change of status.\<close>

definition accept_all :: "'a bridge \<Rightarrow> bool \<times> 'a bridge" where
  "accept_all b =
     (True, fold (\<lambda>i b. fold (\<lambda>j b. b) [0..<threads_per_topic b] b) [0..<num_services b] b)"

partial_function (option) spin :: "'a bridge \<Rightarrow> (bool \<times> 'a bridge) option" where
  "spin b = (if bridge_status b = RUNNING then spin b else Some (True, b))"

definition serve_loop :: "'a bridge \<Rightarrow> (bool \<times> 'a bridge) option" where
  "serve_loop b = spin (b\<lparr>bridge_status := RUNNING\<rparr>)"

text \<open>Nothing changes the status in the loop: it never returns.\<close>

lemma spin_result: "spin b = Some r \<Longrightarrow> bridge_status b \<noteq> RUNNING"
  by (rule spin.raw_induct [where P = "\<lambda>b r. bridge_status b \<noteq> RUNNING"]) (auto split: if_splits)

lemma serve_loop_never_returns: "serve_loop b = None"
  using spin_result [of "b\<lparr>bridge_status := RUNNING\<rparr>"] by (cases "serve_loop b") (auto simp: serve_loop_def)

lemma fold_nothing: "fold (\<lambda>j b. b) js c = c"
  by (induction js) simp_all

lemma accept_all_nothing: "accept_all b = (True, b)"
proof -
  have "fold (\<lambda>i b. fold (\<lambda>j b. b) [0..<threads_per_topic b] b) js c = c" for js and c :: "'a bridge"
    by (induction js) (simp_all add: fold_nothing)
  then show ?thesis by (simp add: accept_all_def)
qed

section \<open>What is read\<close>

text \<open>The attributes of a line: nothing when there are too few, or the exception.\<close>

type_synonym entry = "string \<times> nat \<times> nat \<times> nat"

definition line_entry :: "string \<Rightarrow> (stoull_error + entry) option" where
  "line_entry line =
     (let f = split_CSV_line line '','' True in
      if length f < 4 then None
      else Some (bind_res (stoull (f ! 1)) (\<lambda>q. bind_res (stoull (f ! 2)) (\<lambda>req.
             bind_res (stoull (f ! 3)) (\<lambda>rsp. Inr (f ! 0, q, req, rsp))))))"

text \<open>The first exception, if any, and the attributes of the other lines.\<close>

fun file_entries :: "string list \<Rightarrow> stoull_error + entry list" where
  "file_entries [] = Inr []"
| "file_entries (line # lines) =
     (case line_entry line of
        None \<Rightarrow> file_entries lines
      | Some r \<Rightarrow> bind_res r (\<lambda>e. bind_res (file_entries lines) (\<lambda>es. Inr (e # es))))"

definition small_entry :: "entry \<Rightarrow> bool" where
  "small_entry e = (case e of (name, q, req, rsp) \<Rightarrow> req \<le> 32 \<and> rsp \<le> 32)"

text \<open>The first entry of each name, among those whose name is not in a given set.\<close>

fun first_entries :: "string set \<Rightarrow> entry list \<Rightarrow> entry list" where
  "first_entries known [] = []"
| "first_entries known (e # es) =
     (if fst e \<in> known then first_entries known es
      else e # first_entries (insert (fst e) known) es)"

definition build_service :: "nat \<Rightarrow> entry \<Rightarrow> 'a service_queue" where
  "build_service n e = new_service n (fst e) (fst (snd e))"

definition bridge_inv :: "'a bridge \<Rightarrow> bool" where
  "bridge_inv b \<longleftrightarrow> sorted_wrt (<) (service_names b) \<and> distinct (map topic_name (services b)) \<and>
     set (map topic_name (services b)) = set (service_names b)"

lemma bridge_inv_new: "bridge_inv (new_bridge t p u v w)"
  by (simp add: bridge_inv_def new_bridge_def)

lemma parse_line_entry:
  assumes "sorted_wrt (<) (service_names b)"
  shows "parse_line n line b =
    (case line_entry line of
       None \<Rightarrow> Inr b
     | Some r \<Rightarrow> bind_res r (\<lambda>e.
         Inr (if fst e \<notin> set (service_names b) \<and> small_entry e
              then b\<lparr>services := services b @ [build_service n e],
                     service_names := set_insert (fst e) (service_names b)\<rparr>
              else b)))"
proof -
  let ?f = "split_CSV_line line '','' True"
  show ?thesis
    by (cases "stoull (?f ! 1)"; cases "stoull (?f ! 2)"; cases "stoull (?f ! 3)")
      (simp_all add: parse_line_def line_entry_def min_attrs_def container_has_iff [OF assms] Let_def
        small_entry_def build_service_def)
qed

lemma bridge_inv_add:
  assumes "bridge_inv b" "fst e \<notin> set (service_names b)"
  shows "bridge_inv (b\<lparr>services := services b @ [build_service n e],
     service_names := set_insert (fst e) (service_names b)\<rparr>)"
  using assms by (auto simp: bridge_inv_def set_set_insert sorted_set_insert build_service_def new_service_def)

lemma parse_lines_spec:
  "bridge_inv b \<Longrightarrow> 
   (case file_entries lines of
      Inl e \<Rightarrow> parse_lines n lines b = Inl e
    | Inr es \<Rightarrow> \<exists>b'. parse_lines n lines b = Inr b' \<and> bridge_inv b' \<and>
        services b' = services b @ map (build_service n)
          (first_entries (set (service_names b)) (filter small_entry es)))"
proof (induction lines arbitrary: b)
  case (Cons line lines)
  have sorted: "sorted_wrt (<) (service_names b)" using Cons.prems by (simp add: bridge_inv_def)
  note step = parse_line_entry [OF sorted, of n line]
  show ?case
  proof (cases "line_entry line")
    case None
    with Cons step show ?thesis by (auto split: sum.splits)
  next
    case (Some r)
    show ?thesis
    proof (cases r)
      case (Inl e)
      with Some step show ?thesis by simp
    next
      case (Inr e)
      show ?thesis
      proof (cases "fst e \<notin> set (service_names b) \<and> small_entry e")
        case True
        with Some Inr step Cons.IH [OF bridge_inv_add [OF Cons.prems, of e n]] show ?thesis
          by (auto simp: set_set_insert split: sum.splits)
      next
        case False
        with Some Inr step Cons.IH [OF Cons.prems] show ?thesis
          by (auto split: sum.splits)
      qed
    qed
  qed
qed simp

section \<open>The properties\<close>

text \<open>
C29: after the service file was read without an exception, the services are those of its lines
with four attributes or more whose lengths are at most 32, the first line for each name, in
the order of the file; their names are different, and the set of names is theirs, in order.
A line with an attribute that is no number ends the reading with the exception of the
conversion, whatever follows; a file without lines changes nothing.
\<close>

theorem service_file_read:
  assumes "b = new_bridge t p u v w"
  shows "if readlines stat_file fs path = [] then parse_service_file stat_file fs n path b = Inr (False, b)
    else case file_entries (readlines stat_file fs path) of
      Inl e \<Rightarrow> parse_service_file stat_file fs n path b = Inl e
    | Inr es \<Rightarrow> \<exists>b'. parse_service_file stat_file fs n path b = Inr (True, b') \<and>
        services b' = map (build_service n) (first_entries {} (filter small_entry es)) \<and>
        sorted_wrt (<) (service_names b') \<and> distinct (map topic_name (services b')) \<and>
        set (map topic_name (services b')) = set (service_names b')"
proof -
  have b: "bridge_inv b" "services b = []" "service_names b = []"
    using assms by (simp_all add: bridge_inv_new) (simp_all add: new_bridge_def)
  show ?thesis
    using parse_lines_spec [OF b(1), where lines = "readlines stat_file fs path" and n = n] b
    by (auto simp: bridge_inv_def parse_service_file_def min_lines_def Suc_le_eq split: sum.splits)
qed

text \<open>A file of the witness: a name twice, a length that is too large, too few attributes.\<close>

definition sample_lines :: "string list" where
  "sample_lines = [''/a,10,20,32'', ''/a,11,20,32'', ''/b,10,33,10'', ''x,yy'']"

lemma sample_entries:
  "file_entries sample_lines = Inr [(''/a'', 10, 20, 32), (''/a'', 11, 20, 32), (''/b'', 10, 33, 10)]"
proof -
  have "dec_text 10 = ''10''" "dec_text 11 = ''11''" "dec_text 20 = ''20''" "dec_text 32 = ''32''"
    "dec_text 33 = ''33''" by code_simp+
  then have numbers: "stoull ''10'' = Inr 10" "stoull ''11'' = Inr 11" "stoull ''20'' = Inr 20"
    "stoull ''32'' = Inr 32" "stoull ''33'' = Inr 33"
    using stoull_dec_text [of 10] stoull_dec_text [of 11] stoull_dec_text [of 20] stoull_dec_text [of 32]
      stoull_dec_text [of 33] by (simp_all add: size_max_def)
  have fields: "split_CSV_line ''/a,10,20,32'' '','' True = [''/a'', ''10'', ''20'', ''32'']"
    "split_CSV_line ''/a,11,20,32'' '','' True = [''/a'', ''11'', ''20'', ''32'']"
    "split_CSV_line ''/b,10,33,10'' '','' True = [''/b'', ''10'', ''33'', ''10'']"
    "split_CSV_line ''x,yy'' '','' True = [''x'', ''yy'']" by code_simp+
  show ?thesis by (simp add: sample_lines_def line_entry_def fields numbers)
qed

definition sample_file :: "string \<Rightarrow> string option" where
  "sample_file path = Some (concat (map (\<lambda>l. l @ [LF]) sample_lines))"

lemma sample_read: "readlines (\<lambda>path. True) sample_file ''test01.srv'' = sample_lines"
  by code_simp

theorem service_file_read_witness:
  "\<exists>b'. parse_service_file (\<lambda>path. True) sample_file 1 ''test01.srv''
       (new_bridge 2 8000 0 0 CLOSED :: nat bridge) = Inr (True, b') \<and>
     services b' = [new_service 1 ''/a'' 10]"
proof -
  have "sample_lines \<noteq> []" by (simp add: sample_lines_def)
  then show ?thesis
    using service_file_read [OF refl, where 'a = nat and stat_file = "\<lambda>path. True" and fs = sample_file
        and path = "''test01.srv''" and n = 1 and t = 2 and p = 8000 and u = 0 and v = 0 and w = CLOSED]
    by (auto simp: sample_read sample_entries small_entry_def build_service_def)
qed

lemma div_mod_twice: "0 < n \<Longrightarrow> (m div n + m mod n) * n = m + (n - 1) * (m mod n)" for m n :: nat
proof -
  assume "0 < n"
  then have "(q + r) * n = q * n + r + (n - 1) * r" for q r by (cases n) (simp_all add: algebra_simps)
  then show ?thesis by (metis div_mult_mod_eq)
qed

text \<open>The second half of the plan: the threads for each topic and their total.\<close>

definition spread_threads :: "nat \<Rightarrow> nat \<Rightarrow> nat \<times> nat" where
  "spread_threads amount num =
     (let per = (amount div num + (if num > 1 then amount mod num else 0)) mod 2 ^ 64
      in (per, (per * num) mod 2 ^ 64))"

lemma spread_exact:
  assumes "0 < num" "num < 2 ^ 16" "amount < 2 ^ 32"
  shows "spread_threads amount num =
    (amount div num + (if num = 1 then 0 else amount mod num), amount + (num - 1) * (amount mod num))"
proof -
  let ?p = "amount div num + (if num > 1 then amount mod num else 0)"
  have pn: "?p * num = amount + (num - 1) * (amount mod num)"
    using assms(1) div_mod_twice [of num amount] by (cases "num = 1") simp_all
  have "amount mod num < 2 ^ 16" using assms(1,2) mod_less_divisor [of num amount] by linarith
  then have "(num - 1) * (amount mod num) \<le> 2 ^ 16 * 2 ^ 16"
    using assms(2) by (intro mult_le_mono) linarith+
  with assms(3) have bound: "?p * num < 2 ^ 64" unfolding pn by simp
  moreover have "?p \<le> ?p * num" using assms(1) by (cases num) simp_all
  ultimately have "?p < 2 ^ 64" by (rule le_less_trans [rotated])
  then have "spread_threads amount num = (?p, ?p * num)"
    using bound by (simp only: spread_threads_def Let_def mod_less)
  with assms(1) pn show ?thesis by simp
qed

text \<open>
C30: the number of threads that the server creates for \<open>num\<close> topics. It is what was asked for,
unless that is more than twice the processors; then it is twice the processors and, for each
topic but one, the remainder of the division by the number of topics once more. So the limit
is kept only when the topics divide it. Without topics the division is by zero.
\<close>

theorem threads_planned:
  assumes "0 < cpus" "cpus < 2 ^ 31" "num < 2 ^ 16" "per_topic * num < 2 ^ 64"
  shows "thread_plan cpus per_topic num =
    (if num = 0 then Inl Division_By_Zero
     else if per_topic * num \<le> 2 * cpus then Inr (per_topic, per_topic * num)
     else let per = 2 * cpus div num + (if num = 1 then 0 else 2 * cpus mod num)
          in Inr (per, 2 * cpus + (num - 1) * (2 * cpus mod num)))"
proof (cases "num = 0")
  case False
  then have num: "0 < num" by simp
  have tot: "per_topic * num mod 2 ^ 64 = per_topic * num" using assms(4) by simp
  have lim: "(cpus * 2) mod 2 ^ 32 = 2 * cpus" using assms(2) by simp
  have plan: "thread_plan cpus per_topic num =
      Inr (spread_threads (min (2 * cpus) (per_topic * num)) num)"
    using num assms(1) unfolding thread_plan_def tot lim by (simp add: spread_threads_def Let_def)
  show ?thesis
  proof (cases "per_topic * num \<le> 2 * cpus")
    case True
    then have "per_topic * num < 2 ^ 32" using assms(2) by simp
    with True num plan spread_exact [of num "per_topic * num"] assms(3) show ?thesis
      by (simp add: min_absorb2)
  next
    case f: False
    then have "min (2 * cpus) (per_topic * num) = 2 * cpus" by simp
    with f num plan spread_exact [of num "2 * cpus"] assms(2,3) show ?thesis by (simp add: Let_def)
  qed
qed (simp add: thread_plan_def Let_def)

theorem threads_planned_witness: "thread_plan 4 2 20 = Inr (8, 160)"
proof -
  have "(0 :: nat) < 4" "(4 :: nat) < 2 ^ 31" "(20 :: nat) < 2 ^ 16" "(2 :: nat) * 20 < 2 ^ 64" by simp_all
  from threads_planned [OF this] show ?thesis by simp
qed

end
