(* ===== verification/HttpThreads.thy ===== *)
theory HttpThreads imports HttpServer "HOL-Library.Multiset"
begin

text \<open>
  \<open>server::run\<close> of \<open>full_server/server.cpp\<close>: the pool of threads that run the handlers. Here a
  handler is not one step: a completed operation posts its handler, a thread of the pool takes
  it when the strand of its connection is free, and runs it piece by piece on the shared
  connection, while other threads, the network and \<open>stop\<close> go on. The theory shows that this is
  no different from the interleaving of whole handlers of \<open>HttpServer\<close>; \<open>PoolProgress\<close> shows that
  the threads get on.
\<close>

section \<open>Completions and handlers\<close>

text \<open>A posted handler of a connection with its arguments.\<close>

datatype completion = Read_Done bool nat | Write_Done bool

text \<open>
  The part of an event that happens in the operation, before its handler runs: the data is in
  the buffer, and no operation is pending.
\<close>

fun io_completes :: "connection \<Rightarrow> event \<Rightarrow> (completion \<times> connection) option" where
  "io_completes c (Read_Some bytes) =
     (if pending c = Reading \<and> 0 < length bytes \<and> length bytes \<le> buffer_size
      then Some (Read_Done False (length bytes), receive bytes (c\<lparr>pending := No_Op\<rparr>)) else None)"
| "io_completes c Read_Fails =
     (if pending c = Reading then Some (Read_Done True 0, c\<lparr>pending := No_Op\<rparr>) else None)"
| "io_completes c (Bytes_Out k) = None"
| "io_completes c Write_Completes =
     (case pending c of
        Writing bufs n \<Rightarrow>
          (if n = length (gather (conn_reply c) bufs) then Some (Write_Done False, c\<lparr>pending := No_Op\<rparr>) else None)
      | _ \<Rightarrow> None)"
| "io_completes c Write_Fails =
     (case pending c of Writing bufs n \<Rightarrow> Some (Write_Done True, c\<lparr>pending := No_Op\<rparr>) | _ \<Rightarrow> None)"

text \<open>
  Where a thread is in a handler of a connection: at its start, after the parsing, before the
  write of the reply or the next read is started, and at its end.
\<close>

datatype handler_pc = Begins completion | Parsed tribool | Reply_Ready | Read_Again | Returning

fun handler_code ::
    "(nat \<Rightarrow> string) \<Rightarrow> handler \<Rightarrow> handler_pc \<Rightarrow> connection \<Rightarrow> ub + (handler_pc \<times> connection)" where
  "handler_code size_text handler (Begins (Read_Done e bytes_transferred)) c =
     (if \<not> e then
        bind_res (parse (parser c) (conn_request c) (take bytes_transferred (buffer_data c)))
          (\<lambda>(result, rest, st, req). Inr (Parsed result, c\<lparr>parser := st, conn_request := req\<rparr>))
      else Inr (Returning, c))"
| "handler_code size_text handler (Begins (Write_Done e)) c = Inr (Returning, handle_write e c)"
| "handler_code size_text handler (Parsed result) c =
     Inr (if result = TTrue then (Reply_Ready, c\<lparr>conn_reply := handler (conn_request c) (conn_reply c)\<rparr>)
          else if result = TFalse then (Reply_Ready, c\<lparr>conn_reply := stock_reply size_text bad_request\<rparr>)
          else (Read_Again, c))"
| "handler_code size_text handler Reply_Ready c = Inr (Returning, async_write_reply c)"
| "handler_code size_text handler Read_Again c = Inr (Returning, c\<lparr>pending := Reading\<rparr>)"
| "handler_code size_text handler Returning c = Inr (Returning, c)"

text \<open>What is left of a handler, in one piece.\<close>

fun handler_rest ::
    "(nat \<Rightarrow> string) \<Rightarrow> handler \<Rightarrow> handler_pc \<Rightarrow> connection \<Rightarrow> ub + connection" where
  "handler_rest size_text handler (Begins (Read_Done e n)) c = handle_read size_text handler e n c"
| "handler_rest size_text handler (Begins (Write_Done e)) c = Inr (handle_write e c)"
| "handler_rest size_text handler (Parsed result) c =
     Inr (if result = TTrue then async_write_reply (c\<lparr>conn_reply := handler (conn_request c) (conn_reply c)\<rparr>)
          else if result = TFalse then async_write_reply (c\<lparr>conn_reply := stock_reply size_text bad_request\<rparr>)
          else c\<lparr>pending := Reading\<rparr>)"
| "handler_rest size_text handler Reply_Ready c = Inr (async_write_reply c)"
| "handler_rest size_text handler Read_Again c = Inr (c\<lparr>pending := Reading\<rparr>)"
| "handler_rest size_text handler Returning c = Inr c"

lemma handler_rest_code:
  "handler_rest size_text handler pc c =
     bind_res (handler_code size_text handler pc c) (\<lambda>(pc', c'). handler_rest size_text handler pc' c')"
proof (cases pc)
  case (Begins d)
  show ?thesis
  proof (cases d)
    case (Read_Done e n)
    show ?thesis
      by (cases "parse (parser c) (conn_request c) (take n (buffer_data c))")
        (auto simp: Begins Read_Done handle_read_def Let_def)
  qed (simp add: Begins)
qed auto

lemma handler_code_pending:
  "handler_code size_text handler pc c = Inr (pc', c') \<Longrightarrow> pc' \<noteq> Returning \<Longrightarrow> pending c' = pending c"
  by (cases "(size_text, handler, pc, c)" rule: handler_code.cases) (auto split: if_splits)

text \<open>An event of \<open>HttpConnection\<close> is a completion and then the whole handler.\<close>

lemma on_event_completion:
  "io_completes c ev = Some (d, c') \<Longrightarrow>
     on_event size_text handler c ev = Some (handler_rest size_text handler (Begins d) c')"
  by (cases ev) (auto split: if_splits pending_op.splits)

lemma io_completes_pending: "io_completes c ev = Some (d, c') \<Longrightarrow> pending c \<noteq> No_Op \<and> pending c' = No_Op"
  by (cases ev) (auto simp: receive_def split: if_splits pending_op.splits)

lemma on_event_pending: "on_event size_text handler c ev = Some r \<Longrightarrow> pending c \<noteq> No_Op"
  by (cases ev) (auto split: if_splits pending_op.splits)

section \<open>The pool\<close>

text \<open>
  A thread of the pool: in \<open>run\<close>, in a handler of a connection, in \<open>handle_accept\<close> (at its
  start, before the new connection is replaced, before the next accept), or out of \<open>run\<close>. What
  a connection that will be made leaves unset is drawn when the handler begins.
\<close>

datatype thread_pc =
    In_Run | In_Handler nat handler_pc | Accept_Begins bool unset | Accept_Reset unset | Accept_Again | Left_Run

record pooled_server =
  the_io_server :: http_server
  posted_handlers :: "(nat \<times> completion) list"
  posted_accepts :: "bool list"
  crew :: "thread_pc list"

definition pooled_start :: "http_server \<Rightarrow> pooled_server" where
  "pooled_start b =
     \<lparr>the_io_server = run_server b, posted_handlers = [], posted_accepts = [],
      crew = replicate (thread_pool_size b) In_Run\<rparr>"

definition put_connection :: "nat \<Rightarrow> connection \<Rightarrow> pooled_server \<Rightarrow> pooled_server" where
  "put_connection i c s =
     s\<lparr>the_io_server := (the_io_server s)\<lparr>connections := (connections (the_io_server s))[i := c]\<rparr>\<rparr>"

definition move_thread :: "nat \<Rightarrow> thread_pc \<Rightarrow> pooled_server \<Rightarrow> pooled_server" where
  "move_thread t p s = s\<lparr>crew := (crew s)[t := p]\<rparr>"

fun in_handler_of :: "nat \<Rightarrow> thread_pc \<Rightarrow> bool" where
  "in_handler_of i (In_Handler j pc) = (j = i)"
| "in_handler_of i _ = False"

definition running :: "pooled_server \<Rightarrow> bool" where
  "running s \<longleftrightarrow> workers (the_io_server s) > 0 \<and> \<not> io_stopped (the_io_server s)"

text \<open>An \<open>io_service\<close> that waits for nothing and has nothing to do lets its threads go.\<close>

definition out_of_work :: "pooled_server \<Rightarrow> bool" where
  "out_of_work s \<longleftrightarrow> \<not> accepting (the_io_server s) \<and> posted_handlers s = [] \<and> posted_accepts s = [] \<and>
     list_all (\<lambda>c. pending c = No_Op) (connections (the_io_server s)) \<and>
     list_all (\<lambda>p. p \<in> {In_Run, Left_Run}) (crew s)"

definition accept_code :: "thread_pc \<Rightarrow> http_server \<Rightarrow> thread_pc \<times> http_server" where
  "accept_code p b =
     (case p of
        Accept_Begins e g \<Rightarrow>
          if \<not> e then (Accept_Reset g, start_next b)
          else (In_Run, b)
      | Accept_Reset g \<Rightarrow> (Accept_Again, reset_next g b)
      | Accept_Again \<Rightarrow> (In_Run, b\<lparr>accepting := True\<rparr>)
      | _ \<Rightarrow> (p, b))"

definition accept_pc :: "thread_pc \<Rightarrow> bool" where
  "accept_pc p \<longleftrightarrow> (case p of Accept_Begins e g \<Rightarrow> True | Accept_Reset g \<Rightarrow> True | Accept_Again \<Rightarrow> True | _ \<Rightarrow> False)"

text \<open>
  The steps. The strand of a connection lets its handlers start in the order in which they were
  posted, and only while no thread is in one of them.
\<close>

inductive pooled_step ::
    "(nat \<Rightarrow> string) \<Rightarrow> (string \<Rightarrow> string option) \<Rightarrow> pooled_server \<Rightarrow> ub + pooled_server \<Rightarrow> bool"
  for size_text :: "nat \<Rightarrow> string" and fs :: "string \<Rightarrow> string option" where
  operation_completes: "running s \<Longrightarrow> i < length (connections (the_io_server s)) \<Longrightarrow>
    io_completes (connections (the_io_server s) ! i) ev = Some (d, c) \<Longrightarrow>
    pooled_step size_text fs s (Inr ((put_connection i c s)\<lparr>posted_handlers := posted_handlers s @ [(i, d)]\<rparr>))"
| bytes_leave: "running s \<Longrightarrow> i < length (connections (the_io_server s)) \<Longrightarrow>
    on_event size_text (server_handler size_text fs (the_io_server s))
      (connections (the_io_server s) ! i) (Bytes_Out k) = Some (Inr c) \<Longrightarrow>
    pooled_step size_text fs s (Inr (put_connection i c s))"
| accept_completes: "running s \<Longrightarrow> accepting (the_io_server s) \<Longrightarrow>
    pooled_step size_text fs s
      (Inr (s\<lparr>the_io_server := (the_io_server s)\<lparr>accepting := False\<rparr>, posted_accepts := posted_accepts s @ [e]\<rparr>))"
| takes_handler: "running s \<Longrightarrow> t < length (crew s) \<Longrightarrow> crew s ! t = In_Run \<Longrightarrow>
    posted_handlers s = before @ (i, d) # after \<Longrightarrow> i \<notin> fst ` set before \<Longrightarrow>
    list_all (\<lambda>p. \<not> in_handler_of i p) (crew s) \<Longrightarrow>
    pooled_step size_text fs s
      (Inr (move_thread t (In_Handler i (Begins d)) (s\<lparr>posted_handlers := before @ after\<rparr>)))"
| takes_accept: "running s \<Longrightarrow> t < length (crew s) \<Longrightarrow> crew s ! t = In_Run \<Longrightarrow>
    posted_accepts s = e # es \<Longrightarrow>
    pooled_step size_text fs s (Inr (move_thread t (Accept_Begins e g) (s\<lparr>posted_accepts := es\<rparr>)))"
| handler_goes_on: "t < length (crew s) \<Longrightarrow> crew s ! t = In_Handler i pc \<Longrightarrow> pc \<noteq> Returning \<Longrightarrow>
    handler_code size_text (server_handler size_text fs (the_io_server s)) pc
      (connections (the_io_server s) ! i) = Inr (pc', c) \<Longrightarrow>
    pooled_step size_text fs s (Inr (move_thread t (In_Handler i pc') (put_connection i c s)))"
| handler_crashes: "t < length (crew s) \<Longrightarrow> crew s ! t = In_Handler i pc \<Longrightarrow>
    handler_code size_text (server_handler size_text fs (the_io_server s)) pc
      (connections (the_io_server s) ! i) = Inl u \<Longrightarrow>
    pooled_step size_text fs s (Inl u)"
| handler_returns: "t < length (crew s) \<Longrightarrow> crew s ! t = In_Handler i Returning \<Longrightarrow>
    pooled_step size_text fs s (Inr (move_thread t In_Run s))"
| accept_goes_on: "t < length (crew s) \<Longrightarrow> accept_pc (crew s ! t) \<Longrightarrow>
    accept_code (crew s ! t) (the_io_server s) = (p, b) \<Longrightarrow>
    pooled_step size_text fs s (Inr (move_thread t p (s\<lparr>the_io_server := b\<rparr>)))"
| thread_leaves: "t < length (crew s) \<Longrightarrow> crew s ! t = In_Run \<Longrightarrow>
    io_stopped (the_io_server s) \<or> out_of_work s \<Longrightarrow>
    pooled_step size_text fs s (Inr (move_thread t Left_Run s))"

text \<open>\<open>stop\<close> may be called at any moment, from any thread.\<close>

definition pooled_stop :: "pooled_server \<Rightarrow> pooled_server" where
  "pooled_stop s = s\<lparr>the_io_server := stop_server (the_io_server s)\<rparr>"

inductive crew_step ::
    "(nat \<Rightarrow> string) \<Rightarrow> (string \<Rightarrow> string option) \<Rightarrow> ub + pooled_server \<Rightarrow> ub + pooled_server \<Rightarrow> bool"
  for size_text :: "nat \<Rightarrow> string" and fs :: "string \<Rightarrow> string option" where
  crew_moves: "pooled_step size_text fs s r \<Longrightarrow> crew_step size_text fs (Inr s) r"
| crew_stops: "crew_step size_text fs (Inr s) (Inr (pooled_stop s))"

section \<open>Whole handlers\<close>

text \<open>The server of \<open>HttpServer\<close> as a step relation; undefined behaviour is a state without steps.\<close>

inductive whole_step ::
    "(nat \<Rightarrow> string) \<Rightarrow> (string \<Rightarrow> string option) \<Rightarrow> ub + http_server \<Rightarrow> ub + http_server \<Rightarrow> bool"
  for size_text :: "nat \<Rightarrow> string" and fs :: "string \<Rightarrow> string option" where
  whole_event: "on_server_event size_text fs a ev = Some r \<Longrightarrow> whole_step size_text fs (Inr a) r"

lemma on_server_events_snoc:
  "on_server_events size_text fs a evs = Some (Inr b) \<Longrightarrow> on_server_event size_text fs b ev = Some r \<Longrightarrow>
     on_server_events size_text fs a (evs @ [ev]) = Some r"
proof (induction evs arbitrary: a)
  case Nil
  then show ?case by (cases r) simp_all
next
  case (Cons e evs)
  then show ?case by (auto split: option.splits sum.splits if_splits)
qed

lemma whole_steps_events:
  "(whole_step size_text fs)\<^sup>*\<^sup>* (Inr a) r \<Longrightarrow> \<exists>evs. on_server_events size_text fs a evs = Some r"
proof (induction rule: rtranclp_induct)
  case base
  show ?case by (intro exI [of _ "[]"]) simp
next
  case (step r r')
  from step.hyps(2) obtain b ev where "r = Inr b" "on_server_event size_text fs b ev = Some r'"
    by (auto simp: whole_step.simps)
  with step.IH on_server_events_snoc show ?case by blast
qed

text \<open>
  What is under way for a connection: its posted handlers, and those that threads run and that
  have still to touch it.
\<close>

datatype work = Waits completion | Runs handler_pc

fun thread_work :: "nat \<Rightarrow> thread_pc \<Rightarrow> work multiset" where
  "thread_work i (In_Handler j pc) = (if j = i \<and> pc \<noteq> Returning then {#Runs pc#} else {#})"
| "thread_work i _ = {#}"

definition posted_work :: "nat \<Rightarrow> (nat \<times> completion) list \<Rightarrow> work multiset" where
  "posted_work i ps = mset (map (Waits \<circ> snd) (filter (\<lambda>p. fst p = i) ps))"

definition work_on :: "nat \<Rightarrow> pooled_server \<Rightarrow> work multiset" where
  "work_on i s = posted_work i (posted_handlers s) + sum_list (map (thread_work i) (crew s))"

text \<open>
  A connection \<open>c\<close> beside the one of the whole handlers: the same when nothing is under way;
  as it was before its completed operation when that waits for a thread; and as it will be
  after the rest of its handler when that is running.
\<close>

definition match_connection ::
    "(nat \<Rightarrow> string) \<Rightarrow> handler \<Rightarrow> work multiset \<Rightarrow> connection \<Rightarrow> connection \<Rightarrow> bool" where
  "match_connection size_text handler w c a \<longleftrightarrow>
     w = {#} \<and> c = a \<or>
     (\<exists>d ev. w = {#Waits d#} \<and> io_completes a ev = Some (d, c)) \<or>
     (\<exists>pc. w = {#Runs pc#} \<and> pending c = No_Op \<and> handler_rest size_text handler pc c = Inr a)"

text \<open>The same for the accepts: none under way, one waiting for a thread, one being handled.\<close>

fun accept_rest :: "thread_pc \<Rightarrow> http_server \<Rightarrow> http_server" where
  "accept_rest (Accept_Begins e g) b = handle_accept e g b"
| "accept_rest (Accept_Reset g) b = (reset_next g b)\<lparr>accepting := True\<rparr>"
| "accept_rest Accept_Again b = b\<lparr>accepting := True\<rparr>"
| "accept_rest p b = b"

fun accept_work :: "thread_pc \<Rightarrow> thread_pc multiset" where
  "accept_work p = (if accept_pc p then {#p#} else {#})"

definition accepts_on :: "pooled_server \<Rightarrow> thread_pc multiset" where
  "accepts_on s = sum_list (map accept_work (crew s))"

definition match_accepts :: "pooled_server \<Rightarrow> http_server \<Rightarrow> bool" where
  "match_accepts s b \<longleftrightarrow>
     posted_accepts s = [] \<and> accepts_on s = {#} \<and> b = the_io_server s \<or>
     (\<exists>e. posted_accepts s = [e] \<and> accepts_on s = {#} \<and> \<not> accepting (the_io_server s) \<and>
        b = (the_io_server s)\<lparr>accepting := True\<rparr>) \<or>
     (\<exists>p. posted_accepts s = [] \<and> accepts_on s = {#p#} \<and> \<not> accepting (the_io_server s) \<and>
        b = accept_rest p (the_io_server s))"

definition match_servers ::
    "(nat \<Rightarrow> string) \<Rightarrow> (string \<Rightarrow> string option) \<Rightarrow> pooled_server \<Rightarrow> http_server \<Rightarrow> bool" where
  "match_servers size_text fs s a \<longleftrightarrow> (\<exists>b. match_accepts s b \<and>
     a = b\<lparr>connections := connections a\<rparr> \<and> length (connections a) = length (connections b) \<and>
     (\<forall>i < length (connections b). match_connection size_text (server_handler size_text fs (the_io_server s))
        (work_on i s) (connections b ! i) (connections a ! i)) \<and>
     length (crew s) = workers (the_io_server s))"

text \<open>
  The accepts of the threads: one at a time. A connection object is started when it is before the
  one for the next client, or is that one while its accept is handled; until then there is no work on it.
\<close>

definition started :: "nat \<Rightarrow> pooled_server \<Rightarrow> bool" where
  "started i s \<longleftrightarrow> i < next_connection (the_io_server s) \<or>
     i = next_connection (the_io_server s) \<and> (\<exists>g. Accept_Reset g \<in># accepts_on s)"

definition accepts_well :: "pooled_server \<Rightarrow> bool" where
  "accepts_well s \<longleftrightarrow>
     length (connections (the_io_server s)) = Suc (next_connection (the_io_server s)) \<and>
     size (accepts_on s) + length (posted_accepts s) + (if accepting (the_io_server s) then 1 else 0) \<le> 1 \<and>
     (\<forall>i. \<not> started i s \<longrightarrow> work_on i s = {#}) \<and>
     (\<not> started (next_connection (the_io_server s)) s \<longrightarrow>
        pending (connections (the_io_server s) ! next_connection (the_io_server s)) = No_Op)"

text \<open>
  A handler that will run into undefined behaviour: the one step of \<open>HttpServer\<close> has it at
  once, the thread when it gets there.
\<close>

definition doomed :: "(nat \<Rightarrow> string) \<Rightarrow> (string \<Rightarrow> string option) \<Rightarrow> pooled_server \<Rightarrow> bool" where
  "doomed size_text fs s \<longleftrightarrow> (\<exists>i < length (connections (the_io_server s)). \<exists>pc u.
     work_on i s = {#Runs pc#} \<and> pending (connections (the_io_server s) ! i) = No_Op \<and>
     handler_rest size_text (server_handler size_text fs (the_io_server s)) pc
       (connections (the_io_server s) ! i) = Inl u)"

fun match_states ::
    "(nat \<Rightarrow> string) \<Rightarrow> (string \<Rightarrow> string option) \<Rightarrow> ub + pooled_server \<Rightarrow> ub + http_server \<Rightarrow> bool" where
  "match_states size_text fs (Inr s) (Inr a) = (accepts_well s \<and> match_servers size_text fs s a)"
| "match_states size_text fs (Inr s) (Inl u) = (accepts_well s \<and> doomed size_text fs s)"
| "match_states size_text fs (Inl u) x = isl x"

text \<open>How the work changes when a thread moves, or a handler is posted.\<close>

lemma work_move:
  assumes "t < length (crew s)"
  shows "work_on i (move_thread t p s) + thread_work i (crew s ! t) = work_on i s + thread_work i p"
  using sum_update [OF assms, of "thread_work i" p] by (simp add: work_on_def move_thread_def ac_simps)

lemma accepts_move:
  assumes "t < length (crew s)"
  shows "accepts_on (move_thread t p s) + accept_work (crew s ! t) = accepts_on s + accept_work p"
  using sum_update [OF assms, of accept_work p]
  by (simp add: accepts_on_def move_thread_def ac_simps del: accept_work.simps)

lemma posted_work_append: "posted_work i (ps @ qs) = posted_work i ps + posted_work i qs"
  by (simp add: posted_work_def)

lemma posted_work_Cons: "posted_work i ((j, d) # ps) = (if j = i then add_mset (Waits d) (posted_work i ps) else posted_work i ps)"
  by (simp add: posted_work_def)

lemma match_start:
  "accepts_well (pooled_start (new_server root n g)) \<and>
     match_servers size_text fs (pooled_start (new_server root n g)) (run_server (new_server root n g))"
proof -
  have "sum_list (map f (replicate n In_Run)) = {#}" if "f In_Run = {#}" for f :: "thread_pc \<Rightarrow> 'x multiset"
    using that by (induction n) simp_all
  then show ?thesis
    by (simp add: match_servers_def match_accepts_def match_connection_def accepts_well_def accepts_on_def work_on_def
        posted_work_def pooled_start_def run_server_def new_server_def accept_pc_def del: fresh_connection.simps)
qed

section \<open>The simulation\<close>

lemma accept_rest_frame:
  "workers (accept_rest p b) = workers b" "io_stopped (accept_rest p b) = io_stopped b"
  "doc_root (accept_rest p b) = doc_root b"
  by (cases p; simp add: handle_accept_def)+

lemma match_accepts_frame:
  assumes "match_accepts s b"
  shows "workers b = workers (the_io_server s)" "io_stopped b = io_stopped (the_io_server s)"
    "doc_root b = doc_root (the_io_server s)"
  using assms by (auto simp: match_accepts_def accept_rest_frame)

lemma accept_rest_length: "length (connections b) \<le> length (connections (accept_rest p b))"
  by (cases p) (auto simp: handle_accept_def start_next_def reset_next_def)

text \<open>A thread that handles an accept is the only one.\<close>

lemma accept_alone:
  assumes "accepts_well s" "t < length (crew s)" "accept_pc (crew s ! t)"
  shows "accepts_on s = {#crew s ! t#}" "posted_accepts s = []" "\<not> accepting (the_io_server s)"
proof -
  have "accepts_on s = add_mset (crew s ! t) (accepts_on (move_thread t In_Run s))"
    using accepts_move [OF assms(2), of In_Run] assms(3) by (simp add: accept_pc_def)
  then show "accepts_on s = {#crew s ! t#}" "posted_accepts s = []" "\<not> accepting (the_io_server s)"
    using assms(1) by (auto simp: accepts_well_def split: if_splits)
qed

text \<open>A connection with something to do is started, and the accepts leave it as it is.\<close>

lemma busy_started:
  assumes well: "accepts_well s"
    and busy: "work_on i s \<noteq> {#} \<or> i < length (connections (the_io_server s)) \<and> pending (connections (the_io_server s) ! i) \<noteq> No_Op"
  shows "started i s" "i < length (connections (the_io_server s))"
proof -
  from well have len: "length (connections (the_io_server s)) = Suc (next_connection (the_io_server s))"
    and free: "\<And>j. \<not> started j s \<Longrightarrow> work_on j s = {#}"
    and idle: "\<not> started (next_connection (the_io_server s)) s \<Longrightarrow>
      pending (connections (the_io_server s) ! next_connection (the_io_server s)) = No_Op"
    by (simp_all add: accepts_well_def)
  have "i < next_connection (the_io_server s) \<Longrightarrow> started i s" by (simp add: started_def)
  with busy free [of i] idle show "started i s"
    unfolding len less_Suc_eq by (cases "work_on i s = {#}") auto
  then show "i < length (connections (the_io_server s))" by (auto simp: len started_def)
qed

lemma accept_rest_nth:
  assumes "i < length (connections b)" "i \<noteq> next_connection b \<or> (\<forall>g. p \<noteq> Accept_Begins False g)"
  shows "connections (accept_rest p b) ! i = connections b ! i"
  using assms by (cases p) (auto simp: handle_accept_def start_next_def reset_next_def nth_append)

lemma started_no_begin:
  assumes "accepts_well s" "started i s" "accepts_on s = {#p#}"
  shows "i \<noteq> next_connection (the_io_server s) \<or> (\<forall>g. p \<noteq> Accept_Begins False g)"
  using assms by (auto simp: started_def)

lemma match_accepts_nth:
  assumes "match_accepts s b" "accepts_well s" "started i s"
  shows "connections b ! i = connections (the_io_server s) ! i" "i < length (connections b)"
proof -
  have i: "i < length (connections (the_io_server s))" using assms(2,3) by (auto simp: accepts_well_def started_def)
  from assms(1) i accept_rest_length show "i < length (connections b)"
    by (auto simp: match_accepts_def intro: less_le_trans)
  from assms(1) show "connections b ! i = connections (the_io_server s) ! i"
    using accept_rest_nth [OF i] started_no_begin [OF assms(2,3)] by (auto simp: match_accepts_def)
qed

lemma accept_rest_put:
  assumes "i < length (connections b)" "i \<noteq> next_connection b \<or> (\<forall>g. p \<noteq> Accept_Begins False g)"
  shows "accept_rest p (b\<lparr>connections := (connections b)[i := c]\<rparr>) =
    (accept_rest p b)\<lparr>connections := (connections (accept_rest p b))[i := c]\<rparr>"
  using assms
  by (cases p) (auto simp: handle_accept_def start_next_def reset_next_def list_update_append1 list_update_swap)

lemma match_accepts_put:
  assumes "match_accepts s b" "accepts_well s" "started i s"
    and "the_io_server s' = (the_io_server s)\<lparr>connections := (connections (the_io_server s))[i := c]\<rparr>"
    and "posted_accepts s' = posted_accepts s" "accepts_on s' = accepts_on s"
  shows "match_accepts s' (b\<lparr>connections := (connections b)[i := c]\<rparr>)"
proof -
  have "i < length (connections (the_io_server s))" using assms(2,3) by (auto simp: accepts_well_def started_def)
  with assms started_no_begin [OF assms(2,3)] show ?thesis by (auto simp: match_accepts_def accept_rest_put)
qed

text \<open>What a match says of one connection, and how one connection is changed on both sides.\<close>

lemma match_servers_nth:
  assumes "match_servers size_text fs s a" "accepts_well s" "started i s"
  shows "match_connection size_text (server_handler size_text fs (the_io_server s)) (work_on i s)
      (connections (the_io_server s) ! i) (connections a ! i) \<and> i < length (connections a)"
proof -
  from assms(1) obtain b where b: "match_accepts s b" "length (connections a) = length (connections b)"
    "\<forall>i < length (connections b). match_connection size_text (server_handler size_text fs (the_io_server s))
        (work_on i s) (connections b ! i) (connections a ! i)" unfolding match_servers_def by blast
  from match_accepts_nth [OF b(1) assms(2,3)] b(2,3) show ?thesis by metis
qed

lemma match_servers_frame:
  assumes "match_servers size_text fs s a"
  shows "workers a = workers (the_io_server s)" "io_stopped a = io_stopped (the_io_server s)"
    "server_handler size_text fs a = server_handler size_text fs (the_io_server s)"
proof -
  from assms obtain b where b: "match_accepts s b" "a = b\<lparr>connections := connections a\<rparr>"
    unfolding match_servers_def by blast
  have "workers a = workers b \<and> io_stopped a = io_stopped b \<and> doc_root a = doc_root b"
    by (subst b(2), subst b(2), subst b(2)) simp
  with match_accepts_frame [OF b(1)]
  show "workers a = workers (the_io_server s)" "io_stopped a = io_stopped (the_io_server s)"
    "server_handler size_text fs a = server_handler size_text fs (the_io_server s)"
    by (simp_all add: server_handler_def)
qed

lemma match_servers_put:
  assumes m: "match_servers size_text fs s a" and well: "accepts_well s" and i: "started i s"
    and s': "the_io_server s' = (the_io_server s)\<lparr>connections := (connections (the_io_server s))[i := c]\<rparr>"
    and acc: "posted_accepts s' = posted_accepts s" "accepts_on s' = accepts_on s"
    and crew: "length (crew s') = length (crew s)"
    and others: "\<And>j. j \<noteq> i \<Longrightarrow> work_on j s' = work_on j s"
    and mine: "match_connection size_text (server_handler size_text fs (the_io_server s)) (work_on i s') c x"
  shows "match_servers size_text fs s' (a\<lparr>connections := (connections a)[i := x]\<rparr>)"
proof -
  from m obtain b where b: "match_accepts s b" "a = b\<lparr>connections := connections a\<rparr>"
    "length (connections a) = length (connections b)"
    "\<forall>i < length (connections b). match_connection size_text (server_handler size_text fs (the_io_server s))
        (work_on i s) (connections b ! i) (connections a ! i)"
    "length (crew s) = workers (the_io_server s)" unfolding match_servers_def by blast
  have h: "server_handler size_text fs (the_io_server s') = server_handler size_text fs (the_io_server s)"
    by (simp add: s' server_handler_def)
  have eq: "a\<lparr>connections := (connections a)[i := x]\<rparr> =
      b\<lparr>connections := (connections b)[i := c], connections := (connections a)[i := x]\<rparr>"
    by (subst b(2)) simp
  show ?thesis
    unfolding match_servers_def h
  proof (intro exI [of _ "b\<lparr>connections := (connections b)[i := c]\<rparr>"] conjI allI impI)
    show "match_accepts s' (b\<lparr>connections := (connections b)[i := c]\<rparr>)"
      by (rule match_accepts_put [OF b(1) well i s' acc])
  next
    fix j assume "j < length (connections (b\<lparr>connections := (connections b)[i := c]\<rparr>))"
    with b(3,4) others mine show "match_connection size_text (server_handler size_text fs (the_io_server s))
        (work_on j s') (connections (b\<lparr>connections := (connections b)[i := c]\<rparr>) ! j)
        (connections (a\<lparr>connections := (connections a)[i := x]\<rparr>) ! j)"
      by (cases "j = i") simp_all
  qed (use b crew eq in \<open>simp_all add: s'\<close>)
qed

text \<open>The match of a connection when one more handler is known to be under way, or none.\<close>

lemma match_pending:
  "match_connection size_text handler w c a \<Longrightarrow> pending c \<noteq> No_Op \<Longrightarrow> w = {#} \<and> c = a"
  unfolding match_connection_def using io_completes_pending by blast

lemma match_waits:
  "match_connection size_text handler (add_mset (Waits d) w) c a \<Longrightarrow>
     w = {#} \<and> (\<exists>ev. io_completes a ev = Some (d, c))"
  unfolding match_connection_def by auto

lemma match_runs:
  "match_connection size_text handler (add_mset (Runs pc) w) c a \<Longrightarrow>
     w = {#} \<and> pending c = No_Op \<and> handler_rest size_text handler pc c = Inr a"
  unfolding match_connection_def by auto

text \<open>The steps that concern one connection.\<close>

lemma crew_frame [simp]:
  "the_io_server (move_thread t p s) = the_io_server s" "posted_handlers (move_thread t p s) = posted_handlers s"
  "posted_accepts (move_thread t p s) = posted_accepts s" "length (crew (move_thread t p s)) = length (crew s)"
  "crew (put_connection i c s) = crew s" "posted_handlers (put_connection i c s) = posted_handlers s"
  "posted_accepts (put_connection i c s) = posted_accepts s"
  "the_io_server (put_connection i c s) =
     (the_io_server s)\<lparr>connections := (connections (the_io_server s))[i := c]\<rparr>"
  by (simp_all add: move_thread_def put_connection_def)

lemma work_frame [simp]:
  "work_on j (put_connection i c s) = work_on j s" "accepts_on (put_connection i c s) = accepts_on s"
  "work_on j (s\<lparr>the_io_server := b\<rparr>) = work_on j s" "accepts_on (s\<lparr>the_io_server := b\<rparr>) = accepts_on s"
  "work_on j (s\<lparr>posted_accepts := as\<rparr>) = work_on j s" "accepts_on (s\<lparr>posted_accepts := as\<rparr>) = accepts_on s"
  "accepts_on (s\<lparr>posted_handlers := ps\<rparr>) = accepts_on s"
  by (simp_all add: work_on_def accepts_on_def put_connection_def)

text \<open>Moves of a thread among its handlers leave the accepts alone.\<close>

lemma accepts_same:
  "t < length (crew s) \<Longrightarrow> \<not> accept_pc (crew s ! t) \<Longrightarrow> \<not> accept_pc p \<Longrightarrow> accepts_on (move_thread t p s) = accepts_on s"
  using accepts_move [of t s p] by simp

lemma not_accept_pc [simp]: "\<not> accept_pc In_Run" "\<not> accept_pc (In_Handler i pc)" "\<not> accept_pc Left_Run"
  by (simp_all add: accept_pc_def)

lemma sim_operation_completes:
  assumes m: "match_servers size_text fs s a" and well: "accepts_well s" and i: "i < length (connections (the_io_server s))"
    and io: "io_completes (connections (the_io_server s) ! i) ev = Some (d, c)"
  shows "match_servers size_text fs ((put_connection i c s)\<lparr>posted_handlers := posted_handlers s @ [(i, d)]\<rparr>) a"
    (is "match_servers size_text fs ?s a")
proof -
  have go: "started i s" using busy_started [OF well] i io_completes_pending [OF io] by blast
  from match_servers_nth [OF m well go] io_completes_pending [OF io] have
    w: "work_on i s = {#}" and eq: "connections (the_io_server s) ! i = connections a ! i"
    using match_pending by blast+
  have work: "work_on j ?s = work_on j s + (if j = i then {#Waits d#} else {#})" for j
    by (simp add: work_on_def posted_work_append posted_work_Cons posted_work_def put_connection_def)
  have "match_servers size_text fs ?s (a\<lparr>connections := (connections a)[i := connections a ! i]\<rparr>)"
    by (rule match_servers_put [OF m well go, where c = c])
      (use io in \<open>auto simp: work w match_connection_def eq\<close>)
  then show ?thesis by simp
qed

lemma whole_connection_event:
  assumes "match_servers size_text fs s a" "accepts_well s" "running s" "started i s"
    and "on_event size_text (server_handler size_text fs (the_io_server s)) (connections a ! i) ev = Some r"
  shows "whole_step size_text fs (Inr a)
    (bind_res r (\<lambda>c. Inr (a\<lparr>connections := (connections a)[i := c]\<rparr>)))"
proof -
  have "on_server_event size_text fs a (On_Connection i ev) =
      Some (bind_res r (\<lambda>c. Inr (a\<lparr>connections := (connections a)[i := c]\<rparr>)))"
    using assms match_servers_frame [OF assms(1)] match_servers_nth [OF assms(1,2,4)]
    by (cases r) (auto simp: running_def)
  then show ?thesis by (rule whole_event)
qed

lemma sim_bytes_leave:
  assumes m: "match_servers size_text fs s a" and well: "accepts_well s" and r: "running s"
    and i: "i < length (connections (the_io_server s))"
    and io: "on_event size_text (server_handler size_text fs (the_io_server s))
      (connections (the_io_server s) ! i) (Bytes_Out k) = Some (Inr c)"
  shows "\<exists>a'. whole_step size_text fs (Inr a) (Inr a') \<and> match_servers size_text fs (put_connection i c s) a'"
proof -
  have go: "started i s" using busy_started [OF well] i on_event_pending [OF io] by blast
  from match_servers_nth [OF m well go] on_event_pending [OF io] have
    w: "work_on i s = {#}" and eq: "connections (the_io_server s) ! i = connections a ! i"
    using match_pending by blast+
  from whole_connection_event [OF m well r go io [unfolded eq]]
  have "whole_step size_text fs (Inr a) (Inr (a\<lparr>connections := (connections a)[i := c]\<rparr>))" by simp
  moreover have "match_servers size_text fs (put_connection i c s) (a\<lparr>connections := (connections a)[i := c]\<rparr>)"
    by (rule match_servers_put [OF m well go, where c = c]) (simp_all add: w match_connection_def)
  ultimately show ?thesis by blast
qed

lemma sim_takes_handler:
  assumes m: "match_servers size_text fs s a" and well: "accepts_well s" and r: "running s"
    and t: "t < length (crew s)" "crew s ! t = In_Run" and ps: "posted_handlers s = before @ (i, d) # after"
  shows "\<exists>x. whole_step size_text fs (Inr a) x \<and>
    (case x of Inr a' \<Rightarrow> match_servers size_text fs (move_thread t (In_Handler i (Begins d)) (s\<lparr>posted_handlers := before @ after\<rparr>)) a'
     | Inl u \<Rightarrow> doomed size_text fs (move_thread t (In_Handler i (Begins d)) (s\<lparr>posted_handlers := before @ after\<rparr>)))"
    (is "\<exists>x. _ \<and> (case x of Inr a' \<Rightarrow> match_servers size_text fs ?s a' | Inl u \<Rightarrow> _)")
proof -
  let ?h = "server_handler size_text fs (the_io_server s)" and ?c = "connections (the_io_server s) ! i"
  have posted: "work_on j (s\<lparr>posted_handlers := before @ after\<rparr>) + (if j = i then {#Waits d#} else {#}) = work_on j s" for j
    by (simp add: work_on_def ps posted_work_append posted_work_Cons)
  have moved: "work_on j ?s = work_on j (s\<lparr>posted_handlers := before @ after\<rparr>) + (if j = i then {#Runs (Begins d)#} else {#})" for j
    using work_move [of t "s\<lparr>posted_handlers := before @ after\<rparr>" j "In_Handler i (Begins d)"] t by (simp split: if_splits)
  have "work_on i s \<noteq> {#}" using posted [of i] by (metis empty_not_add_mset add_mset_add_single)
  then have go: "started i s" and i: "i < length (connections (the_io_server s))" using busy_started [OF well] by blast+
  from match_servers_nth [OF m well go] posted [of i, symmetric] match_waits obtain ev where
    w: "work_on i (s\<lparr>posted_handlers := before @ after\<rparr>) = {#}"
    and io: "io_completes (connections a ! i) ev = Some (d, ?c)"
    by (metis add_mset_add_single)
  note whole = whole_connection_event [OF m well r go on_event_completion [OF io, of size_text ?h]]
  show ?thesis
  proof (cases "handler_rest size_text ?h (Begins d) ?c")
    case (Inl u)
    have "work_on i ?s = {#Runs (Begins d)#}" using moved [of i] w by simp
    with i Inl io_completes_pending [OF io] have "doomed size_text fs ?s" unfolding doomed_def by auto
    with whole Inl show ?thesis by (auto intro!: exI [of _ "Inl u"])
  next
    case (Inr x)
    have "match_servers size_text fs ?s (a\<lparr>connections := (connections a)[i := x]\<rparr>)"
    proof (rule match_servers_put [OF m well go, where c = ?c])
      show "accepts_on ?s = accepts_on s" using accepts_same t by simp
      show "work_on j ?s = work_on j s" if "j \<noteq> i" for j using that posted [of j] moved [of j] by simp
      show "match_connection size_text ?h (work_on i ?s) ?c x"
        using moved [of i] w Inr io_completes_pending [OF io] by (simp add: match_connection_def)
    qed simp_all
    with whole Inr show ?thesis by (auto intro!: exI [of _ "Inr (a\<lparr>connections := (connections a)[i := x]\<rparr>)"])
  qed
qed

lemma work_of_thread:
  assumes "t < length (crew s)" "crew s ! t = In_Handler i pc" "pc \<noteq> Returning"
  shows "\<exists>w. work_on i s = add_mset (Runs pc) w"
proof -
  have "work_on i s = add_mset (Runs pc) (work_on i (move_thread t In_Run s))"
    using work_move [OF assms(1), of i In_Run] assms(2,3) by simp
  then show ?thesis by blast
qed

lemma sim_handler_goes_on:
  assumes m: "match_servers size_text fs s a" and well: "accepts_well s"
    and t: "t < length (crew s)" "crew s ! t = In_Handler i pc" and pc: "pc \<noteq> Returning"
    and code: "handler_code size_text (server_handler size_text fs (the_io_server s)) pc
      (connections (the_io_server s) ! i) = Inr (pc', c)"
  shows "match_servers size_text fs (move_thread t (In_Handler i pc') (put_connection i c s)) a"
    (is "match_servers size_text fs ?s a")
proof -
  let ?h = "server_handler size_text fs (the_io_server s)"
  from work_of_thread [OF t pc] obtain w where w: "work_on i s = add_mset (Runs pc) w" by blast
  have go: "started i s" using busy_started(1) [OF well, of i] w by simp
  from match_servers_nth [OF m well go] have c: "w = {#}" "pending (connections (the_io_server s) ! i) = No_Op"
    "handler_rest size_text ?h pc (connections (the_io_server s) ! i) = Inr (connections a ! i)"
    using match_runs unfolding w by blast+
  then have rest: "handler_rest size_text ?h pc' c = Inr (connections a ! i)"
    using code by (simp add: handler_rest_code [of size_text ?h pc])
  have moved: "work_on j ?s + thread_work j (In_Handler i pc) = work_on j s + thread_work j (In_Handler i pc')" for j
    using work_move [of t "put_connection i c s" j "In_Handler i pc'"] t by simp
  have "match_servers size_text fs ?s (a\<lparr>connections := (connections a)[i := connections a ! i]\<rparr>)"
  proof (rule match_servers_put [OF m well go, where c = c])
    show "accepts_on ?s = accepts_on s" using accepts_same [of t "put_connection i c s"] t by simp
    show "work_on j ?s = work_on j s" if "j \<noteq> i" for j using that moved [of j] by simp
    show "match_connection size_text ?h (work_on i ?s) c (connections a ! i)"
    proof (cases "pc' = Returning")
      case True
      with moved [of i] w c(1) rest pc show ?thesis by (simp add: match_connection_def)
    next
      case False
      with moved [of i] w c(1) pc have "work_on i ?s = {#Runs pc'#}" by simp
      with rest handler_code_pending [OF code False] c(2) show ?thesis by (simp add: match_connection_def)
    qed
  qed simp_all
  then show ?thesis by simp
qed

text \<open>A handler in a matched state never crashes: the other side would have no state.\<close>

lemma sim_no_crash:
  assumes m: "match_servers size_text fs s a" and well: "accepts_well s"
    and t: "t < length (crew s)" "crew s ! t = In_Handler i pc"
  shows "handler_code size_text (server_handler size_text fs (the_io_server s)) pc
    (connections (the_io_server s) ! i) \<noteq> Inl u"
proof
  let ?h = "server_handler size_text fs (the_io_server s)"
  assume code: "handler_code size_text ?h pc (connections (the_io_server s) ! i) = Inl u"
  then have "pc \<noteq> Returning" by auto
  from work_of_thread [OF t this] obtain w where w: "work_on i s = add_mset (Runs pc) w" by blast
  have go: "started i s" using busy_started(1) [OF well, of i] w by simp
  from match_servers_nth [OF m well go] have "handler_rest size_text ?h pc (connections (the_io_server s) ! i) =
      Inr (connections a ! i)"
    using match_runs unfolding w by blast
  with code show False by (simp add: handler_rest_code [of size_text ?h pc])
qed

text \<open>A thread that moves without touching anything.\<close>

lemma sim_idle_move:
  assumes m: "match_servers size_text fs s a" and t: "t < length (crew s)"
    and "\<And>j. thread_work j (crew s ! t) = {#}" "\<And>j. thread_work j p = {#}"
    and "\<not> accept_pc (crew s ! t)" "\<not> accept_pc p"
  shows "match_servers size_text fs (move_thread t p s) a"
proof -
  have "work_on j (move_thread t p s) = work_on j s" for j using work_move [OF t, of j p] assms(3,4) by simp
  moreover have "accepts_on (move_thread t p s) = accepts_on s" using accepts_same [OF t assms(5,6)] .
  ultimately show ?thesis using m by (simp add: match_servers_def match_accepts_def)
qed

section \<open>Accepts and stops\<close>

text \<open>Only the accepts change.\<close>

lemma match_servers_accepts:
  assumes m: "match_servers size_text fs s a" "match_accepts s b"
    and b: "a = b\<lparr>connections := connections a\<rparr>" "length (connections a) = length (connections b)"
    and s': "match_accepts s' b" "doc_root (the_io_server s') = doc_root (the_io_server s)"
      "workers (the_io_server s') = workers (the_io_server s)" "length (crew s') = length (crew s)"
      "\<And>j. work_on j s' = work_on j s"
  shows "match_servers size_text fs s' a"
proof -
  have h: "server_handler size_text fs (the_io_server s') = server_handler size_text fs (the_io_server s)"
    using s'(2) by (simp add: server_handler_def)
  from m(1) obtain b0 where b0: "match_accepts s b0"
    "\<forall>i < length (connections b0). match_connection size_text (server_handler size_text fs (the_io_server s))
        (work_on i s) (connections b0 ! i) (connections a ! i)"
    "length (crew s) = workers (the_io_server s)" unfolding match_servers_def by blast
  from b0(1) m(2) have "b0 = b" by (auto simp: match_accepts_def)
  with b0 b s' show ?thesis unfolding match_servers_def h by (intro exI [of _ b]) simp
qed

lemma sim_accept_completes:
  assumes m: "match_servers size_text fs s a" and acc: "accepting (the_io_server s)"
  shows "match_servers size_text fs
    (s\<lparr>the_io_server := (the_io_server s)\<lparr>accepting := False\<rparr>, posted_accepts := posted_accepts s @ [e]\<rparr>) a"
    (is "match_servers size_text fs ?s a")
proof -
  from m obtain b where b: "match_accepts s b" "a = b\<lparr>connections := connections a\<rparr>"
    "length (connections a) = length (connections b)" unfolding match_servers_def by blast
  with acc have one: "posted_accepts s = [] \<and> accepts_on s = {#} \<and> b = the_io_server s"
    by (auto simp: match_accepts_def)
  have "accepts_on ?s = {#}" using one by (simp add: accepts_on_def)
  with one acc have "match_accepts ?s b" by (simp add: match_accepts_def)
  moreover have "work_on j ?s = work_on j s" for j by (simp add: work_on_def)
  ultimately show ?thesis using one by (intro match_servers_accepts [OF m b]) simp_all
qed

lemma sim_takes_accept:
  assumes m: "match_servers size_text fs s a" and well: "accepts_well s" and r: "running s"
    and t: "t < length (crew s)" "crew s ! t = In_Run" and ps: "posted_accepts s = e # es"
  shows "\<exists>a'. whole_step size_text fs (Inr a) (Inr a') \<and>
    match_servers size_text fs (move_thread t (Accept_Begins e g) (s\<lparr>posted_accepts := es\<rparr>)) a'"
    (is "\<exists>a'. _ \<and> match_servers size_text fs ?s a'")
proof -
  let ?h = "server_handler size_text fs (the_io_server s)" and ?b = "the_io_server s"
  let ?n = "next_connection ?b"
  from m obtain b where b: "match_accepts s b" "a = b\<lparr>connections := connections a\<rparr>"
    "length (connections a) = length (connections b)"
    "\<forall>i < length (connections b). match_connection size_text ?h (work_on i s) (connections b ! i) (connections a ! i)"
    "length (crew s) = workers ?b" unfolding match_servers_def by blast
  with ps have one: "es = []" "accepts_on s = {#}" "\<not> accepting ?b" "b = ?b\<lparr>accepting := True\<rparr>"
    by (auto simp: match_accepts_def)
  from well have len: "length (connections ?b) = Suc ?n" and free: "work_on j s = {#}" if "?n \<le> j" for j
    using that one(2) by (auto simp: accepts_well_def started_def)
  have len_a: "length (connections a) = Suc ?n" using b(3) len [OF le_refl] by (simp add: one(4))
  have eq_n: "connections a ! ?n = connections ?b ! ?n"
    using b(4) len [OF le_refl] free [OF le_refl] by (auto simp: one(4) match_connection_def)
  define a' where "a' = handle_accept e g (a\<lparr>accepting := False\<rparr>)"
  have a: "a = ?b\<lparr>accepting := True, connections := connections a\<rparr>" using b(2) unfolding one(4) .
  have nxt: "next_connection a = ?n" by (subst a) simp
  have guard: "workers a > 0 \<and> \<not> io_stopped a \<and> accepting a"
    using r match_servers_frame [OF m] by (subst (3) a) (simp add: running_def)
  have ends: "on_server_event size_text fs a (if e then Accept_Fails else Accepts g) = Some (Inr a')"
    using guard by (simp add: a'_def handle_accept_def)
  have moved: "accepts_on ?s = {#Accept_Begins e g#}"
    using accepts_move [of t "s\<lparr>posted_accepts := es\<rparr>" "Accept_Begins e g"] t one(2)
    by (simp add: accept_pc_def)
  have work: "work_on j ?s = work_on j s" for j
    using work_move [of t "s\<lparr>posted_accepts := es\<rparr>" j "Accept_Begins e g"] t by simp
  have "match_accepts ?s (handle_accept e g ?b)"
    using one(1,3) moved by (simp add: match_accepts_def)
  moreover have "a' = (handle_accept e g ?b)\<lparr>connections := connections a'\<rparr>"
    unfolding a'_def
    by (subst (1) a) (use one(3) len [OF le_refl] len_a in \<open>cases e; simp add: handle_accept_def start_next_def reset_next_def nxt\<close>)
  moreover have "length (connections a') = length (connections (handle_accept e g ?b))"
    using len [OF le_refl] len_a by (cases e) (simp_all add: a'_def handle_accept_def)
  moreover have "match_connection size_text ?h (work_on i ?s) (connections (handle_accept e g ?b) ! i) (connections a' ! i)"
    if i: "i < length (connections (handle_accept e g ?b))" for i
  proof -
    have old: "match_connection size_text ?h (work_on i s) (connections ?b ! i) (connections a ! i)" if "i < Suc ?n"
      using b(4) that len [OF le_refl] by (simp add: one(4))
    from i len [OF le_refl] consider "i < ?n" | "i = ?n" | "i = Suc ?n" "\<not> e"
      by (cases e) (auto simp: handle_accept_def less_Suc_eq)
    then have "match_connection size_text ?h (work_on i s) (connections (handle_accept e g ?b) ! i) (connections a' ! i)"
    proof cases
      case 1
      with old len [OF le_refl] len_a show ?thesis
        by (cases e) (simp_all add: a'_def handle_accept_def start_next_def reset_next_def nxt nth_append)
    next
      case 2
      with old free [of i] eq_n len [OF le_refl] len_a show ?thesis
        by (cases e) (simp_all add: a'_def handle_accept_def start_next_def reset_next_def nxt nth_append match_connection_def)
    next
      case 3
      with free [of i] len [OF le_refl] len_a show ?thesis
        by (simp add: a'_def handle_accept_def start_next_def reset_next_def nth_append match_connection_def)
    qed
    then show ?thesis unfolding work .
  qed
  ultimately have "match_servers size_text fs ?s a'"
    using b(5) unfolding match_servers_def
    by (intro exI [of _ "handle_accept e g ?b"]) (simp add: server_handler_def)
  with whole_event [OF ends] show ?thesis by blast
qed

lemma accept_code_work:
  assumes "accept_code p b = (p', b')" "accept_pc p"
  shows "thread_work i p = {#}" "thread_work i p' = {#}" "doc_root b' = doc_root b" "workers b' = workers b"
  using assms by (cases p; auto simp: accept_pc_def accept_code_def split: if_splits)+

lemma sim_accept_goes_on:
  assumes m: "match_servers size_text fs s a" and well: "accepts_well s"
    and t: "t < length (crew s)" "accept_pc (crew s ! t)"
    and code: "accept_code (crew s ! t) (the_io_server s) = (p, b')"
  shows "match_servers size_text fs (move_thread t p (s\<lparr>the_io_server := b'\<rparr>)) a"
    (is "match_servers size_text fs ?s a")
proof -
  let ?q = "crew s ! t" and ?b = "the_io_server s"
  from m obtain b where b: "match_accepts s b" "a = b\<lparr>connections := connections a\<rparr>"
    "length (connections a) = length (connections b)" unfolding match_servers_def by blast
  note one = accept_alone [OF well t]
  with b(1) have rest: "b = accept_rest ?q ?b" by (auto simp: match_accepts_def)
  have moved: "accepts_on ?s = accept_work p"
    using accepts_move [of t "s\<lparr>the_io_server := b'\<rparr>" p] t one(1) by simp
  have work: "work_on j ?s = work_on j s" for j
    using work_move [of t "s\<lparr>the_io_server := b'\<rparr>" j p] t accept_code_work [OF code t(2)] by simp
  have accepts: "match_accepts ?s b"
    using t(2) code one(2,3) rest moved
    by (cases ?q) (auto simp: accept_pc_def accept_code_def match_accepts_def handle_accept_def split: if_splits)
  show ?thesis
    by (rule match_servers_accepts [OF m b accepts]) (simp_all add: accept_code_work [OF code t(2)] work)
qed

lemma sim_stops:
  assumes m: "match_servers size_text fs s a"
  shows "match_servers size_text fs (pooled_stop s) (stop_server a)" (is "match_servers size_text fs ?s _")
proof -
  from m obtain b where b: "match_accepts s b" "a = b\<lparr>connections := connections a\<rparr>"
    "length (connections a) = length (connections b)"
    "\<forall>i < length (connections b). match_connection size_text (server_handler size_text fs (the_io_server s))
       (work_on i s) (connections b ! i) (connections a ! i)"
    "length (crew s) = workers (the_io_server s)" unfolding match_servers_def by blast
  have rest: "accept_rest p (stop_server c) = stop_server (accept_rest p c)" for p c
    by (cases p) (simp_all add: stop_server_def handle_accept_def start_next_def reset_next_def)
  have "match_accepts ?s (stop_server b)"
    using b(1) by (auto simp: match_accepts_def rest pooled_stop_def) (simp_all add: stop_server_def)
  moreover have "stop_server a = (stop_server b)\<lparr>connections := connections (stop_server a)\<rparr>"
    by (subst b(2)) (simp add: stop_server_def)
  ultimately show ?thesis
    using b(3-) unfolding match_servers_def
    by (intro exI [of _ "stop_server b"]) (simp add: stop_server_def server_handler_def pooled_stop_def)
qed

section \<open>The accepts stay well\<close>

text \<open>Steps on a started connection.\<close>

lemma accepts_well_put:
  assumes well: "accepts_well s" and i: "started i s"
    and s': "the_io_server s' = (the_io_server s)\<lparr>connections := (connections (the_io_server s))[i := c]\<rparr>"
      "posted_accepts s' = posted_accepts s" "accepts_on s' = accepts_on s"
    and others: "\<And>j. j \<noteq> i \<Longrightarrow> work_on j s' = work_on j s"
  shows "accepts_well s'"
proof -
  have same: "started j s' = started j s" for j by (simp add: started_def s')
  have "i \<noteq> next_connection (the_io_server s)" if "\<not> started (next_connection (the_io_server s)) s"
    using that i by blast
  moreover have "work_on j s' = {#}" if "\<not> started j s" for j
    using that i others [of j] well by (cases "j = i") (auto simp: accepts_well_def)
  ultimately show ?thesis using well unfolding accepts_well_def same s' by auto
qed

text \<open>Steps of the threads and of the network that leave the connections alone.\<close>

lemma accepts_well_same:
  assumes "accepts_well s" "connections (the_io_server s') = connections (the_io_server s)"
    "next_connection (the_io_server s') = next_connection (the_io_server s)"
    "size (accepts_on s') + length (posted_accepts s') + (if accepting (the_io_server s') then 1 else 0) \<le> 1"
    "\<And>g. (Accept_Reset g \<in># accepts_on s') = (Accept_Reset g \<in># accepts_on s)"
    "\<And>j. work_on j s' = work_on j s"
  shows "accepts_well s'"
  using assms by (simp add: accepts_well_def started_def)

lemma accepts_well_accept:
  assumes well: "accepts_well s" and t: "t < length (crew s)" "accept_pc (crew s ! t)"
    and code: "accept_code (crew s ! t) (the_io_server s) = (p, b')"
  shows "accepts_well (move_thread t p (s\<lparr>the_io_server := b'\<rparr>))" (is "accepts_well ?s")
proof -
  let ?q = "crew s ! t" and ?b = "the_io_server s"
  note one = accept_alone [OF well t]
  have moved: "accepts_on ?s = accept_work p"
    using accepts_move [of t "s\<lparr>the_io_server := b'\<rparr>" p] t one(1) by simp
  have work: "work_on j ?s = work_on j s" for j
    using work_move [of t "s\<lparr>the_io_server := b'\<rparr>" j p] t accept_code_work [OF code t(2)] by simp
  from well have len: "length (connections ?b) = Suc (next_connection ?b)"
    and free: "\<And>j. \<not> started j s \<Longrightarrow> work_on j s = {#}"
    and idle: "\<not> started (next_connection ?b) s \<Longrightarrow> pending (connections ?b ! next_connection ?b) = No_Op"
    by (simp_all add: accepts_well_def)
  show ?thesis
  proof (cases ?q)
    case (Accept_Begins e g)
    with code len free idle one(2,3) show ?thesis
      unfolding accepts_well_def started_def work moved
      by (auto simp: accept_code_def accept_pc_def one(1) started_def simp del: split_paired_All split_paired_Ex split: if_splits)
  next
    case (Accept_Reset g)
    with code have p: "p = Accept_Again" and b': "b' = reset_next g ?b" by (simp_all add: accept_code_def)
    with len free one(2,3) show ?thesis
      unfolding accepts_well_def started_def work moved
      by (auto simp: accept_pc_def one(1) Accept_Reset started_def reset_next_def nth_append simp del: fresh_connection.simps)
  next
    case Accept_Again
    with code have p: "p = In_Run" and b': "b' = ?b\<lparr>accepting := True\<rparr>" by (simp_all add: accept_code_def)
    with len free idle one(2,3) show ?thesis
      unfolding accepts_well_def started_def work moved
      by (auto simp: accept_pc_def one(1) Accept_Again started_def)
  qed (use t(2) in \<open>simp_all add: accept_pc_def\<close>)
qed

lemma accepts_well_step:
  assumes well: "accepts_well s" and step: "pooled_step size_text fs s (Inr s')"
  shows "accepts_well s'"
  using step
proof (cases rule: pooled_step.cases)
  case (operation_completes i ev d c)
  with busy_started [OF well, of i] io_completes_pending have "started i s" by blast
  with operation_completes show ?thesis
    by (intro accepts_well_put [OF well])
      (auto simp: work_on_def posted_work_append posted_work_Cons posted_work_def)
next
  case (bytes_leave i k c)
  with busy_started [OF well, of i] on_event_pending have "started i s" by blast
  with bytes_leave show ?thesis by (intro accepts_well_put [OF well]) auto
next
  case (accept_completes e)
  with well show ?thesis
    by (intro accepts_well_same [OF well]) (simp_all add: accepts_well_def work_on_def accepts_on_def)
next
  case (takes_handler t before i d after)
  let ?r = "s\<lparr>posted_handlers := before @ after\<rparr>"
  have posted: "work_on j s = work_on j ?r + (if j = i then {#Waits d#} else {#})" for j
    using takes_handler by (simp add: work_on_def posted_work_append posted_work_Cons)
  then have "started i s" using busy_started(1) [OF well, of i] by simp
  then show ?thesis
  proof (rule accepts_well_put [OF well, where c = "connections (the_io_server s) ! i"])
    show "accepts_on s' = accepts_on s" using takes_handler accepts_same [of t ?r] by simp
    show "work_on j s' = work_on j s" if "j \<noteq> i" for j
      using that takes_handler work_move [of t ?r j "In_Handler i (Begins d)"] posted [of j] by simp
  qed (use takes_handler in simp_all)
next
  case (takes_accept t e es g)
  let ?r = "s\<lparr>posted_accepts := es\<rparr>"
  have "accepts_on s' = accepts_on s + {#Accept_Begins e g#}"
    using takes_accept accepts_move [of t ?r "Accept_Begins e g"] by (simp add: accept_pc_def)
  moreover have "work_on j s' = work_on j s" for j
    using takes_accept work_move [of t ?r j "Accept_Begins e g"] by simp
  ultimately show ?thesis
    using takes_accept well by (intro accepts_well_same [OF well]) (auto simp: accepts_well_def)
next
  case (handler_goes_on t i pc pc' c)
  let ?r = "put_connection i c s"
  from work_of_thread [of t s i pc] handler_goes_on have "started i s" using busy_started(1) [OF well, of i] by auto
  then show ?thesis
  proof (rule accepts_well_put [OF well, where c = c])
    show "accepts_on s' = accepts_on s" using handler_goes_on accepts_same [of t ?r] by simp
    show "work_on j s' = work_on j s" if "j \<noteq> i" for j
      using that handler_goes_on work_move [of t ?r j "In_Handler i pc'"] by simp
  qed (use handler_goes_on in simp_all)
next
  case (handler_returns t i)
  then show ?thesis
    using well accepts_same [of t s In_Run] work_move [of t s _ In_Run]
    by (intro accepts_well_same [OF well]) (auto simp: accepts_well_def)
next
  case (accept_goes_on t p b)
  with accepts_well_accept [OF well] show ?thesis by simp
next
  case (thread_leaves t)
  then show ?thesis
    using well accepts_same [of t s Left_Run] work_move [of t s _ Left_Run]
    by (intro accepts_well_same [OF well]) (auto simp: accepts_well_def)
qed

lemma accepts_well_stop: "accepts_well s \<Longrightarrow> accepts_well (pooled_stop s)"
  by (rule accepts_well_same [of s]) (auto simp: pooled_stop_def stop_server_def accepts_well_def)

section \<open>The refinement\<close>

text \<open>Nothing saves a doomed handler: it runs on until its thread crashes, or another does.\<close>

lemma doomed_kept:
  assumes "i < length (connections (the_io_server s))" "work_on i s = {#Runs pc#}"
    and "pending (connections (the_io_server s) ! i) = No_Op"
    and "handler_rest size_text (server_handler size_text fs (the_io_server s)) pc
       (connections (the_io_server s) ! i) = Inl u"
    and "work_on i s' = work_on i s" "doc_root (the_io_server s') = doc_root (the_io_server s)"
    and "i < length (connections (the_io_server s'))"
    and "connections (the_io_server s') ! i = connections (the_io_server s) ! i"
  shows "doomed size_text fs s'"
  unfolding doomed_def using assms
  by (intro exI [of _ i] exI [of _ pc] exI [of _ u]) (simp add: server_handler_def)

text \<open>A handler on the way to undefined behaviour keeps to it.\<close>

lemma doomed_handler:
  assumes d: "i < length (connections (the_io_server s))" "work_on i s = {#Runs pc#}"
      "pending (connections (the_io_server s) ! i) = No_Op"
      "handler_rest size_text (server_handler size_text fs (the_io_server s)) pc (connections (the_io_server s) ! i) = Inl u"
    and t: "t < length (crew s)" "crew s ! t = In_Handler i pc'" "pc' \<noteq> Returning"
      "handler_code size_text (server_handler size_text fs (the_io_server s)) pc' (connections (the_io_server s) ! i) = Inr (pc'', c)"
  shows "doomed size_text fs (move_thread t (In_Handler i pc'') (put_connection i c s))"
proof -
  let ?h = "server_handler size_text fs (the_io_server s)"
  from work_of_thread [of t s i pc'] t d(2) have pc': "pc' = pc" by auto
  with t d(4) have rest: "handler_rest size_text ?h pc'' c = Inl u"
    by (simp add: handler_rest_code [of size_text ?h pc])
  then have "pc'' \<noteq> Returning" by auto
  moreover from this handler_code_pending t d(3) have "pending c = No_Op" by metis
  ultimately show ?thesis
    using t d(1,2) pc' rest work_move [of t "put_connection i c s" i "In_Handler i pc''"] unfolding doomed_def
    by (intro exI [of _ i] exI [of _ pc''] exI [of _ u]) (auto simp: server_handler_def)
qed

lemma doomed_step:
  assumes "doomed size_text fs s" "pooled_step size_text fs s (Inr s')" and well: "accepts_well s"
  shows "doomed size_text fs s'"
proof -
  let ?h = "server_handler size_text fs (the_io_server s)"
  from assms(1) obtain i pc u where d: "i < length (connections (the_io_server s))" "work_on i s = {#Runs pc#}"
    "pending (connections (the_io_server s) ! i) = No_Op"
    "handler_rest size_text ?h pc (connections (the_io_server s) ! i) = Inl u"
    unfolding doomed_def by blast
  note kept = doomed_kept [OF d]
  from assms(2) show ?thesis
  proof (cases rule: pooled_step.cases)
    case (operation_completes j ev d' c)
    with io_completes_pending d(3) have "j \<noteq> i" by metis
    with operation_completes d(1) show ?thesis
      by (intro kept) (auto simp: work_on_def posted_work_append posted_work_Cons posted_work_def)
  next
    case (bytes_leave j k c)
    with on_event_pending d(3) have "j \<noteq> i" by metis
    with bytes_leave d(1) show ?thesis by (intro kept) simp_all
  next
    case (accept_completes e)
    with d(1) show ?thesis by (intro kept) (simp_all add: work_on_def)
  next
    case (takes_handler t before j d' after)
    have "j \<noteq> i"
    proof
      assume "j = i"
      with takes_handler have "work_on i s = work_on i (s\<lparr>posted_handlers := before @ after\<rparr>) + {#Waits d'#}"
        by (simp add: work_on_def posted_work_append posted_work_Cons)
      with d(2) show False by auto
    qed
    with takes_handler d(1) show ?thesis
      using work_move [of t "s\<lparr>posted_handlers := before @ after\<rparr>" i "In_Handler j (Begins d')"]
      by (intro kept) (auto simp: work_on_def posted_work_append posted_work_Cons)
  next
    case (takes_accept t e es g)
    with d(1) show ?thesis
      using work_move [of t "s\<lparr>posted_accepts := es\<rparr>" i "Accept_Begins e g"] by (intro kept) simp_all
  next
    case (handler_goes_on t j pc' pc'' c)
    show ?thesis
    proof (cases "j = i")
      case True
      with doomed_handler [OF d] handler_goes_on show ?thesis by simp
    next
      case False
      with handler_goes_on d(1) work_move [of t "put_connection j c s" i "In_Handler j pc''"]
      show ?thesis by (intro kept) simp_all
    qed
  next
    case (handler_returns t j)
    with d(1) work_move [of t s i In_Run] show ?thesis by (intro kept) simp_all
  next
    case (accept_goes_on t p b)
    have "started i s" using busy_started(1) [OF well, of i] d(2) by simp
    with accept_goes_on have "connections b ! i = connections (the_io_server s) ! i \<and> i < length (connections b)"
      using d(1) accept_alone(1) [OF well]
      by (cases "crew s ! t") (auto simp: accept_code_def start_next_def reset_next_def started_def nth_append split: if_splits)
    with accept_goes_on accept_code_work [OF accept_goes_on(4,3)] work_move [of t "s\<lparr>the_io_server := b\<rparr>" i p]
    show ?thesis by (intro kept) simp_all
  next
    case (thread_leaves t)
    with d(1) work_move [of t s i Left_Run] show ?thesis by (intro kept) simp_all
  qed
qed

lemma doomed_stop: "doomed size_text fs (pooled_stop s) = doomed size_text fs s"
  by (simp add: doomed_def pooled_stop_def stop_server_def server_handler_def)

lemma pooled_step_simulated:
  assumes m: "match_servers size_text fs s a" and well: "accepts_well s" and step: "pooled_step size_text fs s r"
  shows "\<exists>x. (whole_step size_text fs)\<^sup>*\<^sup>* (Inr a) x \<and> match_states size_text fs r x"
proof -
  have kept: "accepts_well s'" if "r = Inr s'" for s' using accepts_well_step [OF well] step that by blast
  from step show ?thesis
  proof (cases rule: pooled_step.cases)
    case (operation_completes i ev d c)
    with kept sim_operation_completes [OF m well] show ?thesis by (intro exI [of _ "Inr a"]) simp
  next
    case (bytes_leave i k c)
    with sim_bytes_leave [OF m well] obtain a' where "whole_step size_text fs (Inr a) (Inr a')"
      "match_servers size_text fs (put_connection i c s) a'" by blast
    with bytes_leave kept show ?thesis by (intro exI [of _ "Inr a'"]) (simp add: r_into_rtranclp)
  next
    case (accept_completes e)
    with kept sim_accept_completes [OF m] show ?thesis by (intro exI [of _ "Inr a"]) simp
  next
    case (takes_handler t before i d after)
    with sim_takes_handler [OF m well] obtain x where x: "whole_step size_text fs (Inr a) x"
      "case x of Inr a' \<Rightarrow> match_servers size_text fs (move_thread t (In_Handler i (Begins d)) (s\<lparr>posted_handlers := before @ after\<rparr>)) a'
       | Inl u \<Rightarrow> doomed size_text fs (move_thread t (In_Handler i (Begins d)) (s\<lparr>posted_handlers := before @ after\<rparr>))"
      by blast
    with takes_handler kept show ?thesis by (intro exI [of _ x]) (cases x; simp add: r_into_rtranclp)
  next
    case (takes_accept t e es g)
    with sim_takes_accept [OF m well] obtain a' where "whole_step size_text fs (Inr a) (Inr a')"
      "match_servers size_text fs (move_thread t (Accept_Begins e g) (s\<lparr>posted_accepts := es\<rparr>)) a'" by blast
    with takes_accept kept show ?thesis by (intro exI [of _ "Inr a'"]) (simp add: r_into_rtranclp)
  next
    case (handler_goes_on t i pc pc' c)
    with kept sim_handler_goes_on [OF m well] show ?thesis by (intro exI [of _ "Inr a"]) simp
  next
    case (handler_crashes t i pc u)
    with sim_no_crash [OF m well] show ?thesis by blast
  next
    case (handler_returns t i)
    with kept sim_idle_move [OF m, of t In_Run] show ?thesis by (intro exI [of _ "Inr a"]) simp
  next
    case (accept_goes_on t p b)
    with kept sim_accept_goes_on [OF m well] show ?thesis by (intro exI [of _ "Inr a"]) simp
  next
    case (thread_leaves t)
    with kept sim_idle_move [OF m, of t Left_Run] show ?thesis by (intro exI [of _ "Inr a"]) simp
  qed
qed

interpretation pooled: simulation "crew_step size_text fs" "whole_step size_text fs" "match_states size_text fs"
  for size_text fs
proof
  fix r a r'
  assume m: "match_states size_text fs r a" and step: "crew_step size_text fs r r'"
  show "\<exists>a'. (whole_step size_text fs)\<^sup>*\<^sup>* a a' \<and> match_states size_text fs r' a'"
  proof (cases a)
    case (Inl u)
    from step show ?thesis
    proof (cases rule: crew_step.cases)
      case (crew_moves s)
      with m Inl doomed_step accepts_well_step have "match_states size_text fs r' (Inl u)" by (cases r') auto
      with Inl show ?thesis by blast
    next
      case (crew_stops s)
      with m Inl accepts_well_stop show ?thesis by (intro exI [of _ "Inl u"]) (simp add: doomed_stop)
    qed
  next
    case (Inr b)
    from step show ?thesis
    proof (cases rule: crew_step.cases)
      case (crew_moves s)
      with m Inr pooled_step_simulated show ?thesis by auto
    next
      case (crew_stops s)
      with m Inr sim_stops accepts_well_stop have "match_states size_text fs r' (Inr (stop_server b))" by simp
      moreover have "whole_step size_text fs a (Inr (stop_server b))"
        unfolding Inr by (rule whole_event [of _ _ _ Stops]) simp
      ultimately show ?thesis by blast
    qed
  qed
qed

text \<open>A moment at which no handler is posted or running.\<close>

definition quiet :: "pooled_server \<Rightarrow> bool" where
  "quiet s \<longleftrightarrow> posted_handlers s = [] \<and> posted_accepts s = [] \<and>
     list_all (\<lambda>p. p = In_Run \<or> p = Left_Run) (crew s)"

lemma quiet_work: "quiet s \<Longrightarrow> work_on i s = {#} \<and> accepts_on s = {#}"
proof -
  have "sum_list (map (thread_work i) ps) = {#} \<and> sum_list (map accept_work ps) = {#}"
    if "list_all (\<lambda>p. p = In_Run \<or> p = Left_Run) ps" for ps
    using that by (induction ps) auto
  then show "quiet s \<Longrightarrow> ?thesis" by (simp add: quiet_def work_on_def accepts_on_def posted_work_def)
qed

lemma match_quiet:
  assumes "match_servers size_text fs s a" "quiet s"
  shows "a = the_io_server s"
proof -
  from assms obtain b where b: "match_accepts s b" "a = b\<lparr>connections := connections a\<rparr>"
    "length (connections a) = length (connections b)"
    "\<forall>i < length (connections b). match_connection size_text (server_handler size_text fs (the_io_server s))
       (work_on i s) (connections b ! i) (connections a ! i)" unfolding match_servers_def by blast
  with quiet_work [OF assms(2)] have "connections a = connections b"
    by (intro nth_equalityI) (auto simp: match_connection_def)
  with b(2) have "a = b" by simp
  moreover from b(1) quiet_work [OF assms(2)] assms(2) have "b = the_io_server s"
    by (auto simp: match_accepts_def quiet_def)
  ultimately show ?thesis by simp
qed

lemma quiet_not_doomed: "quiet s \<Longrightarrow> \<not> doomed size_text fs s"
  by (auto simp: doomed_def quiet_work)

lemma threads_simulated:
  assumes "(crew_step size_text fs)\<^sup>*\<^sup>* (Inr (pooled_start (new_server root n g))) (Inr s)"
  shows "doomed size_text fs s \<or>
    (\<exists>evs a. on_server_events size_text fs (run_server (new_server root n g)) evs = Some (Inr a) \<and>
       match_servers size_text fs s a \<and> accepts_well s)"
proof -
  have "match_states size_text fs (Inr (pooled_start (new_server root n g))) (Inr (run_server (new_server root n g)))"
    using match_start by simp
  from pooled.simulated_run [OF assms this] obtain x where
    x: "(whole_step size_text fs)\<^sup>*\<^sup>* (Inr (run_server (new_server root n g))) x" "match_states size_text fs (Inr s) x"
    by blast
  from whole_steps_events [OF x(1)] obtain evs where
    "on_server_events size_text fs (run_server (new_server root n g)) evs = Some x" by blast
  with x(2) show ?thesis by (cases x) auto
qed

lemma on_server_events_root:
  "on_server_events size_text fs b evs = Some (Inr a) \<Longrightarrow> doc_root a = doc_root b"
proof (induction evs arbitrary: b)
  case (Cons ev evs)
  then show ?case using on_server_event_frame(1) by (auto split: option.splits sum.splits if_splits)
qed simp

text \<open>The accept of a connection is handled, and the thread has not started it yet.\<close>

definition about_to_start :: "nat \<Rightarrow> pooled_server \<Rightarrow> bool" where
  "about_to_start i s \<longleftrightarrow>
     i = next_connection (the_io_server s) \<and> (\<exists>g. Accept_Begins False g \<in> set (crew s))"

lemma accepts_on_crew: "p \<in># accepts_on s \<longleftrightarrow> p \<in> set (crew s) \<and> accept_pc p"
proof -
  have "p \<in># sum_list (map accept_work ps) \<longleftrightarrow> p \<in> set ps \<and> accept_pc p" for ps
    by (induction ps) auto
  then show ?thesis by (simp add: accepts_on_def)
qed

lemma about_to_start_accepts:
  "about_to_start i s \<longleftrightarrow>
     i = next_connection (the_io_server s) \<and> (\<exists>g. Accept_Begins False g \<in># accepts_on s)"
  by (simp add: about_to_start_def accepts_on_crew accept_pc_def)

lemma match_accepts_all:
  assumes "match_accepts s b" "accepts_well s" "i < length (connections (the_io_server s))"
  shows "connections b ! i =
    (if about_to_start i s then start (connections (the_io_server s) ! i) else connections (the_io_server s) ! i)"
    "i < length (connections b)"
proof -
  from assms(1,3) accept_rest_length show "i < length (connections b)"
    by (auto simp: match_accepts_def intro: less_le_trans)
  from assms(1) consider "accepts_on s = {#}" "connections b = connections (the_io_server s)"
    | p where "accepts_on s = {#p#}" "b = accept_rest p (the_io_server s)"
    by (auto simp: match_accepts_def)
  then show "connections b ! i =
    (if about_to_start i s then start (connections (the_io_server s) ! i) else connections (the_io_server s) ! i)"
  proof cases
    case 2
    with assms(3) show ?thesis
      by (cases p) (auto simp: about_to_start_accepts handle_accept_def start_next_def reset_next_def nth_append)
  qed (simp add: about_to_start_accepts)
qed

lemma match_servers_all:
  assumes "match_servers size_text fs s a" "accepts_well s" "i < length (connections (the_io_server s))"
  shows "i < length (connections a) \<and>
    match_connection size_text (server_handler size_text fs (the_io_server s)) (work_on i s)
      (if about_to_start i s then start (connections (the_io_server s) ! i) else connections (the_io_server s) ! i)
      (connections a ! i)"
proof -
  from assms(1) obtain b where b: "match_accepts s b" "length (connections a) = length (connections b)"
    "\<forall>i < length (connections b). match_connection size_text (server_handler size_text fs (the_io_server s))
        (work_on i s) (connections b ! i) (connections a ! i)" unfolding match_servers_def by blast
  from match_accepts_all [OF b(1) assms(2,3)] b(2,3) show ?thesis by metis
qed

text \<open>
C10: the threads of the pool do not matter. Whatever they, the network and a stop do, in any
interleaving of the pieces of the handlers, the server is at each moment one that whole
handlers lead to: every connection is as there, or one completed operation or the rest of
one handler away from it, where the one that a thread is about to start counts as started; and at a
quiet moment the servers are equal. The only exception is a moment at which a thread is in a
handler that is about to have undefined behaviour.
\<close>

theorem pool_refines_whole_handlers:
  assumes "(crew_step size_text fs)\<^sup>*\<^sup>* (Inr (pooled_start (new_server root n g))) (Inr s)"
  shows "doomed size_text fs s \<or>
    (\<exists>evs a. on_server_events size_text fs (run_server (new_server root n g)) evs = Some (Inr a) \<and>
       (quiet s \<longrightarrow> a = the_io_server s) \<and> io_stopped a = io_stopped (the_io_server s) \<and>
       (\<forall>i < length (connections (the_io_server s)). i < length (connections a) \<and>
          match_connection size_text (server_handler size_text fs (the_io_server s)) (work_on i s)
            (if about_to_start i s then start (connections (the_io_server s) ! i) else connections (the_io_server s) ! i)
            (connections a ! i)))"
  using threads_simulated [OF assms] match_quiet match_servers_frame(2) match_servers_all by metis

text \<open>The state of the witnesses: the one thread of a pool has handled an accept.\<close>

definition accepted_pool :: pooled_server where
  "accepted_pool =
     \<lparr>the_io_server = (run_server (new_server ''www'' 1 ([], 4, 5, 6)))
        \<lparr>next_connection := 1, connections := [start (fresh_connection ([], 1, 2, 3)), fresh_connection ([], 4, 5, 6)]\<rparr>,
      posted_handlers = [], posted_accepts = [], crew = [In_Run]\<rparr>"

lemma accepted_pool_run:
  "(crew_step dec_text (\<lambda>p. None))\<^sup>*\<^sup>* (Inr (pooled_start (new_server ''www'' 1 ([], 1, 2, 3)))) (Inr accepted_pool)"
proof -
  let ?b = "run_server (new_server ''www'' 1 ([], 1, 2, 3))" and ?g = "([], 4, 5, 6) :: unset"
  let ?step = "crew_step dec_text (\<lambda>p. None)"
  let ?s0 = "pooled_start (new_server ''www'' 1 ([], 1, 2, 3))"
  let ?s1 = "?s0\<lparr>the_io_server := ?b\<lparr>accepting := False\<rparr>, posted_accepts := [False]\<rparr>"
  let ?s2 = "move_thread 0 (Accept_Begins False ?g) (?s1\<lparr>posted_accepts := []\<rparr>)"
  let ?b3 = "start_next (?b\<lparr>accepting := False\<rparr>)"
  let ?s3 = "move_thread 0 (Accept_Reset ?g) (?s2\<lparr>the_io_server := ?b3\<rparr>)"
  let ?b4 = "reset_next ?g ?b3"
  let ?s4 = "move_thread 0 Accept_Again (?s3\<lparr>the_io_server := ?b4\<rparr>)"
  let ?s5 = "move_thread 0 In_Run (?s4\<lparr>the_io_server := ?b4\<lparr>accepting := True\<rparr>\<rparr>)"
  note state = pooled_start_def run_server_def new_server_def running_def move_thread_def
  have "?step (Inr ?s0) (Inr ?s1)"
    using accept_completes [of ?s0 dec_text "\<lambda>p. None" False] by (intro crew_moves) (simp add: state)
  moreover have "?step (Inr ?s1) (Inr ?s2)"
    by (intro crew_moves takes_accept [where e = False]) (simp_all add: state)
  moreover have "?step (Inr ?s2) (Inr ?s3)"
    by (intro crew_moves accept_goes_on) (simp_all add: state accept_pc_def accept_code_def)
  moreover have "?step (Inr ?s3) (Inr ?s4)"
    by (intro crew_moves accept_goes_on) (simp_all add: state accept_pc_def accept_code_def)
  moreover have "?step (Inr ?s4) (Inr ?s5)"
    by (intro crew_moves accept_goes_on) (simp_all add: state accept_pc_def accept_code_def)
  ultimately have "?step\<^sup>*\<^sup>* (Inr ?s0) (Inr ?s5)"
    by (meson converse_rtranclp_into_rtranclp rtranclp.rtrancl_refl)
  moreover have "?s5 = accepted_pool"
    by (simp add: state accepted_pool_def start_next_def reset_next_def)
  ultimately show ?thesis by simp
qed

lemma accepted_pool_quiet: "quiet accepted_pool"
  by (simp add: accepted_pool_def quiet_def)

theorem pool_refines_whole_handlers_witness:
  "\<exists>evs. on_server_events dec_text (\<lambda>p. None) (run_server (new_server ''www'' 1 ([], 1, 2, 3))) evs =
     Some (Inr (the_io_server accepted_pool))"
  using pool_refines_whole_handlers [OF accepted_pool_run] quiet_not_doomed accepted_pool_quiet by blast

section \<open>The service under the threads\<close>

text \<open>What a connection may have sent, given what it has received.\<close>

definition sends_reply :: "(nat \<Rightarrow> string) \<Rightarrow> handler \<Rightarrow> connection \<Rightarrow> connection \<Rightarrow> bool" where
  "sends_reply size_text handler c0 c \<longleftrightarrow>
     sent (socket c) = [] \<and> \<not> shut_down (socket c) \<or>
     (\<exists>rep. stream_reply size_text handler c0 (received (socket c)) = Inr (Some rep) \<and>
        prefix (sent (socket c)) (reply_bytes rep) \<and>
        (shut_down (socket c) \<longrightarrow> sent (socket c) = reply_bytes rep))"

lemma conn_inv_sends: "conn_inv size_text handler c0 c \<Longrightarrow> sends_reply size_text handler c0 c"
  by (cases "pending c") (auto simp: conn_inv_def sends_reply_def Let_def take_is_prefix split: option.splits)

lemma io_completes_socket:
  "io_completes a ev = Some (d, c) \<Longrightarrow>
     sent (socket c) = sent (socket a) \<and> shut_down (socket c) = shut_down (socket a) \<and>
     (received (socket c) = received (socket a) \<or> pending a = Reading)"
  by (cases ev) (auto simp: receive_def split: if_splits pending_op.splits)

lemma handler_rest_socket:
  "handler_rest size_text handler pc c = Inr a \<Longrightarrow>
     sent (socket a) = sent (socket c) \<and> received (socket a) = received (socket c) \<and>
     (shut_down (socket c) \<longrightarrow> shut_down (socket a))"
  by (cases "(size_text, handler, pc, c)" rule: handler_rest.cases)
    (auto simp: handle_read_def handle_write_def async_write_reply_def Let_def split: if_splits)

lemma fresh_sends: "sends_reply size_text handler c0 (fresh_connection g)"
  by (cases g) (simp add: sends_reply_def new_connection_def new_socket_def)

lemma start_sends: "sends_reply size_text handler c0 (start c) \<Longrightarrow> sends_reply size_text handler c0 c"
  by (simp add: sends_reply_def start_def)

lemma match_sends:
  assumes "match_connection size_text handler w c a" and a: "sends_reply size_text handler c0 a"
    and reading: "pending a = Reading \<Longrightarrow> sent (socket a) = [] \<and> \<not> shut_down (socket a)"
  shows "sends_reply size_text handler c0 c"
proof -
  from assms(1) consider (same) "c = a" | (waits) d ev where "io_completes a ev = Some (d, c)"
    | (runs) pc where "handler_rest size_text handler pc c = Inr a"
    unfolding match_connection_def by blast
  then show ?thesis
  proof cases
    case waits
    with io_completes_socket [OF waits] a reading show ?thesis by (auto simp: sends_reply_def)
  next
    case runs
    with handler_rest_socket [OF runs] a show ?thesis by (auto simp: sends_reply_def)
  qed (use a in simp)
qed

text \<open>The connections of whole handlers: those of clients, and the next one.\<close>

lemma client_sends:
  assumes "on_server_events size_text fs (run_server (new_server root n g)) evs = Some (Inr a)"
    and "i < length (connections a)"
  shows "\<exists>g'. sends_reply size_text (handle_request size_text fs root) (fresh_connection g') (connections a ! i) \<and>
    (pending (connections a ! i) = Reading \<longrightarrow>
       sent (socket (connections a ! i)) = [] \<and> \<not> shut_down (socket (connections a ! i)))"
proof -
  from connection_of_client(3) [OF assms] obtain g' where client: "if i < accepts_in evs
     then on_events size_text (handle_request size_text fs root) (start (fresh_connection g')) (events_of i evs) =
       Some (Inr (connections a ! i))
     else connections a ! i = fresh_connection g' \<and> events_of i evs = []" by blast
  show ?thesis
  proof (cases "i < accepts_in evs")
    case True
    with client have "conn_inv size_text (handle_request size_text fs root) (fresh_connection g') (connections a ! i)"
      using on_events_inv by (cases g') simp
    with conn_inv_sends [OF this] show ?thesis by (intro exI [of _ g'] conjI impI) (simp_all add: conn_inv_def Let_def)
  next
    case False
    with client fresh_sends show ?thesis by (intro exI [of _ g']) (simp del: fresh_connection.simps)
  qed
qed

text \<open>
C11: no client is answered wrongly because of the threads. However the threads interleave, what a
connection has sent is the start of the one reply to the bytes that it has received, from
the files below the document root, and it is shut down only with the whole reply out; unless
a thread is about to have undefined behaviour.
\<close>

theorem threads_send_replies:
  assumes "(crew_step size_text fs)\<^sup>*\<^sup>* (Inr (pooled_start (new_server root n g))) (Inr s)"
    and "\<not> doomed size_text fs s" and "i < length (connections (the_io_server s))"
  shows "\<exists>g'. sends_reply size_text (handle_request size_text fs root) (fresh_connection g')
    (connections (the_io_server s) ! i)"
proof -
  let ?h = "handle_request size_text fs root"
  let ?c = "connections (the_io_server s) ! i"
  from threads_simulated [OF assms(1)] assms(2) obtain evs a where
    run: "on_server_events size_text fs (run_server (new_server root n g)) evs = Some (Inr a)"
    and match: "match_servers size_text fs s a" and well: "accepts_well s" by blast
  from match_servers_all [OF match well assms(3)] have i: "i < length (connections a)"
    and m: "match_connection size_text (server_handler size_text fs (the_io_server s)) (work_on i s)
      (if about_to_start i s then start ?c else ?c) (connections a ! i)" by simp_all
  have "doc_root a = root" using on_server_events_root [OF run] by (simp add: run_server_def new_server_def)
  then have h: "server_handler size_text fs (the_io_server s) = ?h"
    using match_servers_frame(3) [OF match] by (simp add: server_handler_def)
  from client_sends [OF run i] obtain g' where
    "sends_reply size_text ?h (fresh_connection g') (connections a ! i)"
    "pending (connections a ! i) = Reading \<Longrightarrow>
       sent (socket (connections a ! i)) = [] \<and> \<not> shut_down (socket (connections a ! i))" by blast
  from match_sends [OF m [unfolded h] this] show ?thesis
    using start_sends by (intro exI [of _ g']) (cases "about_to_start i s"; simp del: fresh_connection.simps)
qed

theorem threads_send_replies_witness:
  "\<exists>g'. sends_reply dec_text (handle_request dec_text (\<lambda>p. None) ''www'') (fresh_connection g')
     (start (fresh_connection ([], 1, 2, 3)))"
proof -
  have one: "connections (the_io_server accepted_pool) = [start (fresh_connection ([], 1, 2, 3)), fresh_connection ([], 4, 5, 6)]"
    by (simp add: accepted_pool_def)
  then have "0 < length (connections (the_io_server accepted_pool))" by simp
  from threads_send_replies [OF accepted_pool_run quiet_not_doomed [OF accepted_pool_quiet] this]
  show ?thesis unfolding one by simp
qed

end
