(* ===== verification/PoolProgress.thy ===== *)
theory PoolProgress imports HttpThreads
begin

text \<open>
  The progress of the threads of \<open>server::run\<close> (\<open>full_server/server.cpp\<close>): what is posted is handled
  without further help of the network, and after a stop every thread leaves.
\<close>

section \<open>After a stop\<close>

text \<open>How many steps a thread has left before it is out of \<open>run\<close>, once the server is stopped.\<close>

fun steps_left :: "thread_pc \<Rightarrow> nat" where
  "steps_left Left_Run = 0"
| "steps_left In_Run = 1"
| "steps_left (In_Handler i Returning) = 2"
| "steps_left (In_Handler i Reply_Ready) = 3"
| "steps_left (In_Handler i Read_Again) = 3"
| "steps_left (In_Handler i (Parsed r)) = 4"
| "steps_left (In_Handler i (Begins d)) = 5"
| "steps_left Accept_Again = 2"
| "steps_left (Accept_Reset g) = 3"
| "steps_left (Accept_Begins e g) = 4"

fun crew_left :: "ub + pooled_server \<Rightarrow> nat" where
  "crew_left (Inr s) = sum_list (map steps_left (crew s))"
| "crew_left (Inl u) = 0"

fun crew_stopped :: "ub + pooled_server \<Rightarrow> bool" where
  "crew_stopped (Inr s) = io_stopped (the_io_server s)"
| "crew_stopped (Inl u) = True"

lemma steps_left_bound: "steps_left p \<le> 5"
  by (cases p rule: steps_left.cases) simp_all

lemma crew_left_bound: "crew_left (Inr s) \<le> 5 * length (crew s)"
proof -
  have "sum_list (map steps_left ps) \<le> 5 * length ps" for ps
    by (induction ps) (auto intro: add_mono steps_left_bound)
  then show ?thesis by simp
qed

lemma handler_code_left:
  "handler_code size_text handler pc c = Inr (pc', c') \<Longrightarrow> pc \<noteq> Returning \<Longrightarrow>
     steps_left (In_Handler i pc') < steps_left (In_Handler i pc)"
  by (cases "(size_text, handler, pc, c)" rule: handler_code.cases) (auto split: if_splits)

lemma accept_code_left:
  "accept_code p b = (p', b') \<Longrightarrow> accept_pc p \<Longrightarrow> steps_left p' < steps_left p \<and> io_stopped b' = io_stopped b"
  by (cases p) (auto simp: accept_code_def accept_pc_def split: if_splits)

lemma move_left:
  "t < length (crew s) \<Longrightarrow> steps_left p < steps_left (crew s ! t) \<Longrightarrow>
     crew_left (Inr (move_thread t p s)) < crew_left (Inr s)"
  using sum_update [of t "crew s" steps_left p] by (simp add: move_thread_def)

lemma thread_left_pos: "t < length (crew s) \<Longrightarrow> 0 < steps_left (crew s ! t) \<Longrightarrow> 0 < crew_left (Inr s)"
  by (metis crew_left.simps(1) gr_zeroI length_map nth_map nth_mem sum_list_eq_0_iff)

lemma stopped_step:
  assumes "pooled_step size_text fs s r" "io_stopped (the_io_server s)"
  shows "crew_stopped r \<and> crew_left r < crew_left (Inr s)"
  using assms
proof (cases rule: pooled_step.cases)
  case (handler_goes_on t i pc pc' c)
  then have "steps_left (In_Handler i pc') < steps_left (crew (put_connection i c s) ! t)"
    using handler_code_left by simp
  with handler_goes_on assms(2) move_left [of t "put_connection i c s"] show ?thesis by simp
next
  case (handler_crashes t i pc u)
  then have "pc \<noteq> Returning" by auto
  with handler_crashes have "0 < steps_left (crew s ! t)" by (cases pc) auto
  with handler_crashes thread_left_pos show ?thesis by auto
next
  case (handler_returns t i)
  with assms(2) move_left [of t s In_Run] show ?thesis by simp
next
  case (accept_goes_on t p b)
  with accept_code_left have "steps_left p < steps_left (crew s ! t) \<and> io_stopped b" using assms(2) by metis
  with accept_goes_on move_left [of t "s\<lparr>the_io_server := b\<rparr>" p] show ?thesis by simp
next
  case (thread_leaves t)
  with assms(2) move_left [of t s Left_Run] show ?thesis by simp
qed (simp_all add: running_def)

text \<open>A thread that is in a handler can always go on, and so can every thread after a stop.\<close>

lemma busy_goes_on:
  assumes "t < length (crew s)" "crew s ! t \<notin> {In_Run, Left_Run}"
  shows "\<exists>r. pooled_step size_text fs s r \<and> (\<forall>s'. r = Inr s' \<longrightarrow> crew_left r < crew_left (Inr s))"
proof (cases "\<exists>i pc. crew s ! t = In_Handler i pc")
  case True
  then obtain i pc where pc: "crew s ! t = In_Handler i pc" by blast
  let ?code = "handler_code size_text (server_handler size_text fs (the_io_server s)) pc (connections (the_io_server s) ! i)"
  show ?thesis
  proof (cases "pc = Returning")
    case True
    with pc assms(1) handler_returns move_left [of t s In_Run] show ?thesis by force
  next
    case False
    show ?thesis
    proof (cases ?code)
      case (Inl u)
      with pc assms(1) handler_crashes show ?thesis by blast
    next
      case (Inr x)
      then obtain pc' c where x: "?code = Inr (pc', c)" by (cases x) auto
      with handler_code_left [OF x False] pc assms(1) move_left [of t "put_connection i c s" "In_Handler i pc'"]
        handler_goes_on [OF assms(1) pc False x] show ?thesis by force
    qed
  qed
next
  case False
  with assms(2) have acc: "accept_pc (crew s ! t)" by (cases "crew s ! t") (auto simp: accept_pc_def)
  obtain p b where code: "accept_code (crew s ! t) (the_io_server s) = (p, b)" by fastforce
  with accept_code_left [OF code acc] assms(1) move_left [of t "s\<lparr>the_io_server := b\<rparr>" p]
    accept_goes_on [OF assms(1) acc code] show ?thesis by force
qed

lemma thread_goes_on:
  assumes "t < length (crew s)" "crew s ! t \<noteq> Left_Run" "io_stopped (the_io_server s)"
  shows "\<exists>r. pooled_step size_text fs s r"
proof (cases "crew s ! t = In_Run")
  case True
  with assms thread_leaves show ?thesis by blast
next
  case False
  with assms busy_goes_on show ?thesis by blast
qed

text \<open>What the threads leave as it is.\<close>

lemma pooled_step_crew: "pooled_step size_text fs s (Inr s') \<Longrightarrow> length (crew s') = length (crew s)"
  by (cases rule: pooled_step.cases) auto

lemma left_stays:
  "pooled_step size_text fs s r \<Longrightarrow> io_stopped (the_io_server s) \<Longrightarrow>
     \<exists>t < length (crew s). crew s ! t \<noteq> Left_Run"
  by (cases rule: pooled_step.cases) (auto simp: running_def accept_pc_def intro!: exI)

section \<open>Without the network\<close>

text \<open>
  The steps of the threads alone: those of the network leave the threads where they are. A posted
  handler has at most five steps to come.
\<close>

definition thread_step ::
    "(nat \<Rightarrow> string) \<Rightarrow> (string \<Rightarrow> string option) \<Rightarrow> ub + pooled_server \<Rightarrow> ub + pooled_server \<Rightarrow> bool" where
  "thread_step size_text fs r r' \<longleftrightarrow>
     (\<exists>s. r = Inr s \<and> pooled_step size_text fs s r' \<and> (\<forall>s'. r' = Inr s' \<longrightarrow> crew s' \<noteq> crew s))"

fun settle_left :: "ub + pooled_server \<Rightarrow> nat" where
  "settle_left (Inr s) = 5 * (length (posted_handlers s) + length (posted_accepts s)) + crew_left (Inr s)"
| "settle_left (Inl u) = 0"

lemma move_settles:
  "t < length (crew s) \<Longrightarrow> settle_left (Inr (move_thread t p s)) + steps_left (crew s ! t) = settle_left (Inr s) + steps_left p"
  using sum_update [of t "crew s" steps_left p] by (simp add: move_thread_def)

lemma thread_step_settles:
  assumes step: "pooled_step size_text fs s r" and moves: "\<forall>s'. r = Inr s' \<longrightarrow> crew s' \<noteq> crew s"
  shows "settle_left r < settle_left (Inr s)"
  using step
proof (cases rule: pooled_step.cases)
  case (takes_handler t before i d after)
  then show ?thesis
    using move_settles [of t "s\<lparr>posted_handlers := before @ after\<rparr>" "In_Handler i (Begins d)"] by simp
next
  case (takes_accept t e es g)
  then show ?thesis
    using move_settles [of t "s\<lparr>posted_accepts := es\<rparr>" "Accept_Begins e g"] by simp
next
  case (handler_goes_on t i pc pc' c)
  then have "steps_left (In_Handler i pc') < steps_left (In_Handler i pc)" using handler_code_left by blast
  with handler_goes_on show ?thesis
    using move_settles [of t "put_connection i c s" "In_Handler i pc'"] by simp
next
  case (handler_crashes t i pc u)
  then have "pc \<noteq> Returning" by auto
  with handler_crashes have "0 < steps_left (crew s ! t)" by (cases pc) auto
  with handler_crashes thread_left_pos show ?thesis by auto
next
  case (handler_returns t i)
  then show ?thesis using move_settles [of t s In_Run] by simp
next
  case (accept_goes_on t p b)
  with accept_code_left show ?thesis
    using move_settles [of t "s\<lparr>the_io_server := b\<rparr>" p] by fastforce
next
  case (thread_leaves t)
  then show ?thesis using move_settles [of t s Left_Run] by simp
qed (use moves in simp_all)

text \<open>Before a stop a thread leaves only when there is nothing to do, and then nothing comes any more.\<close>

fun pool_ok :: "nat \<Rightarrow> ub + pooled_server \<Rightarrow> bool" where
  "pool_ok n (Inl u) = True"
| "pool_ok n (Inr s) = (length (crew s) = n \<and> workers (the_io_server s) = n \<and>
     (Left_Run \<in> set (crew s) \<longrightarrow> io_stopped (the_io_server s) \<or> out_of_work s))"

lemma out_of_work_step:
  assumes "out_of_work s" "pooled_step size_text fs s r"
  shows "\<exists>t. r = Inr (move_thread t Left_Run s) \<and> t < length (crew s) \<and> crew s ! t = In_Run"
proof -
  have idle: "crew s ! t \<in> {In_Run, Left_Run}" if "t < length (crew s)" for t
    using assms(1) that by (simp add: out_of_work_def list_all_length)
  have pend: "pending (connections (the_io_server s) ! i) = No_Op" if "i < length (connections (the_io_server s))" for i
    using assms(1) that by (simp add: out_of_work_def list_all_length)
  from assms(2) show ?thesis
  proof (cases rule: pooled_step.cases)
    case (operation_completes i ev d c)
    with pend io_completes_pending show ?thesis by blast
  next
    case (bytes_leave i k c)
    with pend on_event_pending show ?thesis by blast
  next
    case (handler_goes_on t i pc pc' c)
    with idle show ?thesis by force
  next
    case (handler_crashes t i pc u)
    with idle show ?thesis by force
  next
    case (handler_returns t i)
    with idle show ?thesis by force
  next
    case (accept_goes_on t p b)
    with idle [of t] show ?thesis by auto
  qed (use assms(1) in \<open>auto simp: out_of_work_def\<close>)
qed

lemma set_move: "t < length (crew s) \<Longrightarrow> Left_Run \<in> set (crew (move_thread t p s)) \<Longrightarrow> p = Left_Run \<or> Left_Run \<in> set (crew s)"
  by (auto simp: move_thread_def dest: set_update_subset_insert [THEN subsetD])

lemma out_of_work_leave: "out_of_work s \<Longrightarrow> t < length (crew s) \<Longrightarrow> out_of_work (move_thread t Left_Run s)"
  by (auto simp: out_of_work_def move_thread_def list_all_iff dest: set_update_subset_insert [THEN subsetD])

lemma accept_code_frame:
  "accept_code p b = (p', b') \<Longrightarrow> accept_pc p \<Longrightarrow> workers b' = workers b \<and> io_stopped b' = io_stopped b \<and> p' \<noteq> Left_Run"
  by (cases p) (auto simp: accept_code_def accept_pc_def split: if_splits)

lemma pool_ok_step:
  assumes ok: "pool_ok n (Inr s)" and step: "pooled_step size_text fs s r"
  shows "pool_ok n r"
proof (cases "out_of_work s")
  case True
  from out_of_work_step [OF True step] ok out_of_work_leave [OF True] show ?thesis by auto
next
  case False
  with ok have left: "Left_Run \<in> set (crew s) \<longrightarrow> io_stopped (the_io_server s)" by simp
  from step show ?thesis
  proof (cases rule: pooled_step.cases)
    case (takes_handler t before i d after)
    with ok left set_move [of t "s\<lparr>posted_handlers := before @ after\<rparr>" "In_Handler i (Begins d)"]
    show ?thesis by auto
  next
    case (takes_accept t e es g)
    with ok left set_move [of t "s\<lparr>posted_accepts := es\<rparr>" "Accept_Begins e g"] show ?thesis by auto
  next
    case (handler_goes_on t i pc pc' c)
    with ok left set_move [of t "put_connection i c s" "In_Handler i pc'"] show ?thesis by auto
  next
    case (handler_returns t i)
    with ok left set_move [of t s In_Run] show ?thesis by auto
  next
    case (accept_goes_on t p b)
    with ok left set_move [of t "s\<lparr>the_io_server := b\<rparr>" p] accept_code_frame [OF accept_goes_on(4,3)]
    show ?thesis by auto
  next
    case (thread_leaves t)
    with ok left False show ?thesis by auto
  qed (use ok left in auto)
qed

lemma pool_ok_crew:
  assumes "pool_ok n r" "crew_step size_text fs r r'"
  shows "pool_ok n r'"
  using assms(2)
proof (cases rule: crew_step.cases)
  case (crew_moves s)
  with assms(1) pool_ok_step show ?thesis by blast
next
  case (crew_stops s)
  with assms(1) show ?thesis by (simp add: pooled_stop_def stop_server_def)
qed

interpretation pool_threads:
  invariant_system "\<lambda>r. \<exists>root g. r = Inr (pooled_start (new_server root n g))" "crew_step size_text fs" "pool_ok n"
  for n size_text fs
proof
  fix r :: "ub + pooled_server"
  assume "\<exists>root g. r = Inr (pooled_start (new_server root n g))"
  then show "pool_ok n r" by (auto simp: pooled_start_def run_server_def new_server_def)
qed (rule pool_ok_crew)

fun settled :: "ub + pooled_server \<Rightarrow> bool" where
  "settled (Inr s) = (io_stopped (the_io_server s) \<or> quiet s)"
| "settled (Inl u) = True"

lemma pool_goes_on:
  assumes ok: "pool_ok n (Inr s)" and n: "0 < n" and go: "\<not> settled (Inr s)"
  shows "\<exists>r. thread_step size_text fs (Inr s) r"
proof (cases "\<exists>t < length (crew s). crew s ! t \<notin> {In_Run, Left_Run}")
  case True
  then obtain t where "t < length (crew s)" "crew s ! t \<notin> {In_Run, Left_Run}" by blast
  from busy_goes_on [OF this] obtain r where "pooled_step size_text fs s r"
    "\<forall>s'. r = Inr s' \<longrightarrow> crew_left r < crew_left (Inr s)" by blast
  then show ?thesis unfolding thread_step_def by (intro exI [of _ r]) auto
next
  case False
  then have idle: "list_all (\<lambda>p. p = In_Run \<or> p = Left_Run) (crew s)" by (auto simp: list_all_length)
  with go have posted: "posted_handlers s \<noteq> [] \<or> posted_accepts s \<noteq> []" by (auto simp: quiet_def)
  with ok go have none: "Left_Run \<notin> set (crew s)" by (auto simp: out_of_work_def)
  from n ok have first: "0 < length (crew s)" by simp
  from nth_mem [OF this] none idle have at_run: "crew s ! 0 = In_Run"
    unfolding list_all_iff by (cases "crew s ! 0 = Left_Run") (simp_all only:, blast+)
  have run: "running s" using ok n go by (simp add: running_def)
  show ?thesis
  proof (cases "posted_handlers s")
    case (Cons x after)
    obtain i d where x: "x = (i, d)" by fastforce
    have free: "list_all (\<lambda>p. \<not> in_handler_of i p) (crew s)" using idle by (auto simp: list_all_iff)
    let ?s = "move_thread 0 (In_Handler i (Begins d)) (s\<lparr>posted_handlers := [] @ after\<rparr>)"
    have "pooled_step size_text fs s (Inr ?s)"
      using takes_handler [OF run first at_run, of "[]" i d after] Cons x free by simp
    moreover have "crew ?s ! 0 \<noteq> crew s ! 0" using first at_run by (simp add: move_thread_def)
    ultimately show ?thesis unfolding thread_step_def by (intro exI [of _ "Inr ?s"]) auto
  next
    case Nil
    with posted obtain e es where es: "posted_accepts s = e # es" by (cases "posted_accepts s") auto
    let ?s = "move_thread 0 (Accept_Begins e undefined) (s\<lparr>posted_accepts := es\<rparr>)"
    have "pooled_step size_text fs s (Inr ?s)" by (rule takes_accept [OF run first at_run es])
    moreover have "crew ?s ! 0 \<noteq> crew s ! 0" using first at_run by (simp add: move_thread_def)
    ultimately show ?thesis unfolding thread_step_def by (intro exI [of _ "Inr ?s"]) auto
  qed
qed

interpretation settling: ending_system "thread_step size_text fs" "\<lambda>r. 0 < n \<and> pool_ok n r" settle_left settled
  for size_text fs n
proof
  fix r r'
  assume "0 < n \<and> pool_ok n r" "thread_step size_text fs r r'"
  then show "(0 < n \<and> pool_ok n r') \<and> settle_left r' < settle_left r"
    using pool_ok_step thread_step_settles unfolding thread_step_def by blast
next
  fix r
  assume "0 < n \<and> pool_ok n r" "\<not> settled r"
  then show "\<exists>r'. thread_step size_text fs r r'" using pool_goes_on by (cases r) auto
qed

text \<open>
C12: what is posted is handled. From every state that the server can be in, with at least one
thread, the threads alone, without any event of the network, make a bounded number of steps:
five for each thread and each posted handler. They get stuck only when no handler is posted
or running any more, unless the server was stopped, or a handler had undefined behaviour.
\<close>

theorem pool_settles:
  assumes "(crew_step size_text fs)\<^sup>*\<^sup>* (Inr (pooled_start (new_server root n g))) (Inr s)" and "0 < n"
    and "(thread_step size_text fs ^^ k) (Inr s) r"
  shows "k \<le> 5 * (length (posted_handlers s) + length (posted_accepts s) + n) \<and>
    ((\<exists>r'. thread_step size_text fs r r') \<or>
     (case r of Inl u \<Rightarrow> True | Inr s' \<Rightarrow> io_stopped (the_io_server s') \<or> quiet s'))"
proof -
  have ok: "pool_ok n (Inr s)"
    using pool_threads.inv_rtranclp [OF assms(1)] pool_threads.inv_ini by blast
  from settling.bounded_run [OF assms(3)] ok assms(2)
  have run: "pool_ok n r" "k + settle_left r \<le> settle_left (Inr s)" by blast+
  have "k \<le> 5 * (length (posted_handlers s) + length (posted_accepts s) + n)"
    using run(2) crew_left_bound [of s] ok by simp
  moreover have "(\<exists>r'. thread_step size_text fs r r') \<or> settled r"
    using settling.goes_on run(1) assms(2) by blast
  ultimately show ?thesis by (cases r) auto
qed

theorem pool_settles_witness:
  "\<exists>s r. (thread_step dec_text (\<lambda>p. None) ^^ 1) (Inr s) r \<and> posted_accepts s = [False] \<and> crew s = [In_Run] \<and>
     (\<exists>r'. thread_step dec_text (\<lambda>p. None) r r')"
proof -
  let ?b = "run_server (new_server ''www'' 1 ([], 1, 2, 3))" and ?g = "([], 4, 5, 6) :: unset"
  let ?s = "pooled_start (new_server ''www'' 1 ([], 1, 2, 3))"
  let ?t = "?s\<lparr>the_io_server := ?b\<lparr>accepting := False\<rparr>, posted_accepts := [False]\<rparr>"
  let ?r = "Inr (move_thread 0 (Accept_Begins False ?g) (?t\<lparr>posted_accepts := []\<rparr>)) :: ub + pooled_server"
  note state = pooled_start_def run_server_def new_server_def running_def move_thread_def
  have "crew_step dec_text (\<lambda>p. None) (Inr ?s) (Inr ?t)"
    using accept_completes [of ?s dec_text "\<lambda>p. None" False] by (intro crew_moves) (simp add: state)
  then have reached: "(crew_step dec_text (\<lambda>p. None))\<^sup>*\<^sup>* (Inr ?s) (Inr ?t)" by blast
  have "pooled_step dec_text (\<lambda>p. None) ?t ?r"
    by (intro takes_accept [where e = False]) (simp_all add: state)
  then have run: "(thread_step dec_text (\<lambda>p. None) ^^ 1) (Inr ?t) ?r"
    unfolding relpowp_1 by (simp add: thread_step_def) (simp add: state)
  moreover have "\<exists>r'. thread_step dec_text (\<lambda>p. None) ?r r'"
    using pool_settles [OF reached _ run] by (simp add: state quiet_def)
  moreover have "posted_accepts ?t = [False] \<and> crew ?t = [In_Run]" by (simp add: state)
  ultimately show ?thesis by blast
qed

end
