(* ===== verification/PosixMain.thy ===== *)
theory PosixMain imports PoolProgress
begin

text \<open>
  \<open>full_server/posix_main.cpp\<close>: the arguments, the signal masks of the threads, and the life of
  the HTTP server from its construction to its stop and the end of its threads.
\<close>

section \<open>Signals\<close>

text \<open>
  Signals are numbers from 1 to 64, as on Linux; \<open>sigfillset\<close> leaves out the two that the C library
  keeps for itself, and KILL and STOP cannot be blocked.
\<close>

definition all_signals :: "nat set" where "all_signals = {1..64} - {32, 33}"
definition SIGINT :: nat where "SIGINT = 2"
definition SIGQUIT :: nat where "SIGQUIT = 3"
definition SIGTERM :: nat where "SIGTERM = 15"
definition unblockable :: "nat set" where "unblockable = {9, 19}"

definition block_signals :: "nat set \<Rightarrow> nat set \<Rightarrow> nat set" where
  "block_signals sigs new_sigs = sigs \<union> (new_sigs - unblockable)"

section \<open>The program\<close>

text \<open>
  The main thread's mask, the masks of the threads that run the server, the server and its pool, whether
  the main thread is in \<open>t.join()\<close>, what was written to the two output streams, and the value that
  \<open>main\<close> returns.
\<close>

record main_state =
  main_mask :: "nat set"
  server_masks :: "nat set list"
  the_server :: "pooled_server option"
  joining :: bool
  cout :: "string list"
  cerr :: "string list"
  return_code :: "int option"

definition say :: "string \<Rightarrow> main_state \<Rightarrow> main_state" where
  "say s m = m\<lparr>cout := cout m @ [s]\<rparr>"

definition usage :: "string list" where
  "usage =
     [''Usage: http_server <address> <port> <threads> <doc_root>'', ''  For IPv4, try:'',
      ''    receiver 0.0.0.0 80 1 .'', ''  For IPv6, try:'', ''    receiver 0::0 80 1 .'']"

text \<open>
  The thread that runs the server starts with the mask of the main thread at that moment, and
  so do the threads that it creates, one for each of its pool.
\<close>

definition start_server_thread :: "http_server \<Rightarrow> main_state \<Rightarrow> main_state" where
  "start_server_thread s m =
     m\<lparr>the_server := Some (pooled_start s),
       server_masks := replicate (1 + thread_pool_size s) (main_mask m)\<rparr>"

text \<open>
  The part of \<open>main\<close> before the wait. \<open>lexical\<close> is the conversion of an argument to a number and
  \<open>listen\<close> the opening of the acceptor; both may throw, with a message, and the handler prints it
  and ends the program with zero. \<open>g\<close> is what the first connection leaves unset.
\<close>

definition main_start ::
    "(string \<Rightarrow> string + nat) \<Rightarrow> (string \<Rightarrow> string \<Rightarrow> string option) \<Rightarrow> unset \<Rightarrow> string list \<Rightarrow>
     nat set \<Rightarrow> main_state" where
  "main_start lexical listen g argv sigs =
     (let m = \<lparr>main_mask = sigs, server_masks = [], the_server = None, joining = False, cout = [], cerr = [],
               return_code = None\<rparr>;
          m = say ''Check command line arguments.'' m
      in if length argv \<noteq> 5 then m\<lparr>cerr := usage, return_code := Some 1\<rparr>
         else
           let m = say ''Block all signals for background thread.'' m;
               old_mask = main_mask m;
               m = m\<lparr>main_mask := block_signals old_mask all_signals\<rparr>;
               m = say ''Run server in background thread.'' m
           in case lexical (argv ! 3) of
                Inl e \<Rightarrow> m\<lparr>cerr := [''exception: '' @ e], return_code := Some 0\<rparr>
              | Inr num_threads \<Rightarrow>
                  (case listen (argv ! 1) (argv ! 2) of
                     Some e \<Rightarrow> m\<lparr>cerr := [''exception: '' @ e], return_code := Some 0\<rparr>
                   | None \<Rightarrow>
                       let m = start_server_thread (new_server (argv ! 4) num_threads g) m;
                           m = say ''Restore previous signals.'' m;
                           m = m\<lparr>main_mask := old_mask\<rparr>;
                           m = say ''Wait for signal indicating time to shut down.'' m
                       in m\<lparr>main_mask := block_signals (main_mask m) {SIGINT, SIGQUIT, SIGTERM}\<rparr>))"

text \<open>
  \<open>sigwait\<close> returns when one of the three signals is delivered; then the server is stopped, and
  \<open>t.join()\<close> returns when \<open>run\<close> has joined all its threads.
\<close>

definition main_signal :: "nat \<Rightarrow> main_state \<Rightarrow> main_state option" where
  "main_signal sig m =
     (if return_code m = None \<and> \<not> joining m \<and> sig \<in> {SIGINT, SIGQUIT, SIGTERM}
      then Some (say ''Stop the server.'' (say [] (m\<lparr>the_server := map_option pooled_stop (the_server m), joining := True\<rparr>)))
      else None)"

definition main_joined :: "main_state \<Rightarrow> main_state option" where
  "main_joined m =
     (if return_code m = None \<and> joining m \<and>
         (case the_server m of None \<Rightarrow> False | Some s \<Rightarrow> list_all (\<lambda>p. p = Left_Run) (crew s))
      then Some (say ''BYE BYE'' (say [] (m\<lparr>return_code := Some 0\<rparr>)))
      else None)"

text \<open>The running program: the main thread and the threads of the server.\<close>

inductive main_step ::
    "(nat \<Rightarrow> string) \<Rightarrow> (string \<Rightarrow> string option) \<Rightarrow> ub + main_state \<Rightarrow> ub + main_state \<Rightarrow> bool"
  for size_text :: "nat \<Rightarrow> string" and fs :: "string \<Rightarrow> string option" where
  server_goes_on: "the_server m = Some s \<Longrightarrow> pooled_step size_text fs s (Inr s') \<Longrightarrow>
    main_step size_text fs (Inr m) (Inr (m\<lparr>the_server := Some s'\<rparr>))"
| server_crashes: "the_server m = Some s \<Longrightarrow> pooled_step size_text fs s (Inl u) \<Longrightarrow>
    main_step size_text fs (Inr m) (Inl u)"
| signal_arrives: "main_signal sig m = Some m' \<Longrightarrow> main_step size_text fs (Inr m) (Inr m')"
| main_ends: "main_joined m = Some m' \<Longrightarrow> main_step size_text fs (Inr m) (Inr m')"

section \<open>The signals\<close>

text \<open>
C31: signals reach only the waiting main thread. When the program waits, every thread of the
server blocks all signals that can be blocked, and the main thread waits with the three
signals of a shutdown blocked and its other signals as they were; each of the three stops
the server.
\<close>

theorem shutdown_signals:
  assumes "return_code (main_start lexical listen g argv sigs) = None" and "sig \<in> {SIGINT, SIGQUIT, SIGTERM}"
  shows "list_all (\<lambda>t. all_signals - unblockable \<subseteq> t) (server_masks (main_start lexical listen g argv sigs)) \<and>
    main_mask (main_start lexical listen g argv sigs) = sigs \<union> {SIGINT, SIGQUIT, SIGTERM} \<and>
    (\<exists>s m. the_server (main_start lexical listen g argv sigs) = Some s \<and>
       main_signal sig (main_start lexical listen g argv sigs) = Some m \<and>
       the_server m = Some (pooled_stop s))"
  using assms
  by (auto simp: main_start_def main_signal_def say_def start_server_thread_def block_signals_def
      unblockable_def SIGINT_def SIGQUIT_def SIGTERM_def Let_def list_all_iff
      split: if_splits sum.splits option.splits)

theorem shutdown_signals_witness:
  "\<exists>m s. main_signal SIGINT (main_start (\<lambda>s. Inr 2) (\<lambda>a p. None) ([], 0, 0, 0)
      [''http_server'', ''0.0.0.0'', ''80'', ''2'', ''.''] {}) = Some m \<and> the_server m = Some (pooled_stop s)"
proof -
  have "return_code (main_start (\<lambda>s. Inr 2) (\<lambda>a p. None) ([], 0, 0, 0)
      [''http_server'', ''0.0.0.0'', ''80'', ''2'', ''.''] {}) = None"
    by (simp add: main_start_def say_def start_server_thread_def)
  from shutdown_signals [OF this, of SIGINT] show ?thesis by auto
qed

lemma usage_iff:
  "return_code (main_start lexical listen g argv sigs) = Some 1 \<longleftrightarrow> length argv \<noteq> 5"
  by (simp add: main_start_def say_def start_server_thread_def Let_def split: sum.split option.split)

section \<open>The shutdown\<close>

text \<open>
  The invariant of the program from the wait on: there is a server with its \<open>n\<close> threads, it is
  stopped once the main thread joins, and \<open>main\<close> returns only when they have all left.
\<close>

fun main_inv :: "nat \<Rightarrow> ub + main_state \<Rightarrow> bool" where
  "main_inv n (Inl u) = True"
| "main_inv n (Inr m) = (\<exists>s. the_server m = Some s \<and> length (crew s) = n \<and>
     (joining m \<longrightarrow> io_stopped (the_io_server s)) \<and>
     (return_code m \<noteq> None \<longrightarrow> return_code m = Some 0 \<and> joining m \<and> list_all (\<lambda>p. p = Left_Run) (crew s)))"

text \<open>The steps left to the program after the signal: those of the threads, and the end of \<open>main\<close>.\<close>

fun main_left :: "ub + main_state \<Rightarrow> nat" where
  "main_left (Inl u) = 0"
| "main_left (Inr m) =
     (case the_server m of None \<Rightarrow> 0 | Some s \<Rightarrow> crew_left (Inr s)) + (if return_code m = None then 1 else 0)"

fun main_joins :: "ub + main_state \<Rightarrow> bool" where
  "main_joins (Inl u) = True"
| "main_joins (Inr m) = joining m"

lemma all_left_no_step:
  "list_all (\<lambda>p. p = Left_Run) (crew s) \<Longrightarrow> io_stopped (the_io_server s) \<Longrightarrow> \<not> pooled_step size_text fs s r"
  using left_stays by (fastforce simp: list_all_length)

lemma main_inv_step:
  assumes "main_inv n r" "main_step size_text fs r r'"
  shows "main_inv n r'"
  using assms(2)
proof (cases rule: main_step.cases)
  case (server_goes_on m s s')
  with assms(1) all_left_no_step have "return_code m = None" by auto
  with server_goes_on assms(1) pooled_step_crew stopped_step show ?thesis by fastforce
next
  case (signal_arrives sig m m')
  with assms(1) show ?thesis
    by (auto simp: main_signal_def say_def pooled_stop_def stop_server_def split: if_splits)
next
  case (main_ends m m')
  with assms(1) show ?thesis by (auto simp: main_joined_def say_def split: if_splits)
qed simp

lemma main_joins_step:
  assumes "main_inv n r" "main_joins r" "main_step size_text fs r r'"
  shows "main_joins r' \<and> main_left r' < main_left r"
  using assms(3)
proof (cases rule: main_step.cases)
  case (server_goes_on m s s')
  with assms stopped_step show ?thesis by fastforce
next
  case (server_crashes m s u)
  with assms stopped_step [of size_text fs s "Inl u"] show ?thesis by auto
next
  case (signal_arrives sig m m')
  with assms show ?thesis by (auto simp: main_signal_def)
next
  case (main_ends m m')
  with assms show ?thesis by (auto simp: main_joined_def say_def split: if_splits)
qed

lemma main_joins_goes_on:
  assumes "main_inv n (Inr m)" "joining m" "return_code m = None"
  shows "\<exists>r. main_step size_text fs (Inr m) r"
proof -
  from assms obtain s where s: "the_server m = Some s" "io_stopped (the_io_server s)" by auto
  show ?thesis
  proof (cases "list_all (\<lambda>p. p = Left_Run) (crew s)")
    case True
    with assms s have "main_joined m = Some (say ''BYE BYE'' (say [] (m\<lparr>return_code := Some 0\<rparr>)))"
      by (simp add: main_joined_def)
    with main_ends show ?thesis by blast
  next
    case False
    then obtain t where "t < length (crew s)" "crew s ! t \<noteq> Left_Run" by (auto simp: list_all_length)
    from thread_goes_on [OF this s(2)] obtain r where "pooled_step size_text fs s r" by blast
    with s(1) server_goes_on server_crashes show ?thesis by (cases r) blast+
  qed
qed

fun main_over :: "ub + main_state \<Rightarrow> bool" where
  "main_over (Inl u) = True"
| "main_over (Inr m) = (return_code m = Some 0)"

interpretation shutdown: ending_system "main_step size_text fs" "\<lambda>r. main_inv n r \<and> main_joins r" main_left main_over
  for size_text fs n
proof
  fix r r'
  assume "main_inv n r \<and> main_joins r" "main_step size_text fs r r'"
  then show "(main_inv n r' \<and> main_joins r') \<and> main_left r' < main_left r"
    using main_inv_step main_joins_step by blast
next
  fix r
  assume "main_inv n r \<and> main_joins r" "\<not> main_over r"
  then show "\<exists>r'. main_step size_text fs r r'"
    using main_joins_goes_on by (cases r) fastforce+
qed

lemma main_inv_start:
  "return_code (main_start lexical listen g argv sigs) = None \<Longrightarrow> lexical (argv ! 3) = Inr n \<Longrightarrow>
     main_inv n (Inr (main_start lexical listen g argv sigs))"
  by (auto simp: main_start_def say_def start_server_thread_def pooled_start_def new_server_def Let_def
      split: if_splits option.splits)

definition main_waits :: "nat \<Rightarrow> ub + main_state \<Rightarrow> bool" where
  "main_waits n r \<longleftrightarrow> (\<exists>lexical listen g argv sigs. r = Inr (main_start lexical listen g argv sigs) \<and>
     return_code (main_start lexical listen g argv sigs) = None \<and> lexical (argv ! 3) = Inr n)"

interpretation main_program: invariant_system "main_waits n" "main_step size_text fs" "main_inv n"
  for n size_text fs
  by unfold_locales (auto simp: main_waits_def simp del: main_inv.simps intro: main_inv_step main_inv_start)

text \<open>
C13: the shutdown ends, and not too early. Once a signal has stopped the server, at whatever point
of its work each of the \<open>n\<close> threads is, the program makes at most \<open>5 * n + 1\<close> more steps however
it is scheduled, is never stuck before \<open>main\<close> has returned zero (but for undefined behaviour in a
handler), and when \<open>main\<close> returns, which destroys the server, no thread is in a handler of it or
does anything any more.
\<close>

theorem shutdown_completes:
  assumes "return_code (main_start lexical listen g argv sigs) = None" and "lexical (argv ! 3) = Inr n"
    and "(main_step size_text fs)\<^sup>*\<^sup>* (Inr (main_start lexical listen g argv sigs)) (Inr m)"
  shows "(joining m \<longrightarrow> (\<forall>k r. (main_step size_text fs ^^ k) (Inr m) r \<longrightarrow>
        k \<le> 5 * n + 1 \<and>
        ((\<exists>r'. main_step size_text fs r r') \<or> (\<exists>u. r = Inl u) \<or> (\<exists>m'. r = Inr m' \<and> return_code m' = Some 0)))) \<and>
    (return_code m \<noteq> None \<longrightarrow>
       return_code m = Some 0 \<and> (\<exists>s. the_server m = Some s \<and> list_all (\<lambda>p. p = Left_Run) (crew s)) \<and>
       (\<forall>r. \<not> main_step size_text fs (Inr m) r))"
proof -
  have inv: "main_inv n (Inr m)"
    using main_program.inv_rtranclp [OF assms(3)] main_program.inv_ini assms(1,2)
    unfolding main_waits_def by blast
  from inv obtain s where "the_server m = Some s" "length (crew s) = n" by auto
  with crew_left_bound [of s] have bound: "main_left (Inr m) \<le> 5 * n + 1" by simp
  have "k \<le> 5 * n + 1 \<and>
      ((\<exists>r'. main_step size_text fs r r') \<or> (\<exists>u. r = Inl u) \<or> (\<exists>m'. r = Inr m' \<and> return_code m' = Some 0))"
    if "joining m" "(main_step size_text fs ^^ k) (Inr m) r" for k r
  proof -
    from shutdown.bounded_run [OF that(2), of n] that(1) inv have run: "main_inv n r \<and> main_joins r"
      "k + main_left r \<le> main_left (Inr m)" by simp_all
    from shutdown.goes_on [OF run(1)] have "(\<exists>r'. main_step size_text fs r r') \<or> main_over r" by blast
    with run(2) bound show ?thesis by (cases r) auto
  qed
  moreover have "\<not> main_step size_text fs (Inr m) r" if "return_code m \<noteq> None" for r
    using inv that all_left_no_step
    by (fastforce simp: main_signal_def main_joined_def elim!: main_step.cases)
  ultimately show ?thesis using inv by auto
qed

theorem shutdown_completes_witness:
  "\<exists>m m'. joining m \<and> (main_step dec_text (\<lambda>p. None) ^^ 2) (Inr m) (Inr m') \<and> (2 :: nat) \<le> 5 * 1 + 1 \<and>
     return_code m' = Some 0 \<and> last (cout m') = ''BYE BYE''"
proof -
  define st where "st = main_start (\<lambda>s. Inr 1) (\<lambda>a p. None) ([], 0, 0, 0) [''http_server'', ''0.0.0.0'', ''80'', ''1'', ''.''] {}"
  let ?step = "main_step dec_text (\<lambda>p. None)"
  let ?s = "pooled_stop (pooled_start (new_server ''.'' 1 ([], 0, 0, 0)))"
  let ?m = "say ''Stop the server.'' (say [] (st\<lparr>the_server := Some ?s, joining := True\<rparr>))"
  let ?m1 = "?m\<lparr>the_server := Some (move_thread 0 Left_Run ?s)\<rparr>"
  let ?m2 = "say ''BYE BYE'' (say [] (?m1\<lparr>return_code := Some 0\<rparr>))"
  note state = say_def pooled_stop_def pooled_start_def new_server_def stop_server_def run_server_def move_thread_def
  have start: "return_code st = None" "joining st = False"
    "the_server st = Some (pooled_start (new_server ''.'' 1 ([], 0, 0, 0)))"
    by (simp_all add: st_def main_start_def say_def start_server_thread_def Let_def)
  have one: "?step\<^sup>*\<^sup>* (Inr st) (Inr ?m)"
    by (rule r_into_rtranclp, rule signal_arrives [of SIGINT]) (simp add: main_signal_def start)
  have "pooled_step dec_text (\<lambda>p. None) ?s (Inr (move_thread 0 Left_Run ?s))"
    by (rule thread_leaves) (simp_all add: state)
  then have "?step (Inr ?m) (Inr ?m1)"
    using server_goes_on [of ?m ?s] by (simp add: say_def)
  moreover have "?step (Inr ?m1) (Inr ?m2)"
    by (rule main_ends) (simp add: main_joined_def state start)
  ultimately have run: "(?step ^^ 2) (Inr ?m) (Inr ?m2)" by (auto simp: numeral_2_eq_2)
  have joins: "joining ?m" by (simp add: say_def)
  note whole = shutdown_completes [OF start(1) [unfolded st_def] refl one [unfolded st_def], folded st_def]
  from whole [THEN conjunct1, rule_format, OF joins run] have "(2 :: nat) \<le> 5 * 1 + 1" by (rule conjunct1)
  with run joins show ?thesis
    by (intro exI [of _ ?m] exI [of _ ?m2]) (simp add: say_def)
qed

end
