(* ===== verification/EchoExample.thy ===== *)
theory EchoExample imports StdText
begin

text \<open>
  \<open>example/server_blk.cpp\<close> and \<open>client_blk.cpp\<close>: a server that sends back what it reads, and a
  client that sends one line and prints the answer; and \<open>src/IP.cpp\<close>, the address of the host.
\<close>

section \<open>The server\<close>

definition max_length :: nat where "max_length = 1024"

text \<open>
  What a call of \<open>read_some\<close> gives: some bytes, at most a buffer full, the end of the stream, or
  another error. A write takes all its bytes or throws, with a message.
\<close>

datatype read_result = Got string | At_End | Read_Error string

record session_state =
  echoed :: string
  session_cerr :: "string list"

text \<open>
  The loop of \<open>session\<close> on the results of its reads, until one ends it: the bytes written and
  what went to the error stream, and whether it came to its end. \<open>put\<close> tells whether the write
  of some bytes, after those written before, throws.
\<close>

fun session :: "(string \<Rightarrow> string \<Rightarrow> string option) \<Rightarrow> read_result list \<Rightarrow> session_state \<Rightarrow>
    bool \<times> session_state" where
  "session put [] s = (False, s)"
| "session put (At_End # rs) s = (True, s)"
| "session put (Read_Error e # rs) s =
     (True, s\<lparr>session_cerr := session_cerr s @ [''Exception in thread: '' @ e]\<rparr>)"
| "session put (Got bytes # rs) s =
     (case put (echoed s) bytes of
        Some e \<Rightarrow> (True, s\<lparr>session_cerr := session_cerr s @ [''Exception in thread: '' @ e]\<rparr>)
      | None \<Rightarrow> session put rs (s\<lparr>echoed := echoed s @ bytes\<rparr>))"

definition new_session :: session_state where
  "new_session = \<lparr>echoed = [], session_cerr = []\<rparr>"

text \<open>
  The accept loop: each accepted socket gets a session in a thread of its own; a failing accept
  throws out of the function. The sockets are numbered.
\<close>

fun echo_server :: "string option list \<Rightarrow> nat list \<Rightarrow> nat list \<times> string option" where
  "echo_server [] started = (started, None)"
| "echo_server (None # accepts) started = echo_server accepts (started @ [length started])"
| "echo_server (Some e # accepts) started = (started, Some e)"

section \<open>The client\<close>

text \<open>
  \<open>getline\<close> stores the characters before the line feed, at most one less than the array has,
  and the request is that C string.
\<close>

definition client_request :: "string \<Rightarrow> string" where
  "client_request inp = c_str (take (max_length - 1) (takeWhile (\<lambda>c. c \<noteq> LF) inp))"

text \<open>
  The client reads exactly as many bytes as it sent; \<open>answer\<close> is what the server sends before
  it closes the connection. The result is what it prints, and the exception when the answer
  ends early (\<open>eof\<close> is the library's text for it).
\<close>

definition echo_client :: "string \<Rightarrow> string \<Rightarrow> (string \<Rightarrow> string) \<Rightarrow> string \<times> string option" where
  "echo_client eof inp answer =
     (let request = client_request inp; reply = take (length request) (answer request) in
      if length reply < length request then (''Enter message: '', Some eof)
      else (''Enter message: '' @ ''Reply is: '' @ reply @ [LF], None))"

section \<open>Facts\<close>

fun got_bytes :: "read_result list \<Rightarrow> string" where
  "got_bytes [] = []"
| "got_bytes (Got bytes # rs) = bytes @ got_bytes rs"
| "got_bytes (_ # rs) = []"

lemma session_echo:
  "\<forall>a b. put a b = None \<Longrightarrow> echoed (snd (session put rs s)) = echoed s @ got_bytes rs"
  by (induction put rs s rule: session.induct) auto

lemma session_prefix: "prefix (echoed (snd (session put rs s))) (echoed s @ got_bytes rs)"
proof (induction put rs s rule: session.induct)
  case (4 put bytes rs s)
  then show ?case by (cases "put (echoed s) bytes") auto
qed auto

lemma got_bytes_packets: "got_bytes (map Got ps @ rs) = concat ps @ got_bytes rs"
  by (induction ps) auto

section \<open>The property\<close>

text \<open>
C32: the echo, end to end. However the network cuts the client's request into packets, the
session of the server sends back exactly it, and the client prints it: the line that was
entered, up to its first zero byte and at most 1023 bytes of it.
\<close>

theorem echo_round_trip:
  assumes "\<forall>a b. put a b = None" and "\<And>request. concat (packets request) = request"
  shows "echo_client eof inp (\<lambda>request. echoed (snd (session put (map Got (packets request) @ [At_End]) new_session))) =
    (''Enter message: Reply is: '' @ c_str (take 1023 (takeWhile (\<lambda>c. c \<noteq> LF) inp)) @ [LF], None)"
  using assms
  by (simp add: echo_client_def session_echo got_bytes_packets new_session_def client_request_def
      max_length_def)

theorem echo_round_trip_witness:
  "echo_client ''End of file'' (''hello'' @ [LF] @ ''next'')
     (\<lambda>request. echoed (snd (session (\<lambda>a b. None) (map Got (map (\<lambda>c. [c]) request) @ [At_End]) new_session))) =
   (''Enter message: Reply is: hello'' @ [LF], None)"
  using echo_round_trip [of "\<lambda>a b. None" "\<lambda>request. map (\<lambda>c. [c]) request" "''End of file''" "''hello'' @ [LF] @ ''next''"]
  by (simp add: c_str_def)

section \<open>The address of the host\<close>

text \<open>
  The C library calls of \<open>get_host_address\<close>: the name of the host or an error, its entry or
  none, the addresses of the entry as texts. A failure prints which call failed and exits with
  one; the first address is taken without a test.
\<close>

datatype host_result = Exits string int | Address string

definition get_host_address ::
    "string option \<Rightarrow> (string \<Rightarrow> string list option) \<Rightarrow> ub + host_result" where
  "get_host_address hostname gethostbyname =
     (case hostname of
        None \<Rightarrow> Inr (Exits ''gethostname'' 1)
      | Some host \<Rightarrow>
          (case gethostbyname host of
             None \<Rightarrow> Inr (Exits ''gethostbyname'' 1)
           | Some addrs \<Rightarrow>
               (case addrs of [] \<Rightarrow> Inl Null_Dereference | a # as \<Rightarrow> Inr (Address a))))"

end
