(* ===== verification/LockfreeCount.thy ===== *)
theory LockfreeCount imports QueueCalls StdText "HOL-Library.Word"
begin

text \<open>
  \<open>example/lockfree_queue.cpp\<close>: threads that count what they put into a shared queue and threads
  that count what they take out. The queue is Boost's; its \<open>push\<close> and \<open>pop\<close> are parameters, each
  atomic, with the contract \<open>push_pop_queue\<close>. The contract is satisfied by plain lists, and by
  the repository's own \<open>concurrent_queue\<close>.
\<close>

section \<open>State\<close>

definition iterations :: nat where "iterations = 10000000"
definition producer_thread_count :: nat where "producer_thread_count = 4"
definition consumer_thread_count :: nat where "consumer_thread_count = 4"

text \<open>
  The points of the threads. A producer is before its loop test with the index, or holds a
  value that is not pushed yet; a consumer is before a test of \<open>done\<close>, before a \<open>pop\<close>, or before
  an increment, in its first or in its second loop.
\<close>

datatype producer_pc = P_Test nat | P_Push nat "32 word" | P_End

datatype consumer_pc = C_Test | C_Pop | C_Count | C_Drain | C_Drain_Count | C_End

datatype main_pc = M_Join_Producers | M_Set_Done | M_Join_Consumers | M_End

text \<open>The two atomic counters have type \<open>int\<close>; an atomic increment wraps.\<close>

record 'q lf_state =
  the_queue :: 'q
  producer_count :: "32 word"
  consumer_count :: "32 word"
  done_flag :: bool
  producers :: "producer_pc list"
  consumers :: "consumer_pc list"
  main_at :: main_pc
  lf_cout :: "string list"

definition lf_start :: "bool \<Rightarrow> nat \<Rightarrow> nat \<Rightarrow> 'q \<Rightarrow> 'q lf_state" where
  "lf_start is_lock_free np nc q =
     \<lparr>the_queue = q, producer_count = 0, consumer_count = 0, done_flag = False,
      producers = replicate np (P_Test 0), consumers = replicate nc C_Test,
      main_at = M_Join_Producers,
      lf_cout = [''boost::lockfree::queue is '' @ (if is_lock_free then '''' else ''not '') @ ''lockfree'']\<rparr>"

section \<open>Steps\<close>

definition move_producer :: "nat \<Rightarrow> producer_pc \<Rightarrow> 'q lf_state \<Rightarrow> 'q lf_state" where
  "move_producer t p s = s\<lparr>producers := (producers s)[t := p]\<rparr>"

definition move_consumer :: "nat \<Rightarrow> consumer_pc \<Rightarrow> 'q lf_state \<Rightarrow> 'q lf_state" where
  "move_consumer t c s = s\<lparr>consumers := (consumers s)[t := c]\<rparr>"

definition producer :: "(32 word \<Rightarrow> 'q \<Rightarrow> 'q option) \<Rightarrow> nat \<Rightarrow> nat \<Rightarrow> 'q lf_state \<Rightarrow> 'q lf_state option" where
  "producer push n t s =
     (case producers s ! t of
        P_Test i \<Rightarrow>
          if i = n then Some (move_producer t P_End s)
          else let v = producer_count s + 1
               in Some (move_producer t (P_Push i v) (s\<lparr>producer_count := v\<rparr>))
      | P_Push i v \<Rightarrow>
          map_option (\<lambda>q. move_producer t (P_Test (i + 1)) (s\<lparr>the_queue := q\<rparr>)) (push v (the_queue s))
      | P_End \<Rightarrow> None)"

definition pop_step :: "('q \<Rightarrow> (32 word option \<times> 'q) option) \<Rightarrow> nat \<Rightarrow> consumer_pc \<Rightarrow> consumer_pc \<Rightarrow>
    'q lf_state \<Rightarrow> 'q lf_state option" where
  "pop_step pop t taken none_left s =
     map_option (\<lambda>(r, q). move_consumer t (case r of Some v \<Rightarrow> taken | None \<Rightarrow> none_left) (s\<lparr>the_queue := q\<rparr>))
       (pop (the_queue s))"

definition consumer :: "('q \<Rightarrow> (32 word option \<times> 'q) option) \<Rightarrow> nat \<Rightarrow> 'q lf_state \<Rightarrow> 'q lf_state option" where
  "consumer pop t s =
     (case consumers s ! t of
        C_Test \<Rightarrow> Some (move_consumer t (if done_flag s then C_Drain else C_Pop) s)
      | C_Pop \<Rightarrow> pop_step pop t C_Count C_Test s
      | C_Count \<Rightarrow> Some (move_consumer t C_Pop (s\<lparr>consumer_count := consumer_count s + 1\<rparr>))
      | C_Drain \<Rightarrow> pop_step pop t C_Drain_Count C_End s
      | C_Drain_Count \<Rightarrow> Some (move_consumer t C_Drain (s\<lparr>consumer_count := consumer_count s + 1\<rparr>))
      | C_End \<Rightarrow> None)"

definition main_thread :: "'q lf_state \<Rightarrow> 'q lf_state option" where
  "main_thread s =
     (case main_at s of
        M_Join_Producers \<Rightarrow>
          if list_all (\<lambda>p. p = P_End) (producers s) then Some (s\<lparr>main_at := M_Set_Done\<rparr>) else None
      | M_Set_Done \<Rightarrow> Some (s\<lparr>done_flag := True, main_at := M_Join_Consumers\<rparr>)
      | M_Join_Consumers \<Rightarrow>
          if list_all (\<lambda>c. c = C_End) (consumers s)
          then Some (s\<lparr>main_at := M_End,
                       lf_cout := lf_cout s @
                         [''produced '' @ int_text (sint (producer_count s)) @ '' objects.'',
                          ''consumed '' @ int_text (sint (consumer_count s)) @ '' objects.'']\<rparr>)
          else None
      | M_End \<Rightarrow> None)"

text \<open>Any thread can move next. A \<open>push\<close> that fails for want of memory leaves all as it is.\<close>

inductive lf_step :: "(32 word \<Rightarrow> 'q \<Rightarrow> 'q option) \<Rightarrow> ('q \<Rightarrow> (32 word option \<times> 'q) option) \<Rightarrow> nat \<Rightarrow>
    'q lf_state \<Rightarrow> 'q lf_state \<Rightarrow> bool"
  for push :: "32 word \<Rightarrow> 'q \<Rightarrow> 'q option" and pop :: "'q \<Rightarrow> (32 word option \<times> 'q) option" and n :: nat where
  producer_moves: "t < length (producers s) \<Longrightarrow> producer push n t s = Some s' \<Longrightarrow> lf_step push pop n s s'"
| push_fails: "t < length (producers s) \<Longrightarrow> producers s ! t = P_Push i v \<Longrightarrow> lf_step push pop n s s"
| consumer_moves: "t < length (consumers s) \<Longrightarrow> consumer pop t s = Some s' \<Longrightarrow> lf_step push pop n s s'"
| main_moves: "main_thread s = Some s' \<Longrightarrow> lf_step push pop n s s'"

section \<open>The invariant\<close>

text \<open>How often a producer has incremented the counter, and whether it holds a value.\<close>

fun made :: "nat \<Rightarrow> producer_pc \<Rightarrow> nat" where
  "made n (P_Test i) = i"
| "made n (P_Push i v) = i + 1"
| "made n P_End = n"

fun holds :: "producer_pc \<Rightarrow> bool" where
  "holds (P_Push i v) = True"
| "holds p = False"

fun in_range :: "nat \<Rightarrow> producer_pc \<Rightarrow> bool" where
  "in_range n (P_Test i) \<longleftrightarrow> i \<le> n"
| "in_range n (P_Push i v) \<longleftrightarrow> i < n"
| "in_range n P_End \<longleftrightarrow> True"

definition counting :: "consumer_pc \<Rightarrow> bool" where
  "counting c \<longleftrightarrow> c \<in> {C_Count, C_Drain_Count}"

definition draining :: "consumer_pc \<Rightarrow> bool" where
  "draining c \<longleftrightarrow> c \<in> {C_Drain, C_Drain_Count, C_End}"

definition all_made :: "nat \<Rightarrow> 'q lf_state \<Rightarrow> nat" where
  "all_made n s = sum_list (map (made n) (producers s))"

text \<open>What was made is in a producer's hand, in the queue, in a consumer's hand, or counted.\<close>

definition balance :: "('q \<Rightarrow> 32 word list) \<Rightarrow> nat \<Rightarrow> 'q lf_state \<Rightarrow> bool" where
  "balance contents n s \<longleftrightarrow>
     producer_count s = word_of_nat (all_made n s) \<and>
     (\<exists>c. consumer_count s = word_of_nat c \<and>
        all_made n s = tally holds (producers s) + length (contents (the_queue s)) +
          tally counting (consumers s) + c)"

definition phases :: "('q \<Rightarrow> 32 word list) \<Rightarrow> nat \<Rightarrow> 'q lf_state \<Rightarrow> bool" where
  "phases contents n s \<longleftrightarrow>
     (\<forall>p \<in> set (producers s). in_range n p) \<and>
     (main_at s \<noteq> M_Join_Producers \<longrightarrow> (\<forall>p \<in> set (producers s). p = P_End)) \<and>
     (done_flag s \<longleftrightarrow> main_at s \<in> {M_Join_Consumers, M_End}) \<and>
     (\<forall>c \<in> set (consumers s). draining c \<longrightarrow> done_flag s) \<and>
     (C_End \<in> set (consumers s) \<longrightarrow> contents (the_queue s) = []) \<and>
     (main_at s = M_End \<longrightarrow> (\<forall>c \<in> set (consumers s). c = C_End))"

definition printed :: "'q lf_state \<Rightarrow> bool" where
  "printed s \<longleftrightarrow> length (lf_cout s) = (if main_at s = M_End then 3 else 1) \<and>
     (main_at s = M_End \<longrightarrow> tl (lf_cout s) =
        [''produced '' @ int_text (sint (producer_count s)) @ '' objects.'',
         ''consumed '' @ int_text (sint (consumer_count s)) @ '' objects.''])"

definition lf_inv :: "('q \<Rightarrow> bool) \<Rightarrow> ('q \<Rightarrow> 32 word list) \<Rightarrow> nat \<Rightarrow> nat \<Rightarrow> nat \<Rightarrow> 'q lf_state \<Rightarrow> bool" where
  "lf_inv ready contents n np nc s \<longleftrightarrow>
     ready (the_queue s) \<and> length (producers s) = np \<and> length (consumers s) = nc \<and>
     balance contents n s \<and> phases contents n s \<and> printed s"

lemmas inv_defs = lf_inv_def balance_def phases_def printed_def all_made_def

lemma tally_replicate: "tally P (replicate k x) = (if P x then k else 0)"
  by (induction k) (simp_all add: tally_def)

lemma lf_inv_start:
  "ready q \<Longrightarrow> contents q = [] \<Longrightarrow> lf_inv ready contents n np nc (lf_start f np nc q)"
  by (simp add: inv_defs lf_start_def tally_replicate counting_def draining_def sum_list_replicate)


lemma update_mem: "t < length xs \<Longrightarrow> y \<in> set (xs[t := x]) \<Longrightarrow> y = x \<or> y \<in> set xs"
  using set_update_subset_insert [of xs t x] by auto

lemma all_made_move:
  "t < length (producers s) \<Longrightarrow>
     all_made n (move_producer t p s) + made n (producers s ! t) = all_made n s + made n p"
  by (simp add: all_made_def move_producer_def sum_update)

lemma tally_move_producer:
  "t < length (producers s) \<Longrightarrow>
     tally holds (producers (move_producer t p s)) + (if holds (producers s ! t) then 1 else 0) =
     tally holds (producers s) + (if holds p then 1 else 0)"
  by (simp add: move_producer_def tally_update)

lemma tally_move_consumer:
  "t < length (consumers s) \<Longrightarrow>
     tally counting (consumers (move_consumer t c s)) + (if counting (consumers s ! t) then 1 else 0) =
     tally counting (consumers s) + (if counting c then 1 else 0)"
  by (simp add: move_consumer_def tally_update)

lemma producer_kinds:
  assumes "producer push n t s = Some s'"
  obtains (finish) "producers s ! t = P_Test n" "s' = move_producer t P_End s"
  | (make) i where "producers s ! t = P_Test i" "i \<noteq> n"
      "s' = move_producer t (P_Push i (producer_count s + 1)) (s\<lparr>producer_count := producer_count s + 1\<rparr>)"
  | (put) i v q where "producers s ! t = P_Push i v" "push v (the_queue s) = Some q"
      "s' = move_producer t (P_Test (i + 1)) (s\<lparr>the_queue := q\<rparr>)"
  using assms by (auto simp: producer_def Let_def split: producer_pc.splits if_splits)

lemma consumer_kinds:
  assumes "consumer pop t s = Some s'"
  obtains (test) "consumers s ! t = C_Test" "s' = move_consumer t (if done_flag s then C_Drain else C_Pop) s"
  | (pop) r q c where "consumers s ! t \<in> {C_Pop, C_Drain}" "pop (the_queue s) = Some (r, q)"
      "c = (if consumers s ! t = C_Pop then (case r of None \<Rightarrow> C_Test | Some v \<Rightarrow> C_Count)
            else (case r of None \<Rightarrow> C_End | Some v \<Rightarrow> C_Drain_Count))"
      "s' = move_consumer t c (s\<lparr>the_queue := q\<rparr>)"
  | (tick) "counting (consumers s ! t)"
      "s' = move_consumer t (if consumers s ! t = C_Count then C_Pop else C_Drain)
        (s\<lparr>consumer_count := consumer_count s + 1\<rparr>)"
  using assms
  by (auto simp: consumer_def pop_step_def counting_def split: consumer_pc.splits if_splits option.splits prod.splits)

lemma move_simps [simp]:
  "the_queue (move_producer t p s) = the_queue s" "the_queue (move_consumer t c s) = the_queue s"
  "producer_count (move_producer t p s) = producer_count s" "producer_count (move_consumer t c s) = producer_count s"
  "consumer_count (move_producer t p s) = consumer_count s" "consumer_count (move_consumer t c s) = consumer_count s"
  "done_flag (move_producer t p s) = done_flag s" "done_flag (move_consumer t c s) = done_flag s"
  "consumers (move_producer t p s) = consumers s" "producers (move_consumer t c s) = producers s"
  "main_at (move_producer t p s) = main_at s" "main_at (move_consumer t c s) = main_at s"
  "lf_cout (move_producer t p s) = lf_cout s" "lf_cout (move_consumer t c s) = lf_cout s"
  "length (producers (move_producer t p s)) = length (producers s)"
  "length (consumers (move_consumer t c s)) = length (consumers s)"
  by (simp_all add: move_producer_def move_consumer_def)

lemma main_kinds:
  assumes "main_thread s = Some s'"
  obtains (joined_producers) "main_at s = M_Join_Producers" "list_all (\<lambda>p. p = P_End) (producers s)"
      "s' = s\<lparr>main_at := M_Set_Done\<rparr>"
  | (finished) "main_at s = M_Set_Done" "s' = s\<lparr>done_flag := True, main_at := M_Join_Consumers\<rparr>"
  | (joined_consumers) "main_at s = M_Join_Consumers" "list_all (\<lambda>c. c = C_End) (consumers s)"
      "s' = s\<lparr>main_at := M_End,
        lf_cout := lf_cout s @
          [''produced '' @ int_text (sint (producer_count s)) @ '' objects.'',
           ''consumed '' @ int_text (sint (consumer_count s)) @ '' objects.'']\<rparr>"
  using assms unfolding main_thread_def by (cases "main_at s") (simp_all split: if_splits)

lemma producer_running:
  "phases contents n s \<Longrightarrow> t < length (producers s) \<Longrightarrow> producers s ! t \<noteq> P_End \<Longrightarrow> main_at s = M_Join_Producers"
  using nth_mem [of t "producers s"] unfolding phases_def by blast

lemma consumer_running:
  "phases contents n s \<Longrightarrow> t < length (consumers s) \<Longrightarrow> consumers s ! t \<noteq> C_End \<Longrightarrow> main_at s \<noteq> M_End"
  using nth_mem [of t "consumers s"] unfolding phases_def by blast

lemma producer_frame:
  assumes "phases contents n s" "t < length (producers s)" "producer push n t s = Some s'"
  shows "main_at s = M_Join_Producers \<and> main_at s' = main_at s \<and> lf_cout s' = lf_cout s \<and>
    length (producers s') = length (producers s) \<and> consumers s' = consumers s"
  using assms(3)
  by (cases rule: producer_kinds) (simp_all add: producer_running [OF assms(1,2)])

lemma consumer_frame:
  assumes "phases contents n s" "t < length (consumers s)" "consumer pop t s = Some s'"
  shows "main_at s \<noteq> M_End \<and> main_at s' = main_at s \<and> lf_cout s' = lf_cout s \<and>
    length (consumers s') = length (consumers s) \<and> producers s' = producers s"
proof -
  have "consumers s ! t \<noteq> C_End" using assms(3) by (auto simp: consumer_def)
  with assms(3) consumer_running [OF assms(1,2)] show ?thesis by (cases rule: consumer_kinds) simp_all
qed

lemma printed_running: "main_at s \<noteq> M_End \<Longrightarrow> printed s \<longleftrightarrow> length (lf_cout s) = 1"
  by (simp add: printed_def)

text \<open>
  How much is left to do, for the schedule that lets producers go first and consumers only
  when \<open>done\<close> is set.
\<close>

fun p_work :: "nat \<Rightarrow> producer_pc \<Rightarrow> nat" where
  "p_work n (P_Test i) = 4 * (n - i) + 1"
| "p_work n (P_Push i v) = 4 * (n - i)"
| "p_work n P_End = 0"

fun c_work :: "consumer_pc \<Rightarrow> nat" where
  "c_work C_Count = 5"
| "c_work C_Pop = 4"
| "c_work C_Test = 3"
| "c_work C_Drain_Count = 2"
| "c_work C_Drain = 1"
| "c_work C_End = 0"

fun m_work :: "main_pc \<Rightarrow> nat" where
  "m_work M_Join_Producers = 3"
| "m_work M_Set_Done = 2"
| "m_work M_Join_Consumers = 1"
| "m_work M_End = 0"

definition work :: "('q \<Rightarrow> 32 word list) \<Rightarrow> nat \<Rightarrow> 'q lf_state \<Rightarrow> nat" where
  "work contents n s =
     sum_list (map (p_work n) (producers s)) + 2 * length (contents (the_queue s)) +
     sum_list (map c_work (consumers s)) + m_work (main_at s)"

text \<open>The queue of the example holds numbers.\<close>

locale counting_queue = push_pop_queue ready contents push try_pop
  for ready :: "'q \<Rightarrow> bool" and contents :: "'q \<Rightarrow> 32 word list"
    and push :: "32 word \<Rightarrow> 'q \<Rightarrow> 'q option" and try_pop :: "'q \<Rightarrow> (32 word option \<times> 'q) option"
begin

lemma balance_producer:
  assumes "balance contents n s" "t < length (producers s)" "ready (the_queue s)"
    and step: "producer push n t s = Some s'"
  shows "balance contents n s'"
  using step
proof (cases rule: producer_kinds)
  case finish
  with assms all_made_move [of t s n P_End] tally_move_producer [of t s P_End] show ?thesis
    by (auto simp: balance_def all_made_def)
next
  case (make i)
  let ?s = "s\<lparr>producer_count := producer_count s + 1\<rparr>" and ?p = "P_Push i (producer_count s + 1)"
  have "all_made n (move_producer t ?p ?s) = Suc (all_made n s)"
    "tally holds (producers (move_producer t ?p ?s)) = Suc (tally holds (producers s))"
    using make assms(2) all_made_move [of t ?s n ?p] tally_move_producer [of t ?s ?p]
    by (simp_all add: all_made_def)
  with make assms(1) show ?thesis by (auto simp: balance_def)
next
  case (put i v q)
  let ?s = "s\<lparr>the_queue := q\<rparr>" and ?p = "P_Test (i + 1)"
  have "all_made n (move_producer t ?p ?s) = all_made n s"
    "Suc (tally holds (producers (move_producer t ?p ?s))) = tally holds (producers s)"
    using put assms(2) all_made_move [of t ?s n ?p] tally_move_producer [of t ?s ?p]
    by (simp_all add: all_made_def)
  with put assms(1) push_back [OF assms(3) put(2)] show ?thesis by (auto simp: balance_def)
qed

lemma balance_consumer:
  assumes "balance contents n s" "t < length (consumers s)" "ready (the_queue s)"
    and step: "consumer try_pop t s = Some s'"
  shows "balance contents n s'"
  using step
proof (cases rule: consumer_kinds)
  case test
  with assms tally_move_consumer [of t s "if done_flag s then C_Drain else C_Pop"] show ?thesis
    by (auto simp: balance_def all_made_def counting_def)
next
  case (pop r q c)
  let ?s = "s\<lparr>the_queue := q\<rparr>"
  have "tally counting (consumers (move_consumer t c ?s)) + length (contents q) =
      tally counting (consumers s) + length (contents (the_queue s))"
    using pop assms(2) pop_front [OF assms(3) pop(2)] tally_move_consumer [of t ?s c]
    by (auto simp: counting_def split: option.splits if_splits)
  with pop assms(1) show ?thesis by (auto simp: balance_def all_made_def)
next
  case tick
  let ?s = "s\<lparr>consumer_count := consumer_count s + 1\<rparr>"
    and ?c = "if consumers s ! t = C_Count then C_Pop else C_Drain"
  from assms(1) obtain c where c: "producer_count s = word_of_nat (all_made n s)"
    "consumer_count s = word_of_nat c"
    "all_made n s = tally holds (producers s) + length (contents (the_queue s)) + tally counting (consumers s) + c"
    unfolding balance_def by blast
  have "Suc (tally counting (consumers (move_consumer t ?c ?s))) = tally counting (consumers s)"
    using tick assms(2) tally_move_consumer [of t ?s ?c] by (auto simp: counting_def split: if_splits)
  with tick c show ?thesis
    by (auto simp: balance_def all_made_def intro!: exI [of _ "Suc c"])
qed

lemma phases_producer:
  assumes "phases contents n s" "t < length (producers s)" "ready (the_queue s)"
    and step: "producer push n t s = Some s'"
  shows "phases contents n s'"
proof -
  have p: "producers s ! t \<in> set (producers s)" using assms(2) by simp
  have early: "main_at s = M_Join_Producers" "\<not> done_flag s" "C_End \<notin> set (consumers s)"
    using step assms(1) p
    by (cases rule: producer_kinds; auto simp: phases_def draining_def)+
  have flow: "main_at s' = main_at s" "done_flag s' = done_flag s" "consumers s' = consumers s"
    using step by (cases rule: producer_kinds; simp)+
  have "in_range n q" if "q \<in> set (producers s')" for q
    using step
  proof (cases rule: producer_kinds)
    case finish
    with that assms(1,2) show ?thesis
      by (auto simp: move_producer_def phases_def dest!: update_mem [OF assms(2)])
  next
    case (make i)
    with assms(1) p have "in_range n (P_Test i)" by (auto simp: phases_def)
    with make that assms(1) show ?thesis
      by (auto simp: move_producer_def phases_def dest!: update_mem [OF assms(2)])
  next
    case (put i v q')
    with assms(1) p have "in_range n (P_Push i v)" by (auto simp: phases_def)
    with put that assms(1) show ?thesis
      by (auto simp: move_producer_def phases_def dest!: update_mem [OF assms(2)])
  qed
  with assms(1) early flow show ?thesis by (simp add: phases_def)
qed

lemma phases_consumer:
  assumes "phases contents n s" "t < length (consumers s)" "ready (the_queue s)"
    and step: "consumer try_pop t s = Some s'"
  shows "phases contents n s'"
proof -
  have c: "consumers s ! t \<in> set (consumers s)" using assms(2) by simp
  have flow: "main_at s' = main_at s" "done_flag s' = done_flag s" "producers s' = producers s"
    using step by (cases rule: consumer_kinds; simp)+
  obtain d where d: "consumers s' = (consumers s)[t := d]" "draining d \<longrightarrow> done_flag s"
    "d = C_End \<longrightarrow> contents (the_queue s') = []"
    using step
  proof (cases rule: consumer_kinds)
    case test
    then show ?thesis
      by (intro that [of "if done_flag s then C_Drain else C_Pop"])
        (simp_all add: move_consumer_def draining_def)
  next
    case (pop r q d)
    with assms(1) c have "consumers s ! t = C_Drain \<longrightarrow> done_flag s" by (auto simp: phases_def draining_def)
    with pop pop_front [OF assms(3) pop(2)] show ?thesis
      by (intro that [of d]) (auto simp: move_consumer_def draining_def split: option.splits)
  next
    case tick
    with assms(1) c have "consumers s ! t = C_Drain_Count \<longrightarrow> done_flag s" by (auto simp: phases_def draining_def)
    with tick show ?thesis
      by (intro that [of "if consumers s ! t = C_Count then C_Pop else C_Drain"])
        (auto simp: move_consumer_def draining_def counting_def)
  qed
  have moved: "main_at s \<noteq> M_End"
    using step assms(1) c by (cases rule: consumer_kinds) (auto simp: phases_def counting_def)
  have "contents (the_queue s) = [] \<Longrightarrow> contents (the_queue s') = []"
    using step
  proof (cases rule: consumer_kinds)
    case (pop r q d)
    then show "contents (the_queue s) = [] \<Longrightarrow> ?thesis"
      using pop_front [OF assms(3) pop(2)] by (auto split: option.splits)
  qed simp_all
  with assms(1) d flow moved show ?thesis
    by (auto simp: phases_def dest!: update_mem [OF assms(2)])
qed

lemma ready_producer:
  "ready (the_queue s) \<Longrightarrow> producer push n t s = Some s' \<Longrightarrow> ready (the_queue s')"
  by (erule producer_kinds) (auto dest: push_back)

lemma ready_consumer:
  "ready (the_queue s) \<Longrightarrow> consumer try_pop t s = Some s' \<Longrightarrow> ready (the_queue s')"
  by (erule consumer_kinds) (auto dest: pop_front)

lemma lf_inv_main:
  assumes "lf_inv ready contents n np nc s" "main_thread s = Some s'"
  shows "lf_inv ready contents n np nc s'"
  using assms(2)
proof (cases rule: main_kinds)
  case joined_producers
  with assms(1) show ?thesis by (simp add: inv_defs list_all_iff) blast
next
  case finished
  with assms(1) show ?thesis by (simp add: inv_defs)
next
  case joined_consumers
  with assms(1) show ?thesis by (simp add: inv_defs list_all_iff) (cases "lf_cout s"; simp)
qed

lemma lf_inv_step:
  assumes "lf_inv ready contents n np nc s" "lf_step push try_pop n s s'"
  shows "lf_inv ready contents n np nc s'"
proof -
  have s: "ready (the_queue s)" "length (producers s) = np" "length (consumers s) = nc"
    "balance contents n s" "phases contents n s" "printed s"
    using assms(1) by (simp_all add: lf_inv_def)
  from assms(2) show ?thesis
  proof (cases rule: lf_step.cases)
    case (producer_moves t)
    with s balance_producer [of n s t s'] phases_producer [of n s t s'] ready_producer [of s n t s']
      producer_frame [OF s(5) producer_moves]
    show ?thesis by (simp add: lf_inv_def printed_running)
  next
    case (consumer_moves t)
    with s balance_consumer [of n s t s'] phases_consumer [of n s t s'] ready_consumer [of s t s']
      consumer_frame [OF s(5) consumer_moves]
    show ?thesis by (simp add: lf_inv_def printed_running)
  next
    case main_moves
    with assms(1) lf_inv_main show ?thesis by blast
  qed (use assms(1) in simp)
qed

end

text \<open>So the program is a system with an invariant, for any queue with the contract.\<close>

sublocale counting_queue \<subseteq> counts: invariant_system
    "\<lambda>s. \<exists>f q. ready q \<and> contents q = [] \<and> s = lf_start f np nc q"
    "lf_step push try_pop n" "lf_inv ready contents n np nc" for n np nc
  by unfold_locales (auto intro: lf_inv_start lf_inv_step)

context counting_queue
begin

lemma lf_inv_run:
  assumes "(lf_step push try_pop n)\<^sup>*\<^sup>* (lf_start f np nc q) s" "ready q" "contents q = []"
  shows "lf_inv ready contents n np nc s"
  using counts.inv_rtranclp [OF assms(1), of np nc] lf_inv_start [of ready q contents n np nc f] assms(2,3) by simp

lemma all_end_sums:
  "\<forall>p \<in> set ps. p = P_End \<Longrightarrow> sum_list (map (made n) ps) = length ps * n \<and> tally holds ps = 0"
  by (induction ps) (auto simp: tally_def)

lemma lf_end:
  assumes "lf_inv ready contents n np nc s" "main_at s = M_End" "0 < nc"
  shows "producer_count s = word_of_nat (np * n) \<and> consumer_count s = word_of_nat (np * n)"
proof -
  from assms(1) obtain c where c: "producer_count s = word_of_nat (all_made n s)"
    "consumer_count s = word_of_nat c"
    "all_made n s = tally holds (producers s) + length (contents (the_queue s)) + tally counting (consumers s) + c"
    unfolding lf_inv_def balance_def by blast
  have ps: "\<forall>p \<in> set (producers s). p = P_End" "\<forall>c \<in> set (consumers s). c = C_End"
    "length (producers s) = np" "length (consumers s) = nc"
    using assms by (auto simp: lf_inv_def phases_def)
  then have "C_End \<in> set (consumers s)" using assms(3) by (cases "consumers s") auto
  then have "contents (the_queue s) = []" using assms(1) by (simp add: lf_inv_def phases_def)
  moreover have "tally counting (consumers s) = 0" using ps(2) by (intro tally_zero) (auto simp: counting_def)
  ultimately show ?thesis using c all_end_sums [OF ps(1)] ps(3) by (auto simp: all_made_def)
qed

lemma work_producer:
  assumes "ready (the_queue s)" "t < length (producers s)" "in_range n (producers s ! t)" "producers s ! t \<noteq> P_End"
  shows "\<exists>s'. producer push n t s = Some s' \<and> work contents n s' < work contents n s"
proof (cases "producers s ! t")
  case (P_Test i)
  with assms show ?thesis
    using sum_update [OF assms(2), of "p_work n" "P_End"]
      sum_update [OF assms(2), of "p_work n" "P_Push i (producer_count s + 1)"]
    by (simp add: producer_def work_def move_producer_def Let_def)
next
  case (P_Push i v)
  with assms(3) have i: "i < n" by simp
  from push_law [OF assms(1), of v] obtain q where
    q: "push v (the_queue s) = Some q" "contents q = contents (the_queue s) @ [v]" by blast
  have "4 * (n - i) = 4 * (n - Suc i) + 4" using i by simp
  with sum_update [OF assms(2), of "p_work n" "P_Test (Suc i)"] P_Push q show ?thesis
    by (simp add: producer_def work_def move_producer_def)
qed (use assms in simp)

lemma work_consumer:
  assumes "ready (the_queue s)" "t < length (consumers s)" "done_flag s" "consumers s ! t \<noteq> C_End"
  shows "\<exists>s'. consumer try_pop t s = Some s' \<and> work contents n s' < work contents n s"
proof -
  from try_pop_law [OF assms(1)] obtain q where
    q: "try_pop (the_queue s) = Some (case contents (the_queue s) of [] \<Rightarrow> None | x # xs \<Rightarrow> Some x, q)"
      "contents q = tl (contents (the_queue s))" by blast
  have *: "\<And>d. sum_list (map c_work ((consumers s)[t := d])) + c_work (consumers s ! t) =
      sum_list (map c_work (consumers s)) + c_work d"
    using sum_update [OF assms(2)] by blast
  show ?thesis
    using assms(3,4) q *[of C_Test] *[of C_Pop] *[of C_Count] *[of C_Drain] *[of C_Drain_Count] *[of C_End]
    by (cases "consumers s ! t"; cases "contents (the_queue s)")
      (simp_all add: consumer_def pop_step_def work_def move_consumer_def)
qed

lemma work_main: "main_thread s = Some s' \<Longrightarrow> work contents n s' < work contents n s"
  by (erule main_kinds) (simp_all add: work_def)

lemma work_step:
  assumes "lf_inv ready contents n np nc s" "main_at s \<noteq> M_End"
  shows "\<exists>s'. lf_step push try_pop n s s' \<and> work contents n s' < work contents n s"
proof -
  have main: ?thesis if "main_thread s \<noteq> None"
    using that work_main main_moves by blast
  have s: "ready (the_queue s)" "phases contents n s" using assms(1) by (simp_all add: lf_inv_def)
  show ?thesis
  proof (cases "main_at s")
    case M_Join_Producers
    show ?thesis
    proof (cases "list_all (\<lambda>p. p = P_End) (producers s)")
      case True
      with M_Join_Producers show ?thesis by (intro main) (simp add: main_thread_def)
    next
      case False
      then obtain t where t: "t < length (producers s)" "producers s ! t \<noteq> P_End"
        by (auto simp: list_all_length)
      moreover from t s(2) have "in_range n (producers s ! t)" by (simp add: phases_def)
      ultimately show ?thesis using work_producer [OF s(1)] producer_moves by blast
    qed
  next
    case M_Set_Done
    then show ?thesis by (intro main) (simp add: main_thread_def)
  next
    case M_Join_Consumers
    show ?thesis
    proof (cases "list_all (\<lambda>c. c = C_End) (consumers s)")
      case True
      with M_Join_Consumers show ?thesis by (intro main) (simp add: main_thread_def)
    next
      case False
      then obtain t where "t < length (consumers s)" "consumers s ! t \<noteq> C_End"
        by (auto simp: list_all_length)
      moreover have "done_flag s" using M_Join_Consumers s(2) by (simp add: phases_def)
      ultimately show ?thesis using work_consumer [OF s(1)] consumer_moves by blast
    qed
  qed (use assms in simp)
qed

lemma can_end:
  assumes "lf_inv ready contents n np nc s"
  shows "\<exists>s'. (lf_step push try_pop n)\<^sup>*\<^sup>* s s' \<and> main_at s' = M_End"
  using assms
proof (induction s rule: measure_induct_rule [where f = "work contents n"])
  case (less s)
  show ?case
  proof (cases "main_at s = M_End")
    case False
    with work_step [OF less.prems] obtain s1 where
      s1: "lf_step push try_pop n s s1" "work contents n s1 < work contents n s" by blast
    with less.IH [OF s1(2) lf_inv_step [OF less.prems s1(1)]] show ?thesis
      by (blast intro: converse_rtranclp_into_rtranclp)
  qed blast
qed

end

interpretation list_queue: counting_queue "\<lambda>q. True" "\<lambda>q. q" "\<lambda>v q. Some (q @ [v])"
    "\<lambda>q. Some (case q of [] \<Rightarrow> None | x # xs \<Rightarrow> Some x, tl q)"
  by unfold_locales auto

interpretation locked_queue: counting_queue "idle t" items "call_push t" "call_try_pop t" for t
  by unfold_locales

section \<open>The properties\<close>

lemma int_of_count: "k < 2 ^ 31 \<Longrightarrow> sint (word_of_nat k :: 32 word) = int k"
  by (simp add: signed_of_nat signed_take_bit_int_eq_self_iff)

text \<open>
C16: both counters are right, whatever the interleaving. When the program has printed its
last lines, it has printed the number of threads times the iterations in both of them: no
value is lost or counted twice, although a consumer that finds the queue empty goes on only
while \<open>done\<close> is not set. The product must be an \<open>int\<close>.
\<close>

theorem counts_printed:
  assumes "push_pop_queue ready contents push pop" and "ready q" and "contents q = []"
    and "0 < nc" and "np * n < 2 ^ 31"
    and "(lf_step push pop n)\<^sup>*\<^sup>* (lf_start f np nc q) s" and "main_at s = M_End"
  shows "tl (lf_cout s) =
    [''produced '' @ int_text (int (np * n)) @ '' objects.'', ''consumed '' @ int_text (int (np * n)) @ '' objects.'']"
proof -
  have q: "counting_queue ready contents push pop" using assms(1) by (simp add: counting_queue_def)
  have inv: "lf_inv ready contents n np nc s"
    using counting_queue.lf_inv_run [OF q assms(6,2,3)] .
  from counting_queue.lf_end [OF q inv assms(7,4)] int_of_count [OF assms(5)] inv assms(7)
  show ?thesis by (simp add: lf_inv_def printed_def)
qed

text \<open>Four producers of ten million values, four consumers, and a queue that is a list.\<close>

theorem counts_printed_witness:
  "\<exists>s. (lf_step (\<lambda>v q. Some (q @ [v])) (\<lambda>q. Some (case q of [] \<Rightarrow> None | x # xs \<Rightarrow> Some x, tl q)) iterations)\<^sup>*\<^sup>*
     (lf_start True producer_thread_count consumer_thread_count []) s \<and>
     tl (lf_cout s) = [''produced 40000000 objects.'', ''consumed 40000000 objects.'']"
proof -
  let ?push = "\<lambda>(v :: 32 word) q. Some (q @ [v])"
    and ?pop = "\<lambda>q :: 32 word list. Some (case q of [] \<Rightarrow> None | x # xs \<Rightarrow> Some x, tl q)"
  have start: "lf_inv (\<lambda>q. True) (\<lambda>q. q) iterations 4 4 (lf_start True 4 4 [])"
    by (rule lf_inv_start) simp_all
  from list_queue.can_end [OF start] obtain s where
    s: "(lf_step ?push ?pop iterations)\<^sup>*\<^sup>* (lf_start True 4 4 []) s" "main_at s = M_End" by blast
  have digits: "digit_text 4 = CHR ''4''" "digit_text 0 = CHR ''0''" by code_simp+
  have lit: "int_text (int (4 * iterations)) = ''40000000''"
    by (simp add: iterations_def int_text_def dec_text_def base_text.simps digits)
  from counts_printed [OF list_queue.push_pop_queue_axioms _ _ _ _ s(1) s(2)] s(1) lit show ?thesis
    by (intro exI [of _ s]) (simp add: producer_thread_count_def consumer_thread_count_def iterations_def)
qed

text \<open>
C34: the program can always end. From every state that it reaches, some schedule of the
threads brings it to its end; neither the loops that poll the queue nor the joins can
block it for good.
\<close>

theorem counting_can_end:
  assumes "push_pop_queue ready contents push pop" and "ready q" and "contents q = []"
    and "(lf_step push pop n)\<^sup>*\<^sup>* (lf_start f np nc q) s"
  shows "\<exists>s'. (lf_step push pop n)\<^sup>*\<^sup>* s s' \<and> main_at s' = M_End"
proof -
  have q: "counting_queue ready contents push pop" using assms(1) by (simp add: counting_queue_def)
  have "lf_inv ready contents n np nc s"
    using counting_queue.lf_inv_run [OF q assms(4,2,3)] .
  then show ?thesis by (rule counting_queue.can_end [OF q])
qed

text \<open>The same program on the locked queue of the repository, with one thread that calls it.\<close>

theorem counting_can_end_witness:
  "\<exists>s. (lf_step (call_push 0) (call_try_pop 0) 2)\<^sup>*\<^sup>* (lf_start True 2 1 (new_cq 1)) s \<and> main_at s = M_End"
  using counting_can_end [OF alone.push_pop_queue_axioms, of 0 "new_cq 1" 2 True 2 1
      "lf_start True 2 1 (new_cq 1)"]
  by (simp add: idle_def new_cq_def)

end
