(* ===== verification/LockGuard.thy ===== *)
theory LockGuard imports Prelude
begin

text \<open>
  \<open>example/lock_guard.cpp\<close>: two threads that print a line each, under a mutex that a
  \<open>lock_guard\<close> takes and gives back, and a main thread that joins them.
\<close>

section \<open>The program\<close>

datatype guard_pc = G_Lock | G_Print nat | G_Unlock | G_End

text \<open>The mutex, what was printed, the two threads, and whether \<open>main\<close> has returned.\<close>

record guard_state =
  zzzz :: "nat option"
  guard_cout :: string
  functs :: "guard_pc list"
  returned :: bool

definition guard_start :: guard_state where
  "guard_start = \<lparr>zzzz = None, guard_cout = [], functs = [G_Lock, G_Lock], returned = False\<rparr>"

text \<open>
  Both functions are the same but for the character. Printing a character is one step, in
  which the other thread does not print; \<open>endl\<close> is the step after the loop.
\<close>

definition funct :: "char \<Rightarrow> nat \<Rightarrow> guard_state \<Rightarrow> guard_state option" where
  "funct mark t s =
     (case functs s ! t of
        G_Lock \<Rightarrow>
          if zzzz s = None then Some (s\<lparr>zzzz := Some t, functs := (functs s)[t := G_Print 0]\<rparr>) else None
      | G_Print i \<Rightarrow>
          if i < 50 then Some (s\<lparr>guard_cout := guard_cout s @ [mark], functs := (functs s)[t := G_Print (i + 1)]\<rparr>)
          else Some (s\<lparr>guard_cout := guard_cout s @ [LF], functs := (functs s)[t := G_Unlock]\<rparr>)
      | G_Unlock \<Rightarrow> Some (s\<lparr>zzzz := None, functs := (functs s)[t := G_End]\<rparr>)
      | G_End \<Rightarrow> None)"

definition funct1 :: "guard_state \<Rightarrow> guard_state option" where
  "funct1 = funct (CHR ''?'') 0"

definition funct2 :: "guard_state \<Rightarrow> guard_state option" where
  "funct2 = funct (CHR ''!'') 1"

inductive guard_step :: "guard_state \<Rightarrow> guard_state \<Rightarrow> bool" where
  first_moves: "funct1 s = Some s' \<Longrightarrow> guard_step s s'"
| second_moves: "funct2 s = Some s' \<Longrightarrow> guard_step s s'"
| main_returns: "functs s = [G_End, G_End] \<Longrightarrow> \<not> returned s \<Longrightarrow> guard_step s (s\<lparr>returned := True\<rparr>)"

inductive_simps guard_step_iff: "guard_step s s'"

section \<open>The invariant\<close>

definition guard_line :: "char \<Rightarrow> string" where
  "guard_line mark = replicate 50 mark @ [LF]"

text \<open>What a thread has printed, and whether it is between its lock and its unlock.\<close>

fun part :: "char \<Rightarrow> guard_pc \<Rightarrow> string" where
  "part mark G_Lock = []"
| "part mark (G_Print i) = replicate i mark"
| "part mark G_Unlock = guard_line mark"
| "part mark G_End = guard_line mark"

fun inside :: "guard_pc \<Rightarrow> bool" where
  "inside (G_Print i) \<longleftrightarrow> i \<le> 50"
| "inside G_Unlock \<longleftrightarrow> True"
| "inside p \<longleftrightarrow> False"

text \<open>
  The thread at \<open>p\<close>, number \<open>a\<close>, is first: the other one, at \<open>q\<close>, has not started before it is
  done.
\<close>

definition ordered :: "nat \<Rightarrow> char \<Rightarrow> guard_pc \<Rightarrow> nat \<Rightarrow> char \<Rightarrow> guard_pc \<Rightarrow> guard_state \<Rightarrow> bool" where
  "ordered a x p b y q s \<longleftrightarrow>
     guard_cout s = part x p @ part y q \<and>
     (p = G_Lock \<and> q = G_Lock \<and> zzzz s = None \<or>
      inside p \<and> q = G_Lock \<and> zzzz s = Some a \<or>
      p = G_End \<and> q = G_Lock \<and> zzzz s = None \<or>
      p = G_End \<and> inside q \<and> zzzz s = Some b \<or>
      p = G_End \<and> q = G_End \<and> zzzz s = None)"

definition guard_inv :: "guard_state \<Rightarrow> bool" where
  "guard_inv s \<longleftrightarrow> (\<exists>p q. functs s = [p, q] \<and> (returned s \<longrightarrow> p = G_End \<and> q = G_End) \<and>
     (ordered 0 (CHR ''?'') p 1 (CHR ''!'') q s \<or> ordered 1 (CHR ''!'') q 0 (CHR ''?'') p s))"

lemma ordered_first:
  assumes "funct x a s = Some s'" "functs s ! a = p" "ordered a x p b y q s"
  shows "\<exists>p'. functs s' = (functs s)[a := p'] \<and> ordered a x p' b y q s' \<and> returned s' = returned s \<and> p \<noteq> G_End"
  using assms
  by (cases p) (auto simp: funct_def ordered_def guard_line_def replicate_append_same split: if_splits)

lemma ordered_second:
  assumes "funct y b s = Some s'" "functs s ! b = q" "ordered a x p b y q s" "p \<noteq> G_Lock"
  shows "\<exists>q'. functs s' = (functs s)[b := q'] \<and> ordered a x p b y q' s' \<and> returned s' = returned s \<and> q \<noteq> G_End"
  using assms
  by (cases q) (auto simp: funct_def ordered_def guard_line_def replicate_append_same split: if_splits)

lemma ordered_swap: "ordered a x G_Lock b y q s \<Longrightarrow> ordered b y q a x G_Lock s"
  by (auto simp: ordered_def)

lemma guard_inv_start: "guard_inv guard_start"
  by (simp add: guard_inv_def guard_start_def ordered_def)

text \<open>How many steps a thread has made.\<close>

fun moves :: "guard_pc \<Rightarrow> nat" where
  "moves G_Lock = 0"
| "moves (G_Print i) = 1 + i"
| "moves G_Unlock = 52"
| "moves G_End = 53"

definition all_moves :: "guard_state \<Rightarrow> nat" where
  "all_moves s = sum_list (map moves (functs s)) + (if returned s then 1 else 0)"

lemma moves_funct:
  assumes "funct x t s = Some s'" "t < length (functs s)"
    and "case functs s ! t of G_Print i \<Rightarrow> i \<le> 50 | _ \<Rightarrow> True"
  shows "all_moves s' = Suc (all_moves s)"
proof -
  from assms(1,3) obtain p where "functs s' = (functs s)[t := p]" "moves p = Suc (moves (functs s ! t))"
    "returned s' = returned s"
    by (cases "functs s ! t") (auto simp: funct_def split: if_splits)
  with sum_update [OF assms(2), of moves p] show ?thesis by (simp add: all_moves_def)
qed

text \<open>A step of either thread, from its own point of view: which of the two is first.\<close>

lemma pair_step:
  assumes f: "funct x t s = Some s'" and st: "functs s ! t = p"
    and inv: "ordered t x p u y q s \<or> ordered u y q t x p s"
  shows "\<exists>p'. functs s' = (functs s)[t := p'] \<and> returned s' = returned s \<and> p \<noteq> G_End \<and>
    (ordered t x p' u y q s' \<or> ordered u y q t x p' s')"
proof (cases "ordered t x p u y q s")
  case True
  with ordered_first [OF f st] show ?thesis by blast
next
  case False
  with inv have second: "ordered u y q t x p s" by blast
  have "q \<noteq> G_Lock"
  proof
    assume "q = G_Lock"
    with second ordered_swap [of u y t x p s] False show False by blast
  qed
  with ordered_second [OF f st second] show ?thesis by blast
qed

lemma guard_inv_step:
  assumes "guard_inv s" "guard_step s s'"
  shows "guard_inv s' \<and> all_moves s' = Suc (all_moves s)"
proof -
  from assms(1) obtain p q where pq: "functs s = [p, q]" "returned s \<longrightarrow> p = G_End \<and> q = G_End"
    and ord: "ordered 0 (CHR ''?'') p 1 (CHR ''!'') q s \<or> ordered 1 (CHR ''!'') q 0 (CHR ''?'') p s"
    unfolding guard_inv_def by blast
  from ord have bounds: "case p of G_Print i \<Rightarrow> i \<le> 50 | _ \<Rightarrow> True" "case q of G_Print i \<Rightarrow> i \<le> 50 | _ \<Rightarrow> True"
    by (auto simp: ordered_def split: guard_pc.split)
  from assms(2) show ?thesis
  proof (cases rule: guard_step.cases)
    case first_moves
    then have f: "funct (CHR ''?'') 0 s = Some s'" by (simp add: funct1_def)
    from pair_step [OF f _ ord] pq moves_funct [OF f] bounds show ?thesis
      by (auto simp: guard_inv_def)
  next
    case second_moves
    then have f: "funct (CHR ''!'') 1 s = Some s'" by (simp add: funct2_def)
    have "ordered 1 (CHR ''!'') q 0 (CHR ''?'') p s \<or> ordered 0 (CHR ''?'') p 1 (CHR ''!'') q s" using ord by blast
    from pair_step [OF f _ this] pq moves_funct [OF f] bounds show ?thesis
      by (auto simp: guard_inv_def)
  next
    case main_returns
    with pq ord show ?thesis by (auto simp: guard_inv_def all_moves_def ordered_def)
  qed
qed

lemma guard_inv_run: "(guard_step ^^ k) guard_start s \<Longrightarrow> guard_inv s \<and> all_moves s = k"
proof (induction k arbitrary: s)
  case 0
  then show ?case using guard_inv_start by (auto simp: guard_start_def all_moves_def)
next
  case (Suc k)
  then obtain r where "(guard_step ^^ k) guard_start r" "guard_step r s" by (auto simp: relcompp_apply)
  with Suc.IH [of r] guard_inv_step [of r s] show ?case by simp
qed

text \<open>While \<open>main\<close> has not returned, someone can move.\<close>

lemma guard_moves_on:
  assumes "guard_inv s" "\<not> returned s"
  shows "\<exists>s'. guard_step s s'"
proof -
  from assms(1) obtain p q where pq: "functs s = [p, q]"
    "ordered 0 (CHR ''?'') p 1 (CHR ''!'') q s \<or> ordered 1 (CHR ''!'') q 0 (CHR ''?'') p s"
    unfolding guard_inv_def by blast
  have first: "guard_step s (the (funct1 s))" if "p \<noteq> G_End" "p = G_Lock \<longrightarrow> zzzz s = None"
    using that pq by (intro first_moves) (cases p; simp add: funct1_def funct_def)
  have second: "guard_step s (the (funct2 s))" if "q \<noteq> G_End" "q = G_Lock \<longrightarrow> zzzz s = None"
    using that pq by (intro second_moves) (cases q; simp add: funct2_def funct_def)
  show ?thesis
  proof (cases "p = G_End \<and> q = G_End")
    case True
    with pq assms(2) main_returns show ?thesis by auto
  next
    case False
    with pq(2) have "(p \<noteq> G_End \<and> (p = G_Lock \<longrightarrow> zzzz s = None)) \<or> (q \<noteq> G_End \<and> (q = G_Lock \<longrightarrow> zzzz s = None))"
      by (auto simp: ordered_def)
    with first second show ?thesis by blast
  qed
qed

lemma guard_output:
  assumes "guard_inv s"
  shows "\<exists>x y. {x, y} = {CHR ''?'', CHR ''!''} \<and> prefix (guard_cout s) (guard_line x @ guard_line y) \<and>
    (returned s \<longrightarrow> guard_cout s = guard_line x @ guard_line y)"
proof -
  have pre: "prefix (replicate i x) (guard_line x)" if "i \<le> 50" for i x
    using that unfolding guard_line_def prefix_def
    by (intro exI [of _ "replicate (50 - i) x @ [LF]"]) (simp add: replicate_add [symmetric])
  have start: "prefix (guard_cout s) (guard_line x @ guard_line y)"
    if "ordered a x p b y q s" for a b x y p q
    using that pre by (cases p; cases q) (auto simp: ordered_def intro: prefix_prefix)
  have both: "guard_cout s = guard_line x @ guard_line y" if "ordered a x G_End b y G_End s" for a b x y
    using that by (simp add: ordered_def)
  from assms obtain p q where pq: "returned s \<longrightarrow> p = G_End \<and> q = G_End"
    "ordered 0 (CHR ''?'') p 1 (CHR ''!'') q s \<or> ordered 1 (CHR ''!'') q 0 (CHR ''?'') p s"
    unfolding guard_inv_def by blast
  from pq(2) show ?thesis
  proof
    assume o: "ordered 0 (CHR ''?'') p 1 (CHR ''!'') q s"
    with pq(1) start [OF o] both show ?thesis
      by (intro exI [of _ "CHR ''?''"] exI [of _ "CHR ''!''"]) auto
  next
    assume o: "ordered 1 (CHR ''!'') q 0 (CHR ''?'') p s"
    with pq(1) start [OF o] both show ?thesis
      by (intro exI [of _ "CHR ''!''"] exI [of _ "CHR ''?''"]) auto
  qed
qed

lemma ordered_moves: "ordered a x p b y q s \<Longrightarrow> moves p \<le> 53 \<and> moves q \<le> 53"
  by (cases p; cases q) (auto simp: ordered_def)

section \<open>The property\<close>

text \<open>
C35: the lines are never mixed. Every run of the program, whatever the interleaving, goes on
until \<open>main\<close> returns, after 107 steps; what it has printed is at each moment the start of
the one line and then the other, and all of both when it returns.
\<close>

theorem lines_not_mixed:
  assumes "(guard_step ^^ k) guard_start s"
  shows "k \<le> 107 \<and> (returned s \<longleftrightarrow> k = 107) \<and> (\<not> returned s \<longrightarrow> (\<exists>s'. guard_step s s')) \<and>
    (\<exists>x y. {x, y} = {CHR ''?'', CHR ''!''} \<and> prefix (guard_cout s) (guard_line x @ guard_line y) \<and>
       (returned s \<longrightarrow> guard_cout s = guard_line x @ guard_line y))"
proof -
  from guard_inv_run [OF assms] have inv: "guard_inv s" and k: "all_moves s = k" by simp_all
  from inv obtain p q where pq: "functs s = [p, q]" "returned s \<longrightarrow> p = G_End \<and> q = G_End"
    "ordered 0 (CHR ''?'') p 1 (CHR ''!'') q s \<or> ordered 1 (CHR ''!'') q 0 (CHR ''?'') p s"
    unfolding guard_inv_def by blast
  have "moves p \<le> 53" "moves q \<le> 53"
    using pq(3) ordered_moves by blast+
  with pq k have "k \<le> 107 \<and> (returned s \<longleftrightarrow> k = 107)" by (auto simp: all_moves_def split: if_splits)
  with inv guard_moves_on guard_output show ?thesis by blast
qed

text \<open>There is a run of every length up to that.\<close>

lemma guard_run_exists: "k \<le> 107 \<Longrightarrow> \<exists>s. (guard_step ^^ k) guard_start s"
proof (induction k)
  case (Suc k)
  then obtain s where run: "(guard_step ^^ k) guard_start s" by auto
  with guard_inv_run [OF run] have inv: "guard_inv s" "all_moves s = k" by simp_all
  have "\<not> returned s"
  proof
    assume "returned s"
    with inv(1) have "functs s = [G_End, G_End]" by (auto simp: guard_inv_def)
    with \<open>returned s\<close> inv(2) Suc.prems show False by (simp add: all_moves_def)
  qed
  with guard_moves_on [OF inv(1)] run show ?case by (auto intro: relpowp_Suc_I)
qed auto

theorem lines_not_mixed_witness:
  "\<exists>s. (guard_step ^^ 107) guard_start s \<and> returned s \<and> length (guard_cout s) = 102"
proof -
  from guard_run_exists [of 107] obtain s where run: "(guard_step ^^ 107) guard_start s" by blast
  note all = lines_not_mixed [OF run]
  then have "returned s" by blast
  with all obtain x y where "guard_cout s = guard_line x @ guard_line y" by blast
  then have "length (guard_cout s) = 102" by (simp add: guard_line_def)
  with run \<open>returned s\<close> show ?thesis by blast
qed

end
