(* ===== verification/ThreadPool.thy ===== *)
theory ThreadPool imports Prelude "HOL-Library.Multiset"
begin

text \<open>
  \<open>example/thread_pool.cpp\<close>: jobs that threads of a pool take from an \<open>io_service\<close>, and a main
  thread that waits for the futures of the jobs.
\<close>

section \<open>State\<close>

text \<open>
  The two lines that \<open>sleep_print\<close> writes, before and after it sleeps. A line is one step of the
  model, though the code writes it in pieces, between which another thread may write: the
  model tells which lines are written and in which order they are begun, not how their
  pieces mix.
\<close>

datatype pool_line = Going_To_Sleep nat | Wake_Up nat

text \<open>What \<open>main\<close> does, one statement after the other.\<close>

datatype statement = Sleep_Print nat | Push_Job nat | Wait_For_All

definition main_program :: "statement list" where
  "main_program =
     [Sleep_Print 2, Push_Job 3, Push_Job 4, Wait_For_All,
      Push_Job 3, Push_Job 4, Push_Job 5, Wait_For_All]"

text \<open>
  A thread of the pool is in \<open>run\<close> without a handler, or in a task, with the number of its
  future: before, while and after it sleeps.
\<close>

datatype worker_pc = In_Run | Task_Begins nat nat | Task_Sleeps nat nat | Task_Returns nat

text \<open>
  \<open>pending_data\<close> tells of each future whether it is ready; a posted handler is the number of
  its future and the seconds. The statements that \<open>main\<close> has begun are kept, last first; this
  record of the past is not in the code.
\<close>

record pool =
  posted :: "(nat \<times> nat) list"
  pool_threads :: "worker_pc list"
  pending_data :: "bool list"
  pool_cout :: "pool_line list"
  main_sleeps :: "nat option"
  main_left :: "statement list"
  main_begun :: "statement list"

definition pool_start :: "nat \<Rightarrow> pool" where
  "pool_start hardware_concurrency =
     \<lparr>posted = [], pool_threads = replicate hardware_concurrency In_Run, pending_data = [],
      pool_cout = [], main_sleeps = None, main_left = main_program, main_begun = []\<rparr>"

section \<open>Steps\<close>

definition pool_print :: "pool_line \<Rightarrow> pool \<Rightarrow> pool" where
  "pool_print l s = s\<lparr>pool_cout := pool_cout s @ [l]\<rparr>"

definition push_job :: "nat \<Rightarrow> pool \<Rightarrow> pool" where
  "push_job seconds s =
     s\<lparr>pending_data := pending_data s @ [False], posted := posted s @ [(length (pending_data s), seconds)]\<rparr>"

definition main_statement :: "pool \<Rightarrow> pool option" where
  "main_statement s =
     (case main_sleeps s of
        Some seconds \<Rightarrow> Some (pool_print (Wake_Up seconds) (s\<lparr>main_sleeps := None\<rparr>))
      | None \<Rightarrow>
          (case main_left s of
             [] \<Rightarrow> None
           | a # as \<Rightarrow>
               let s' = s\<lparr>main_left := as, main_begun := a # main_begun s\<rparr> in
               (case a of
                  Sleep_Print seconds \<Rightarrow>
                    Some (pool_print (Going_To_Sleep seconds) (s'\<lparr>main_sleeps := Some seconds\<rparr>))
                | Push_Job seconds \<Rightarrow> Some (push_job seconds s')
                | Wait_For_All \<Rightarrow> if list_all id (pending_data s) then Some s' else None)))"

definition pool_thread :: "nat \<Rightarrow> pool \<Rightarrow> pool option" where
  "pool_thread t s =
     (case pool_threads s ! t of
        In_Run \<Rightarrow>
          (case posted s of
             [] \<Rightarrow> None
           | (k, seconds) # js \<Rightarrow>
               Some (s\<lparr>posted := js, pool_threads := (pool_threads s)[t := Task_Begins k seconds]\<rparr>))
      | Task_Begins k seconds \<Rightarrow>
          Some (pool_print (Going_To_Sleep seconds) (s\<lparr>pool_threads := (pool_threads s)[t := Task_Sleeps k seconds]\<rparr>))
      | Task_Sleeps k seconds \<Rightarrow>
          Some (pool_print (Wake_Up seconds) (s\<lparr>pool_threads := (pool_threads s)[t := Task_Returns k]\<rparr>))
      | Task_Returns k \<Rightarrow>
          Some (s\<lparr>pending_data := (pending_data s)[k := True], pool_threads := (pool_threads s)[t := In_Run]\<rparr>))"

inductive pool_step :: "pool \<Rightarrow> pool \<Rightarrow> bool" where
  main_goes_on: "main_statement s = Some s' \<Longrightarrow> pool_step s s'"
| thread_goes_on: "t < length (pool_threads s) \<Longrightarrow> pool_thread t s = Some s' \<Longrightarrow> pool_step s s'"

definition main_ended :: "pool \<Rightarrow> bool" where
  "main_ended s \<longleftrightarrow> main_left s = [] \<and> main_sleeps s = None"

section \<open>The invariant\<close>

text \<open>The future and the lines still to come of a posted handler and of a thread.\<close>

definition job_lines :: "nat \<Rightarrow> pool_line multiset" where
  "job_lines seconds = {#Going_To_Sleep seconds, Wake_Up seconds#}"

fun worker_ids :: "worker_pc \<Rightarrow> nat multiset" where
  "worker_ids In_Run = {#}"
| "worker_ids (Task_Begins k sec) = {#k#}"
| "worker_ids (Task_Sleeps k sec) = {#k#}"
| "worker_ids (Task_Returns k) = {#k#}"

fun worker_lines :: "worker_pc \<Rightarrow> pool_line multiset" where
  "worker_lines (Task_Begins k sec) = job_lines sec"
| "worker_lines (Task_Sleeps k sec) = {#Wake_Up sec#}"
| "worker_lines w = {#}"

definition open_ids :: "pool \<Rightarrow> nat multiset" where
  "open_ids s = mset (map fst (posted s)) + sum_list (map worker_ids (pool_threads s))"

definition open_lines :: "pool \<Rightarrow> pool_line multiset" where
  "open_lines s = sum_list (map (job_lines \<circ> snd) (posted s)) +
     sum_list (map worker_lines (pool_threads s)) +
     (case main_sleeps s of None \<Rightarrow> {#} | Some sec \<Rightarrow> {#Wake_Up sec#})"

text \<open>The lines of the statements begun since the last wait, and those between earlier waits.\<close>

fun current_lines :: "statement list \<Rightarrow> pool_line multiset" where
  "current_lines [] = {#}"
| "current_lines (Sleep_Print sec # as) = job_lines sec + current_lines as"
| "current_lines (Push_Job sec # as) = job_lines sec + current_lines as"
| "current_lines (Wait_For_All # as) = {#}"

fun closed_lines :: "statement list \<Rightarrow> pool_line multiset list" where
  "closed_lines [] = []"
| "closed_lines (Wait_For_All # as) = closed_lines as @ [current_lines as]"
| "closed_lines (a # as) = closed_lines as"

definition unready :: "bool list \<Rightarrow> nat set" where
  "unready bs = {k. k < length bs \<and> \<not> bs ! k}"

definition printed_batches :: "pool \<Rightarrow> bool" where
  "printed_batches s \<longleftrightarrow> (\<exists>batches rest. pool_cout s = concat batches @ rest \<and>
     map mset batches = closed_lines (main_begun s) \<and>
     mset rest + open_lines s = current_lines (main_begun s))"

definition pool_inv :: "nat \<Rightarrow> pool \<Rightarrow> bool" where
  "pool_inv n s \<longleftrightarrow> length (pool_threads s) = n \<and> rev (main_begun s) @ main_left s = main_program \<and>
     open_ids s = mset_set (unready (pending_data s)) \<and> printed_batches s"

lemma finite_unready [simp]: "finite (unready bs)"
  by (simp add: unready_def)

lemma unready_push: "unready (bs @ [False]) = insert (length bs) (unready bs)"
  by (auto simp: unready_def nth_append less_Suc_eq)

lemma unready_set: "k \<in> unready bs \<Longrightarrow> unready (bs[k := True]) = unready bs - {k}"
  by (auto simp: unready_def nth_list_update split: if_splits)

lemma unready_none: "unready bs = {} \<longleftrightarrow> list_all id bs"
  by (auto simp: unready_def list_all_length)

lemma idle_lines:
  "sum_list (map worker_ids ws) = {#} \<Longrightarrow> sum_list (map worker_lines ws) = {#}"
proof (induction ws)
  case (Cons w ws)
  then show ?case by (cases w) auto
qed simp

lemma closed_open: "open_ids s = {#} \<Longrightarrow> main_sleeps s = None \<Longrightarrow> open_lines s = {#}"
  by (simp add: open_ids_def open_lines_def idle_lines)

lemma pool_inv_start: "pool_inv n (pool_start n)"
  by (simp add: pool_inv_def pool_start_def open_ids_def open_lines_def unready_def printed_batches_def)

lemmas pool_frames = pool_print_def push_job_def open_ids_def open_lines_def printed_batches_def

text \<open>How the output goes on: a line that was open, or nothing new.\<close>

lemma batches_print:
  assumes "printed_batches s" "pool_cout s' = pool_cout s @ [l]"
    "closed_lines (main_begun s') = closed_lines (main_begun s)"
    "open_lines s' + {#l#} + current_lines (main_begun s) = open_lines s + current_lines (main_begun s')"
  shows "printed_batches s'"
proof -
  from assms(1) obtain batches rest where b: "pool_cout s = concat batches @ rest"
    "map mset batches = closed_lines (main_begun s)" "mset rest + open_lines s = current_lines (main_begun s)"
    unfolding printed_batches_def by blast
  have "mset (rest @ [l]) + open_lines s' = current_lines (main_begun s')"
    using assms(4) unfolding b(3) [symmetric] by (simp add: ac_simps)
  with b assms show ?thesis
    unfolding printed_batches_def by (intro exI [of _ batches] exI [of _ "rest @ [l]"]) simp
qed

lemma batches_silent:
  assumes "printed_batches s" "pool_cout s' = pool_cout s"
    "closed_lines (main_begun s') = closed_lines (main_begun s)"
    "open_lines s' + current_lines (main_begun s) = open_lines s + current_lines (main_begun s')"
  shows "printed_batches s'"
proof -
  from assms(1) obtain batches rest where b: "pool_cout s = concat batches @ rest"
    "map mset batches = closed_lines (main_begun s)" "mset rest + open_lines s = current_lines (main_begun s)"
    unfolding printed_batches_def by blast
  have "mset rest + open_lines s' = current_lines (main_begun s')"
    using assms(4) unfolding b(3) [symmetric] by (simp add: ac_simps)
  with b assms show ?thesis
    unfolding printed_batches_def by (intro exI [of _ batches] exI [of _ rest]) simp
qed

lemma batches_wait:
  assumes "printed_batches s" "open_lines s = {#}" "pool_cout s' = pool_cout s"
    "main_begun s' = Wait_For_All # main_begun s" "open_lines s' = {#}"
  shows "printed_batches s'"
proof -
  from assms(1,2) obtain batches rest where "pool_cout s = concat batches @ rest"
    "map mset batches = closed_lines (main_begun s)" "mset rest = current_lines (main_begun s)"
    unfolding printed_batches_def by auto
  with assms show ?thesis
    unfolding printed_batches_def by (intro exI [of _ "batches @ [rest]"] exI [of _ "[]"]) simp
qed

lemma pool_thread_kinds:
  assumes "pool_thread t s = Some s'"
  obtains (take_job) k sec js where "pool_threads s ! t = In_Run" "posted s = (k, sec) # js"
      "s' = s\<lparr>posted := js, pool_threads := (pool_threads s)[t := Task_Begins k sec]\<rparr>"
  | (begins) k sec where "pool_threads s ! t = Task_Begins k sec"
      "s' = pool_print (Going_To_Sleep sec) (s\<lparr>pool_threads := (pool_threads s)[t := Task_Sleeps k sec]\<rparr>)"
  | (wakes) k sec where "pool_threads s ! t = Task_Sleeps k sec"
      "s' = pool_print (Wake_Up sec) (s\<lparr>pool_threads := (pool_threads s)[t := Task_Returns k]\<rparr>)"
  | (returns) k where "pool_threads s ! t = Task_Returns k"
      "s' = s\<lparr>pending_data := (pending_data s)[k := True], pool_threads := (pool_threads s)[t := In_Run]\<rparr>"
  using assms by (auto simp: pool_thread_def split: worker_pc.splits list.splits)

lemma main_kinds_pool:
  assumes "main_statement s = Some s'"
  obtains (awakes) sec where "main_sleeps s = Some sec" "s' = pool_print (Wake_Up sec) (s\<lparr>main_sleeps := None\<rparr>)"
  | (sleeps) sec as where "main_sleeps s = None" "main_left s = Sleep_Print sec # as"
      "s' = pool_print (Going_To_Sleep sec)
         (s\<lparr>main_left := as, main_begun := Sleep_Print sec # main_begun s, main_sleeps := Some sec\<rparr>)"
  | (pushes) sec as where "main_sleeps s = None" "main_left s = Push_Job sec # as"
      "s' = push_job sec (s\<lparr>main_left := as, main_begun := Push_Job sec # main_begun s\<rparr>)"
  | (waits) as where "main_sleeps s = None" "main_left s = Wait_For_All # as" "list_all id (pending_data s)"
      "s' = s\<lparr>main_left := as, main_begun := Wait_For_All # main_begun s\<rparr>"
  using assms
  by (auto simp: main_statement_def Let_def split: option.splits list.splits statement.splits if_splits)

text \<open>Replacing one thread in the sums.\<close>

lemma worker_sums:
  assumes "t < length ws"
  shows "sum_list (map worker_ids (ws[t := w])) + worker_ids (ws ! t) = sum_list (map worker_ids ws) + worker_ids w"
    and "sum_list (map worker_lines (ws[t := w])) + worker_lines (ws ! t) =
      sum_list (map worker_lines ws) + worker_lines w"
  using assms by (simp_all only: sum_update)

lemma batches_thread:
  assumes "printed_batches s" "t < length (pool_threads s)" "pool_thread t s = Some s'"
  shows "printed_batches s'"
  using assms(3)
proof (cases rule: pool_thread_kinds)
  case (take_job k sec js)
  with worker_sums(2) [OF assms(2), of "Task_Begins k sec"] show ?thesis
    by (intro batches_silent [OF assms(1)]) (simp_all add: open_lines_def ac_simps)
next
  case (begins k sec)
  with worker_sums(2) [OF assms(2), of "Task_Sleeps k sec"] show ?thesis
    by (intro batches_print [OF assms(1)]) (simp_all add: pool_frames job_lines_def ac_simps)
next
  case (wakes k sec)
  with worker_sums(2) [OF assms(2), of "Task_Returns k"] show ?thesis
    by (intro batches_print [OF assms(1)]) (simp_all add: pool_frames ac_simps)
next
  case (returns k)
  with worker_sums(2) [OF assms(2), of In_Run] show ?thesis
    by (intro batches_silent [OF assms(1)]) (simp_all add: open_lines_def)
qed

lemma ids_thread:
  assumes "open_ids s = mset_set (unready (pending_data s))" "t < length (pool_threads s)"
    "pool_thread t s = Some s'"
  shows "open_ids s' = mset_set (unready (pending_data s'))"
  using assms(3)
proof (cases rule: pool_thread_kinds)
  case (take_job k sec js)
  with assms(1) worker_sums(1) [OF assms(2), of "Task_Begins k sec"] show ?thesis
    by (simp add: open_ids_def ac_simps)
next
  case (begins k sec)
  with assms(1) worker_sums(1) [OF assms(2), of "Task_Sleeps k sec"] show ?thesis
    by (simp add: pool_frames)
next
  case (wakes k sec)
  with assms(1) worker_sums(1) [OF assms(2), of "Task_Returns k"] show ?thesis
    by (simp add: pool_frames)
next
  case (returns k)
  with worker_sums(1) [OF assms(2), of In_Run] have ids: "open_ids s = add_mset k (open_ids s')"
    by (simp add: open_ids_def)
  then have "k \<in># mset_set (unready (pending_data s))" using assms(1) by simp
  then have k: "k \<in> unready (pending_data s)" by simp
  then have "mset_set (unready (pending_data s)) = add_mset k (mset_set (unready (pending_data s) - {k}))"
    by (intro mset_set.remove) simp_all
  with ids assms(1) returns unready_set [OF k] show ?thesis by simp
qed

lemma pool_inv_step:
  assumes "pool_inv n s" "pool_step s s'"
  shows "pool_inv n s'"
proof -
  have s: "length (pool_threads s) = n" "rev (main_begun s) @ main_left s = main_program"
    "open_ids s = mset_set (unready (pending_data s))" "printed_batches s"
    using assms(1) by (simp_all add: pool_inv_def)
  from assms(2) show ?thesis
  proof (cases rule: pool_step.cases)
    case (thread_goes_on t)
    have "length (pool_threads s') = n \<and> main_begun s' = main_begun s \<and> main_left s' = main_left s"
      using thread_goes_on(2) s(1) by (cases rule: pool_thread_kinds) (simp_all add: pool_print_def)
    with s batches_thread [OF s(4) thread_goes_on] ids_thread [OF s(3) thread_goes_on] show ?thesis
      by (simp add: pool_inv_def)
  next
    case main_goes_on
    then show ?thesis
    proof (cases rule: main_kinds_pool)
      case (awakes sec)
      then have "printed_batches s'"
        by (intro batches_print [OF s(4)]) (simp_all add: pool_print_def open_lines_def)
      with awakes s show ?thesis by (simp add: pool_inv_def pool_print_def open_ids_def)
    next
      case (sleeps sec as)
      then have "printed_batches s'"
        by (intro batches_print [OF s(4)]) (simp_all add: pool_print_def open_lines_def job_lines_def ac_simps)
      with sleeps s show ?thesis by (simp add: pool_inv_def pool_print_def open_ids_def)
    next
      case (pushes sec as)
      then have "printed_batches s'"
        by (intro batches_silent [OF s(4)]) (simp_all add: push_job_def open_lines_def ac_simps)
      moreover have "length (pending_data s) \<notin> unready (pending_data s)" by (simp add: unready_def)
      ultimately show ?thesis using pushes s
        by (simp add: pool_inv_def push_job_def open_ids_def unready_push)
    next
      case (waits as)
      then have "open_ids s = {#}" using s(3) by (simp add: unready_none [symmetric])
      with waits have "open_lines s = {#}" "open_lines s' = {#}"
        using closed_open [of s] by (simp_all add: open_lines_def)
      with waits have "printed_batches s'" by (intro batches_wait [OF s(4)]) simp_all
      with waits s show ?thesis by (simp add: pool_inv_def open_ids_def)
    qed
  qed
qed

section \<open>How long it runs\<close>

text \<open>The steps that are left: those of the statements, of the posted jobs, and of the threads.\<close>

fun statement_steps :: "statement \<Rightarrow> nat" where
  "statement_steps (Sleep_Print sec) = 2"
| "statement_steps (Push_Job sec) = 5"
| "statement_steps Wait_For_All = 1"

fun worker_steps :: "worker_pc \<Rightarrow> nat" where
  "worker_steps In_Run = 0"
| "worker_steps (Task_Begins k sec) = 3"
| "worker_steps (Task_Sleeps k sec) = 2"
| "worker_steps (Task_Returns k) = 1"

definition steps_left :: "pool \<Rightarrow> nat" where
  "steps_left s = sum_list (map statement_steps (main_left s)) + 4 * length (posted s) +
     sum_list (map worker_steps (pool_threads s)) + (if main_sleeps s = None then 0 else 1)"

lemma one_step_less: "pool_step s s' \<Longrightarrow> steps_left s = Suc (steps_left s')"
proof (induction rule: pool_step.induct)
  case (main_goes_on s s')
  then show ?case by (cases rule: main_kinds_pool) (simp_all add: steps_left_def pool_print_def push_job_def)
next
  case (thread_goes_on t s s')
  have *: "\<And>w. sum_list (map worker_steps ((pool_threads s)[t := w])) + worker_steps (pool_threads s ! t) =
      sum_list (map worker_steps (pool_threads s)) + worker_steps w"
    using sum_update [OF thread_goes_on(1)] by blast
  from thread_goes_on(2) show ?case
  proof (cases rule: pool_thread_kinds)
    case (take_job k sec js)
    then show ?thesis using *[of "Task_Begins k sec"] by (simp add: steps_left_def)
  next
    case (begins k sec)
    then show ?thesis using *[of "Task_Sleeps k sec"] by (simp add: steps_left_def pool_print_def)
  next
    case (wakes k sec)
    then show ?thesis using *[of "Task_Returns k"] by (simp add: steps_left_def pool_print_def)
  next
    case (returns k)
    then show ?thesis using *[of In_Run] by (simp add: steps_left_def)
  qed
qed

lemma steps_start: "steps_left (pool_start n) = 29"
proof -
  have "sum_list (map worker_steps (replicate n In_Run)) = 0" by (induction n) simp_all
  then show ?thesis by (simp add: steps_left_def pool_start_def main_program_def)
qed

lemma pool_run: "(pool_step ^^ k) (pool_start n) s \<Longrightarrow> pool_inv n s \<and> steps_left s + k = 29"
proof (induction k arbitrary: s)
  case 0
  then show ?case using pool_inv_start [of n] steps_start by auto
next
  case (Suc k)
  then obtain r where "(pool_step ^^ k) (pool_start n) r" "pool_step r s" by (auto simp: relcompp_apply)
  with Suc.IH [of r] pool_inv_step [of n r s] one_step_less [of r s] show ?case by simp
qed

text \<open>A thread that is in a task can go on; so can one without, when a job is posted.\<close>

lemma thread_can_move:
  "pool_threads s ! t \<noteq> In_Run \<or> posted s \<noteq> [] \<Longrightarrow> \<exists>s'. pool_thread t s = Some s'"
  by (auto simp: pool_thread_def split: worker_pc.split list.split)

lemma idle_ids: "\<forall>w \<in> set ws. w = In_Run \<Longrightarrow> sum_list (map worker_ids ws) = {#}"
  by (induction ws) simp_all

lemma pool_moves_on:
  assumes "pool_inv n s" "0 < n" "\<not> main_ended s"
  shows "\<exists>s'. pool_step s s'"
proof (cases "main_statement s")
  case (Some s')
  then show ?thesis using main_goes_on by blast
next
  case None
  with assms(3) have "\<not> list_all id (pending_data s)"
    by (auto simp: main_statement_def main_ended_def Let_def split: option.splits list.splits statement.splits if_splits)
  then have "unready (pending_data s) \<noteq> {}" by (simp add: unready_none)
  then have "open_ids s \<noteq> {#}" using assms(1) by (simp add: pool_inv_def mset_set_empty_iff)
  then have "posted s \<noteq> [] \<or> sum_list (map worker_ids (pool_threads s)) \<noteq> {#}" by (auto simp: open_ids_def)
  then obtain t where "t < length (pool_threads s)" "pool_threads s ! t \<noteq> In_Run \<or> posted s \<noteq> []"
  proof (elim disjE, goal_cases)
    case 1
    with assms(1,2) show ?thesis by (intro 1(1) [of 0]) (simp_all add: pool_inv_def)
  next
    case 2
    have "\<exists>w \<in> set (pool_threads s). w \<noteq> In_Run"
      using 2(2) idle_ids by blast
    then show ?thesis using 2(1) by (auto simp: in_set_conv_nth)
  qed
  with thread_can_move thread_goes_on show ?thesis by metis
qed

text \<open>Without a thread, \<open>main\<close> stays at its first wait.\<close>

definition no_threads :: "pool \<Rightarrow> bool" where
  "no_threads s \<longleftrightarrow> pool_threads s = [] \<and>
     (main_left s, pending_data s) \<in>
       {(main_program, []), (drop 1 main_program, []), (drop 2 main_program, [False]),
        (drop 3 main_program, [False, False])}"

lemma no_threads_step:
  assumes "no_threads s" "pool_step s s'"
  shows "no_threads s'"
  using assms(2)
proof (cases rule: pool_step.cases)
  case main_goes_on
  then show ?thesis using assms(1)
    by (cases rule: main_kinds_pool) (auto simp: no_threads_def main_program_def pool_print_def push_job_def)
next
  case (thread_goes_on t)
  with assms(1) show ?thesis by (simp add: no_threads_def)
qed

lemma no_threads_run: "(pool_step ^^ k) (pool_start 0) s \<Longrightarrow> no_threads s"
proof (induction k arbitrary: s)
  case 0
  then show ?case by (auto simp: no_threads_def pool_start_def)
next
  case (Suc k)
  then show ?case using no_threads_step by (auto simp: relcompp_apply)
qed

lemma pool_output:
  assumes "pool_inv n s" "main_ended s"
  shows "\<exists>first second. pool_cout s = first @ second \<and>
    mset first = job_lines 2 + job_lines 3 + job_lines 4 \<and> mset second = job_lines 3 + job_lines 4 + job_lines 5"
proof -
  have "rev (main_begun s) = main_program" using assms by (simp add: pool_inv_def main_ended_def)
  then have "main_begun s = rev main_program" by (metis rev_rev_ident)
  then have "closed_lines (main_begun s) =
      [job_lines 4 + (job_lines 3 + job_lines 2), job_lines 5 + (job_lines 4 + job_lines 3)]"
    "current_lines (main_begun s) = {#}"
    by (simp_all add: main_program_def)
  moreover from assms(1) obtain batches rest where "pool_cout s = concat batches @ rest"
    "map mset batches = closed_lines (main_begun s)" "mset rest + open_lines s = current_lines (main_begun s)"
    unfolding pool_inv_def printed_batches_def by blast
  ultimately obtain b1 b2 where "batches = [b1, b2]" "mset b1 = job_lines 2 + job_lines 3 + job_lines 4"
    "mset b2 = job_lines 3 + job_lines 4 + job_lines 5" "pool_cout s = concat batches"
    by (auto simp: map_eq_Cons_conv ac_simps)
  then show ?thesis by (intro exI [of _ b1] exI [of _ b2]) simp
qed

section \<open>The property\<close>

text \<open>
C36: the pool does all jobs, whatever the interleaving. No run is longer than 29 steps, and while
\<open>main\<close> has not ended some thread can go on, if the pool has a thread; when it has ended,
both lines of each of the first two jobs (and of \<open>main\<close>'s own sleep) were printed before any
line of the last three, and both lines of these. On a machine that gives no number for its
processors the pool is empty, and \<open>main\<close> never ends.
\<close>

theorem pool_does_all_jobs:
  assumes "(pool_step ^^ k) (pool_start n) s"
  shows "k \<le> 29 \<and> (0 < n \<and> \<not> main_ended s \<longrightarrow> (\<exists>s'. pool_step s s')) \<and> (n = 0 \<longrightarrow> \<not> main_ended s) \<and>
    (main_ended s \<longrightarrow> (\<exists>first second. pool_cout s = first @ second \<and>
       mset first = job_lines 2 + job_lines 3 + job_lines 4 \<and>
       mset second = job_lines 3 + job_lines 4 + job_lines 5))"
proof -
  from pool_run [OF assms] have inv: "pool_inv n s" and k: "k \<le> 29" by simp_all
  have "\<not> main_ended s" if "n = 0"
    using no_threads_run [of k s] assms that
    by (auto simp: no_threads_def main_ended_def main_program_def)
  with k pool_moves_on [OF inv] pool_output [OF inv] show ?thesis by blast
qed

text \<open>A run of two threads that ends.\<close>

lemma pool_can_end:
  assumes "pool_inv n s" "0 < n"
  shows "\<exists>j s'. (pool_step ^^ j) s s' \<and> main_ended s'"
  using assms(1)
proof (induction s rule: measure_induct_rule [where f = steps_left])
  case (less s)
  show ?case
  proof (cases "main_ended s")
    case True
    then show ?thesis by (intro exI [of _ 0]) auto
  next
    case False
    with pool_moves_on [OF less.prems assms(2)] obtain r where r: "pool_step s r" by blast
    with less.IH [of r] one_step_less [OF r] pool_inv_step [OF less.prems r] obtain j s' where
      "(pool_step ^^ j) r s'" "main_ended s'" by auto
    with r relpowp_Suc_I2 [where P = pool_step and x = s and y = r] show ?thesis by blast
  qed
qed

theorem pool_does_all_jobs_witness:
  "\<exists>s. main_ended s \<and> size (mset (pool_cout s)) = 12"
proof -
  obtain j s where run: "(pool_step ^^ j) (pool_start 2) s" and e: "main_ended s"
    using pool_can_end [OF pool_inv_start [of 2]] by auto
  from pool_does_all_jobs [OF run] e obtain first second where "pool_cout s = first @ second"
    "mset first = job_lines 2 + job_lines 3 + job_lines 4" "mset second = job_lines 3 + job_lines 4 + job_lines 5"
    by blast
  then have "mset (pool_cout s) = job_lines 2 + job_lines 3 + job_lines 4 + (job_lines 3 + job_lines 4 + job_lines 5)"
    by simp
  then have "size (mset (pool_cout s)) = 12" by (simp add: job_lines_def)
  with e show ?thesis by blast
qed

end
