(* ===== verification/RequestShape.thy ===== *)
theory RequestShape imports RequestSafety
begin

text \<open>
  What every request looks like that the parser has built, finished or not, accepted or
  refused: which characters its parts can hold. The handler and whatever reads the headers
  can rely on it.
\<close>

text \<open>The version numbers are those of the fresh request until a slash was read.\<close>

definition wf_fields :: "int \<Rightarrow> int \<Rightarrow> request \<Rightarrow> bool" where
  "wf_fields g1 g2 req \<longleftrightarrow>
     list_all token_char (req_method req) \<and> list_all uri_char (req_uri req) \<and>
     list_all wf_header (headers req) \<and>
     (http_version_major req = g1 \<and> http_version_minor req = g2 \<or>
      0 \<le> http_version_major req \<and> http_version_major req \<le> int_max - 48 \<and>
      0 \<le> http_version_minor req \<and> http_version_minor req \<le> int_max - 48)"

definition past_slash :: "parser_state \<Rightarrow> bool" where
  "past_slash st \<longleftrightarrow> st \<in> {http_version_major_start, http_version_major_digits,
     http_version_minor_start, http_version_minor_digits}"

definition in_headers :: "parser_state \<Rightarrow> bool" where
  "in_headers st \<longleftrightarrow> st \<in> {header_lws, header_name, space_before_header_value, header_value}"

text \<open>The states from the slash on have numbers; those inside a header have a header.\<close>

definition shape_inv :: "int \<Rightarrow> int \<Rightarrow> parser_state \<Rightarrow> request \<Rightarrow> bool" where
  "shape_inv g1 g2 st req \<longleftrightarrow> wf_fields g1 g2 req \<and> st \<noteq> uri_start \<and> (in_headers st \<longrightarrow> headers req \<noteq> []) \<and>
     (past_slash st \<longrightarrow> 0 \<le> http_version_major req \<and> http_version_major req \<le> int_max - 48 \<and>
        0 \<le> http_version_minor req \<and> http_version_minor req \<le> int_max - 48)"

lemma wf_headers_back:
  "list_all wf_header hs \<Longrightarrow> hs \<noteq> [] \<Longrightarrow> list_all wf_header (butlast hs) \<and> wf_header (last hs)"
  by (metis append_butlast_last_id last_in_set list_all_append list_all_iff)

lemma wf_push_name: "wf_header h \<Longrightarrow> token_char c \<Longrightarrow> wf_header (h\<lparr>h_name := h_name h @ [c]\<rparr>)"
  by (simp add: wf_header_def)

lemma wf_push_value: "wf_header h \<Longrightarrow> text_char c \<Longrightarrow> wf_header (h\<lparr>h_value := h_value h @ [c]\<rparr>)"
  by (simp add: wf_header_def)

lemma wf_first_char: "token_char c \<Longrightarrow> wf_header \<lparr>h_name = [c], h_value = []\<rparr>"
  by (simp add: wf_header_def)

lemma digit_at_least: "digit_char c \<Longrightarrow> 48 \<le> char_int c"
  by (simp add: digit_char_def is_digit_def char_simps)

text \<open>One group of states after the other.\<close>

lemma shape_line:
  assumes "shape_inv g1 g2 st req" "consume_request_line st req c = Inr (r, st', req')"
  shows "shape_inv g1 g2 st' req'"
  using assms
  by (cases "(st, req, c)" rule: consume_request_line.cases)
    (auto simp: shape_inv_def past_slash_def in_headers_def continue_in_def refuse_def class_folds
      wf_fields_def uri_char_def split: if_splits)

lemma shape_version:
  assumes "shape_inv g1 g2 st req" "consume_version st req c = Inr (r, st', req')"
  shows "shape_inv g1 g2 st' req'"
  using assms
  by (cases "(st, req, c)" rule: consume_version.cases)
    (auto simp: shape_inv_def past_slash_def in_headers_def continue_in_def refuse_def class_folds
      add_digit_Inr wf_fields_def int_max_def dest: digit_at_least split: if_splits)

lemma shape_headers:
  assumes "shape_inv g1 g2 st req" "consume_headers st req c = Inr (r, st', req')"
  shows "shape_inv g1 g2 st' req'"
  using assms
  by (cases "(st, req, c)" rule: consume_headers.cases)
    (auto simp: shape_inv_def past_slash_def in_headers_def continue_in_def refuse_def class_folds
      wf_fields_def update_back_def push_name_def push_value_def new_header_def wf_headers_back
      wf_push_name wf_push_value wf_first_char
      split: if_splits)

lemma shape_step:
  assumes "shape_inv g1 g2 st req" "consume st req c = Inr (r, st', req')"
  shows "shape_inv g1 g2 st' req'"
  using assms shape_line shape_version shape_headers unfolding consume_def by (metis (full_types))

lemma shape_parse:
  "shape_inv g1 g2 st req \<Longrightarrow> parse st req s = Inr (r, rest, st', req') \<Longrightarrow> shape_inv g1 g2 st' req'"
proof (induction s arbitrary: st req)
  case (Cons c s)
  then show ?case using shape_step [OF Cons.prems(1)] by (fastforce split: if_splits)
qed simp

lemma shape_fresh: "shape_inv g1 g2 method_start (new_request g1 g2)"
  by (simp add: shape_inv_def wf_fields_def new_request_def past_slash_def in_headers_def)

section \<open>The property\<close>

text \<open>
C20: every request has the right types of characters in its parts, after any text and whatever
the parser said of it: a method and header names of token characters, the names not empty,
a URI without spaces and controls, header values without controls; and the two versions are
those that a fresh request has, or both lie between zero and 2147483599.
\<close>

theorem parsed_request_shape:
  "case parse method_start (new_request g1 g2) s of
     Inl u \<Rightarrow> u = Signed_Overflow
   | Inr (result, rest, st, req) \<Rightarrow>
       list_all token_char (req_method req) \<and> list_all uri_char (req_uri req) \<and>
       list_all (\<lambda>h. h_name h \<noteq> [] \<and> list_all token_char (h_name h) \<and> list_all text_char (h_value h)) (headers req) \<and>
       (http_version_major req = g1 \<and> http_version_minor req = g2 \<or>
        {http_version_major req, http_version_minor req} \<subseteq> {0..2147483599})"
proof (cases "parse method_start (new_request g1 g2) s")
  case (Inl u)
  then show ?thesis using parse_crash [OF consumed_fresh] by simp
next
  case (Inr a)
  obtain result rest st req where a: "a = (result, rest, st, req)" by (cases a)
  with Inr shape_parse [OF shape_fresh] have "wf_fields g1 g2 req" by (auto simp: shape_inv_def)
  with Inr a show ?thesis
    by (auto simp: wf_fields_def int_max_def wf_header_def [abs_def])
qed

end
