(* ===== verification/Programs.thy ===== *)
theory Programs imports EchoExample StockService
begin

text \<open>
  The functions \<open>main\<close> of \<open>example/server_blk.cpp\<close>, \<open>example/client_blk.cpp\<close>,
  \<open>ex_serialization/server.cpp\<close> and \<open>ex_serialization/client.cpp\<close>. All have one shape: a test of
  the number of arguments, a body, and a handler that reports an exception.
\<close>

section \<open>The shape\<close>

text \<open>How a body ends; it may also go on for ever, like an accept loop.\<close>

datatype body_end = Body_Returns | Throws string | Goes_On

text \<open>What goes to \<open>std::cerr\<close>, and the value that \<open>main\<close> returns, if it does.\<close>

record program_result =
  prog_cerr :: "string list"
  prog_status :: "int option"

definition guarded_main ::
    "nat \<Rightarrow> string \<Rightarrow> string \<Rightarrow> nat \<Rightarrow> ub + (string list \<times> body_end) \<Rightarrow> ub + program_result" where
  "guarded_main args usage_line lead argc body =
     (if argc \<noteq> args then Inr \<lparr>prog_cerr = [usage_line], prog_status = Some 1\<rparr>
      else bind_res body (\<lambda>(lines, e).
        Inr (case e of
               Body_Returns \<Rightarrow> \<lparr>prog_cerr = lines, prog_status = Some 0\<rparr>
             | Throws what \<Rightarrow> \<lparr>prog_cerr = lines @ [lead @ what], prog_status = Some 0\<rparr>
             | Goes_On \<Rightarrow> \<lparr>prog_cerr = lines, prog_status = None\<rparr>)))"

section \<open>The programs\<close>

text \<open>
  \<open>listen\<close> is the opening of the acceptor on the port of the argument, which may throw;
  \<open>accepts\<close> are the results of the accepts so far.
\<close>

definition echo_server_main :: "nat \<Rightarrow> string option \<Rightarrow> string option list \<Rightarrow> ub + program_result" where
  "echo_server_main argc listen accepts =
     guarded_main 2 ''Usage: blocking_tcp_echo_server <port>'' ''Exception: '' argc
       (Inr ([], case listen of
                   Some e \<Rightarrow> Throws e
                 | None \<Rightarrow> (case snd (echo_server accepts []) of Some e \<Rightarrow> Throws e | None \<Rightarrow> Goes_On)))"

text \<open>\<open>connect\<close> is the resolving and connecting.\<close>

definition echo_client_main ::
    "nat \<Rightarrow> string option \<Rightarrow> string \<Rightarrow> string \<Rightarrow> (string \<Rightarrow> string) \<Rightarrow> ub + program_result" where
  "echo_client_main argc connect eof inp answer =
     guarded_main 3 ''Usage: blocking_tcp_echo_client <host> <port>'' ''Exception: '' argc
       (Inr ([], case connect of
                   Some e \<Rightarrow> Throws e
                 | None \<Rightarrow> (case snd (echo_client eof inp answer) of Some e \<Rightarrow> Throws e | None \<Rightarrow> Body_Returns)))"

text \<open>
  The stock server returns when no accept is waiting any more; \<open>port\<close> is the conversion of its
  argument and \<open>listen\<close> the opening of the acceptor, and \<open>message\<close> the text of an error.
\<close>

definition stock_server_main ::
    "(int \<Rightarrow> nat \<Rightarrow> 'd) \<Rightarrow> ('d stock list \<Rightarrow> string) \<Rightarrow> (wire_error \<Rightarrow> string) \<Rightarrow> nat \<Rightarrow> string + nat \<Rightarrow>
     (nat \<Rightarrow> string option) \<Rightarrow> (wire_error option \<times> string) list \<Rightarrow> ub + program_result" where
  "stock_server_main lit save message argc port listen accepts =
     guarded_main 2 ''Usage: server <port>'' '''' argc
       (Inr (case port of
               Inl e \<Rightarrow> ([], Throws e)
             | Inr n \<Rightarrow>
                 (case listen n of
                    Some e \<Rightarrow> ([], Throws e)
                  | None \<Rightarrow>
                      let s = server_accepts save accepts (new_stock_server lit)
                      in (map message (server_log s), if waiting_accept s then Goes_On else Body_Returns))))"

text \<open>\<open>what\<close> is the text of an exception; undefined behaviour ends everything.\<close>

definition stock_client_main ::
    "nat \<Rightarrow> ('d stock list \<Rightarrow> string \<Rightarrow> 'd stock list \<times> bool) \<Rightarrow> ('d \<Rightarrow> string) \<Rightarrow> string \<Rightarrow>
     ('ep \<Rightarrow> wire_error option) \<Rightarrow> ('ep \<Rightarrow> string) \<Rightarrow> (wire_error \<Rightarrow> string) \<Rightarrow> (fault \<Rightarrow> string) \<Rightarrow> nat \<Rightarrow>
     string + 'ep \<times> 'ep list \<Rightarrow> ub + program_result" where
  "stock_client_main memory load show_d junk connect stream message what argc resolved =
     guarded_main 3 ''Usage: client <host> <port>'' '''' argc
       (case resolved of
          Inl e \<Rightarrow> Inr ([], Throws e)
        | Inr (ep, rest) \<Rightarrow>
            (case run_client memory load show_d junk connect stream ep rest of
               Inl (Undefined u) \<Rightarrow> Inl u
             | Inl f \<Rightarrow> Inr ([], Throws (what f))
             | Inr out \<Rightarrow> Inr (map message (errors out), Body_Returns)))"

section \<open>How they end\<close>

lemma guarded_main_usage: "argc \<noteq> args \<Longrightarrow>
   guarded_main args usage_line lead argc body = Inr \<lparr>prog_cerr = [usage_line], prog_status = Some 1\<rparr>"
  by (simp add: guarded_main_def)

text \<open>The status tells only whether the number of arguments was right: after an exception it is zero.\<close>

lemma guarded_main_status:
  assumes "guarded_main args usage_line lead argc body = Inr r" "prog_status r = Some n"
  shows "n = (if argc \<noteq> args then 1 else 0)"
proof (cases "argc = args")
  case True
  with assms(1) obtain lines e where "body = Inr (lines, e)" by (cases body) (auto simp: guarded_main_def)
  with True assms show ?thesis by (cases e) (auto simp: guarded_main_def)
qed (use assms in \<open>auto simp: guarded_main_def\<close>)

lemma program_status:
  assumes "prog_status r = Some n"
  shows "echo_server_main argc listen accepts = Inr r \<Longrightarrow> n = (if argc \<noteq> 2 then 1 else 0)"
    and "echo_client_main argc reach eof inp answer = Inr r \<Longrightarrow> n = (if argc \<noteq> 3 then 1 else 0)"
    and "stock_server_main lit save message argc port bound sockets = Inr r \<Longrightarrow> n = (if argc \<noteq> 2 then 1 else 0)"
    and "stock_client_main memory load show_d junk connect stream message what argc resolved = Inr r \<Longrightarrow>
      n = (if argc \<noteq> 3 then 1 else 0)"
  using guarded_main_status [OF _ assms]
  unfolding echo_server_main_def echo_client_main_def stock_server_main_def stock_client_main_def by blast+

text \<open>The stock server returns exactly when one of its accepts failed, and then reports that error only.\<close>

fun first_failure :: "(wire_error option \<times> string) list \<Rightarrow> wire_error option" where
  "first_failure [] = None"
| "first_failure ((None, junk) # as) = first_failure as"
| "first_failure ((Some e, junk) # as) = Some e"

lemma accepts_after_failure: "\<not> waiting_accept s \<Longrightarrow> server_accepts save as s = s"
  by (cases as) auto

lemma server_accepts_end:
  "waiting_accept s \<Longrightarrow>
     (case first_failure as of
        None \<Rightarrow> waiting_accept (server_accepts save as s) \<and> server_log (server_accepts save as s) = server_log s
      | Some e \<Rightarrow> \<not> waiting_accept (server_accepts save as s) \<and>
          server_log (server_accepts save as s) = server_log s @ [e])"
proof (induction as arbitrary: s rule: first_failure.induct)
  case (2 junk as)
  let ?s = "server_accept save None junk (s\<lparr>waiting_accept := False\<rparr>)"
  have "waiting_accept ?s" "server_log ?s = server_log s" by (simp_all add: server_accept_def)
  with 2 show ?case by (auto split: option.splits)
qed (simp_all add: server_accept_def accepts_after_failure)

lemma stock_server_main_end:
  "stock_server_main lit save message 2 (Inr n) (\<lambda>n. None) as =
     Inr (case first_failure as of
            None \<Rightarrow> \<lparr>prog_cerr = [], prog_status = None\<rparr>
          | Some e \<Rightarrow> \<lparr>prog_cerr = [message e], prog_status = Some 0\<rparr>)"
  using server_accepts_end [of "new_stock_server lit" save as]
  by (auto simp: stock_server_main_def guarded_main_def new_stock_server_def Let_def split: option.split)

end
