(* ===== verification/SharedPointers.thy ===== *)
theory SharedPointers imports ServiceQueue "HOL-Library.Multiset"
begin

text \<open>
  \<open>test/shared.cpp\<close>, with \<open>array_deleter\<close> of \<open>helpers/helper.hpp\<close>: arrays that are owned by shared
  pointers, in variables, in a vector of pointers and in messages. The heap is explicit: a
  shared array has the number of its owners, its cells (an unset cell of a new array is
  \<open>None\<close>), and how often it was deleted. Numbers are of any type \<open>'v\<close>.
\<close>

section \<open>Shared arrays\<close>

datatype heap_fault = Dangling | Out_Of_Bounds

record 'v shared_array =
  use_count :: nat
  cells :: "'v option list"
  deletions :: nat

type_synonym 'v heap = "'v shared_array list"
type_synonym ptr = "nat option"

text \<open>\<open>shared_ptr(new double[n], array_deleter())\<close>, the copy of a pointer, and its end.\<close>

definition new_shared :: "nat \<Rightarrow> 'v heap \<Rightarrow> ptr \<times> 'v heap" where
  "new_shared n h = (Some (length h), h @ [\<lparr>use_count = 1, cells = replicate n None, deletions = 0\<rparr>])"

definition copy_ptr :: "ptr \<Rightarrow> 'v heap \<Rightarrow> 'v heap" where
  "copy_ptr p h = (case p of None \<Rightarrow> h | Some a \<Rightarrow> h[a := (h ! a)\<lparr>use_count := use_count (h ! a) + 1\<rparr>])"

definition array_deleter :: "'v shared_array \<Rightarrow> 'v shared_array" where
  "array_deleter b = b\<lparr>deletions := deletions b + 1\<rparr>"

definition release_ptr :: "ptr \<Rightarrow> 'v heap \<Rightarrow> 'v heap" where
  "release_ptr p h =
     (case p of
        None \<Rightarrow> h
      | Some a \<Rightarrow>
          let b = (h ! a)\<lparr>use_count := use_count (h ! a) - 1\<rparr>
          in h[a := if use_count b = 0 then array_deleter b else b])"

definition ptr_use_count :: "ptr \<Rightarrow> 'v heap \<Rightarrow> nat" where
  "ptr_use_count p h = (case p of None \<Rightarrow> 0 | Some a \<Rightarrow> use_count (h ! a))"

text \<open>A cell of the array of a pointer; nobody may look into a deleted one.\<close>

definition cell_of :: "ptr \<Rightarrow> nat \<Rightarrow> 'v heap \<Rightarrow> heap_fault + nat" where
  "cell_of p i h =
     (case p of
        None \<Rightarrow> Inl Dangling
      | Some a \<Rightarrow>
          if a \<ge> length h \<or> deletions (h ! a) > 0 then Inl Dangling
          else if i \<ge> length (cells (h ! a)) then Inl Out_Of_Bounds
          else Inr a)"

definition read_cell :: "ptr \<Rightarrow> nat \<Rightarrow> 'v heap \<Rightarrow> heap_fault + 'v option" where
  "read_cell p i h = bind_res (cell_of p i h) (\<lambda>a. Inr (cells (h ! a) ! i))"

definition write_cell :: "ptr \<Rightarrow> nat \<Rightarrow> 'v \<Rightarrow> 'v heap \<Rightarrow> heap_fault + 'v heap" where
  "write_cell p i v h =
     bind_res (cell_of p i h) (\<lambda>a. Inr (h[a := (h ! a)\<lparr>cells := (cells (h ! a))[i := Some v]\<rparr>]))"

section \<open>Messages\<close>

text \<open>\<open>StatusType\<close> has no \<open>WAITING\<close> here.\<close>

datatype shared_status = S_VALID | S_ERROR | S_EMPTY | S_OPEN | S_CLOSED | S_RUNNING | S_STOPPED

record shared_msg =
  sh_type :: msg_type
  sh_status :: shared_status
  sh_sequence :: nat
  sh_data :: ptr
  sh_payload_size :: nat

definition sizeof_double :: nat where "sizeof_double = 8"
definition sizeof_pointer :: nat where "sizeof_pointer = 8"

definition new_shared_msg ::
    "msg_type \<Rightarrow> shared_status \<Rightarrow> nat \<Rightarrow> nat \<Rightarrow> 'v heap \<Rightarrow> shared_msg \<times> 'v heap" where
  "new_shared_msg typ stts seq n h =
     (let (p, h') = new_shared n h
      in (\<lparr>sh_type = typ, sh_status = stts, sh_sequence = seq, sh_data = p,
           sh_payload_size = sizeof_double * n mod 2 ^ 64\<rparr>, h'))"

definition get_msg :: "'v \<Rightarrow> nat \<Rightarrow> 'v heap \<Rightarrow> heap_fault + (shared_msg \<times> 'v heap)" where
  "get_msg five n h =
     (let (foo, h') = new_shared_msg REQUEST S_EMPTY 0 n h
      in bind_res (each (\<lambda>i. write_cell (sh_data foo) i five) [0..<n] h') (\<lambda>h''. Inr (foo, h'')))"

section \<open>The program\<close>

text \<open>The lines it prints, with what they show.\<close>

datatype 'v demo_line =
    Foo_Cell nat ptr "'v option" | Baz_Number nat | Baz_Cell "'v option"
  | Foo_References nat | Foo_Size nat | Baz_Elements nat

record 'v demo =
  heap :: "'v heap"
  foo :: ptr
  bar :: "ptr list"
  baz :: "shared_msg list"
  shown :: "'v demo_line list"

definition show_line :: "'v demo_line \<Rightarrow> 'v demo \<Rightarrow> 'v demo" where
  "show_line l s = s\<lparr>shown := shown s @ [l]\<rparr>"

definition demo_start :: "nat \<Rightarrow> 'v demo" where
  "demo_start n =
     (let (p, h) = new_shared n [] in \<lparr>heap = h, foo = p, bar = [], baz = [], shown = []\<rparr>)"

definition show_foo :: "nat \<Rightarrow> 'v demo \<Rightarrow> heap_fault + 'v demo" where
  "show_foo i s = bind_res (read_cell (foo s) i (heap s)) (\<lambda>v. Inr (show_line (Foo_Cell i (foo s) v) s))"

definition show_baz :: "nat \<Rightarrow> nat \<Rightarrow> 'v demo \<Rightarrow> heap_fault + 'v demo" where
  "show_baz i j s =
     bind_res (read_cell (sh_data (baz s ! i)) j (heap s)) (\<lambda>v. Inr (show_line (Baz_Cell v) s))"

definition push_foo :: "'v demo \<Rightarrow> 'v demo" where
  "push_foo s = s\<lparr>heap := copy_ptr (foo s) (heap s), bar := bar s @ [foo s]\<rparr>"

text \<open>The body of the first loop; the message is moved into the vector.\<close>

definition demo_body :: "(nat \<Rightarrow> 'v) \<Rightarrow> 'v \<Rightarrow> nat \<Rightarrow> nat \<Rightarrow> 'v demo \<Rightarrow> heap_fault + 'v demo" where
  "demo_body recip five n i s =
     bind_res (show_foo i s) (\<lambda>s.
     bind_res (write_cell (foo s) i (recip (i + 1)) (heap s)) (\<lambda>h.
     let s = push_foo (s\<lparr>heap := h\<rparr>) in
     bind_res (get_msg five n (heap s)) (\<lambda>(m, h).
     let s = show_line (Baz_Number i) (s\<lparr>heap := h, baz := baz s @ [m]\<rparr>)
     in each (show_baz i) [0..<n] s)))"

definition clear_bar :: "'v demo \<Rightarrow> 'v demo" where
  "clear_bar s = s\<lparr>heap := fold release_ptr (bar s) (heap s), bar := []\<rparr>"

definition reset_foo :: "'v demo \<Rightarrow> 'v demo" where
  "reset_foo s = s\<lparr>heap := release_ptr (foo s) (heap s), foo := None\<rparr>"

definition clear_baz :: "'v demo \<Rightarrow> 'v demo" where
  "clear_baz s = s\<lparr>heap := fold release_ptr (map sh_data (baz s)) (heap s), baz := []\<rparr>"

definition show_references :: "'v demo \<Rightarrow> 'v demo" where
  "show_references s = show_line (Foo_References (ptr_use_count (foo s) (heap s))) s"

definition demo_end :: "'v demo \<Rightarrow> 'v demo" where
  "demo_end s =
     (let s = show_line (Baz_Elements (length (baz s))) (show_references (clear_bar s))
      in show_references (clear_baz (reset_foo s)))"

definition demo_main :: "(nat \<Rightarrow> 'v) \<Rightarrow> 'v \<Rightarrow> nat \<Rightarrow> heap_fault + 'v demo" where
  "demo_main recip five n =
     bind_res (each (demo_body recip five n) [0..<n] (demo_start n)) (\<lambda>s.
     bind_res (each show_foo [0..<n] (show_line (Foo_Size sizeof_pointer) (show_references s))) (\<lambda>s.
     Inr (demo_end s)))"

section \<open>Owners\<close>

text \<open>
  The owners of the arrays are the pointers of a multiset: every count is the number of
  owners, and an array is deleted when its last owner has gone, once.
\<close>

definition owned :: "'v heap \<Rightarrow> ptr multiset \<Rightarrow> bool" where
  "owned h ps \<longleftrightarrow> (\<forall>a. Some a \<in># ps \<longrightarrow> a < length h) \<and>
     (\<forall>a < length h. use_count (h ! a) = count ps (Some a) \<and>
        deletions (h ! a) = (if Some a \<in># ps then 0 else 1))"

lemma owned_new: "owned h ps \<Longrightarrow> new_shared n h = (p, h') \<Longrightarrow> owned h' (add_mset p ps)"
  by (auto simp: owned_def new_shared_def nth_append less_Suc_eq not_in_iff)

lemma owned_copy: "owned h ps \<Longrightarrow> p \<in># ps \<Longrightarrow> owned (copy_ptr p h) (add_mset p ps)"
  by (auto simp: owned_def copy_ptr_def nth_list_update split: option.splits)

lemma owned_release: "owned h (add_mset p ps) \<Longrightarrow> owned (release_ptr p h) ps"
  by (auto simp: owned_def release_ptr_def array_deleter_def nth_list_update Let_def not_in_iff
      split: option.splits if_splits)

lemma owned_release_all: "owned h (mset as + ps) \<Longrightarrow> owned (fold release_ptr as h) ps"
  by (induction as arbitrary: h) (auto simp: owned_release)

lemma owned_cells:
  "owned h ps \<Longrightarrow> a < length h \<Longrightarrow> owned (h[a := (h ! a)\<lparr>cells := xs\<rparr>]) ps"
  by (auto simp: owned_def nth_list_update)

lemma owned_none: "owned h {#} \<Longrightarrow> \<forall>b \<in> set h. use_count b = 0 \<and> deletions b = 1"
  by (auto simp: owned_def in_set_conv_nth)

lemma owned_cell:
  "owned h ps \<Longrightarrow> Some a \<in># ps \<Longrightarrow> i < length (cells (h ! a)) \<Longrightarrow> cell_of (Some a) i h = Inr a"
  by (auto simp: owned_def cell_of_def)

section \<open>What the program does\<close>

lemma write_cell_owned:
  assumes "owned h ps" "Some a \<in># ps" "i < length (cells (h ! a))"
  shows "\<exists>h'. write_cell (Some a) i v h = Inr h' \<and> owned h' ps \<and> length h' = length h \<and>
    (\<forall>b < length h. cells (h' ! b) = (if b = a then (cells (h ! a))[i := Some v] else cells (h ! b)))"
  using owned_cell [OF assms] owned_cells [OF assms(1), of a "(cells (h ! a))[i := Some v]"] assms(1,2)
  by (auto simp: write_cell_def nth_list_update owned_def)

lemma read_cell_owned:
  "owned h ps \<Longrightarrow> Some a \<in># ps \<Longrightarrow> i < length (cells (h ! a)) \<Longrightarrow> read_cell (Some a) i h = Inr (cells (h ! a) ! i)"
  by (simp add: read_cell_def owned_cell)

lemma fill_next:
  assumes "i < n" "length xs = i"
  shows "(xs @ replicate (n - i) y)[i := x] = (xs @ [x]) @ replicate (n - Suc i) y"
proof -
  from assms(1) have "n - i = Suc (n - Suc i)" by simp
  with assms(2) show ?thesis by (simp add: list_update_append)
qed

lemma get_msg_owned:
  assumes "owned h ps"
  shows "\<exists>m h'. get_msg five n h = Inr (m, h') \<and> sh_data m = Some (length h) \<and>
    owned h' (add_mset (Some (length h)) ps) \<and> length h' = Suc (length h) \<and>
    (\<forall>a < length h. cells (h' ! a) = cells (h ! a)) \<and> cells (h' ! length h) = replicate n (Some five)"
proof -
  let ?p = "Some (length h)" and ?h = "snd (new_shared n h)"
  let ?P = "\<lambda>i h'. owned h' (add_mset ?p ps) \<and> length h' = Suc (length h) \<and>
    (\<forall>a < length h. cells (h' ! a) = cells (h ! a)) \<and>
    cells (h' ! length h) = replicate i (Some five) @ replicate (n - i) None"
  have "\<exists>h'. each (\<lambda>i. write_cell ?p i five) [0..<n] ?h = Inr h' \<and> ?P n h'"
  proof (rule each_upt [where P = ?P])
    show "?P 0 ?h" using owned_new [OF assms, of n] by (simp add: new_shared_def nth_append)
  next
    fix i h' assume i: "i < n" and P: "?P i h'"
    with write_cell_owned [of h' "add_mset ?p ps" "length h" i five]
    show "\<exists>h''. write_cell ?p i five h' = Inr h'' \<and> ?P (Suc i) h''"
      by (auto simp: fill_next replicate_append_same)
  qed
  then show ?thesis by (auto simp: get_msg_def new_shared_msg_def new_shared_def)
qed

text \<open>After \<open>i\<close> rounds of the first loop.\<close>

definition round_lines :: "'v \<Rightarrow> nat \<Rightarrow> nat \<Rightarrow> 'v demo_line list" where
  "round_lines five n i = [Foo_Cell i (Some 0) None, Baz_Number i] @ replicate n (Baz_Cell (Some five))"

definition rounds :: "(nat \<Rightarrow> 'v) \<Rightarrow> 'v \<Rightarrow> nat \<Rightarrow> nat \<Rightarrow> 'v demo \<Rightarrow> bool" where
  "rounds recip five n i s \<longleftrightarrow>
     foo s = Some 0 \<and> bar s = replicate i (Some 0) \<and>
     map sh_data (baz s) = map (\<lambda>k. Some (Suc k)) [0..<i] \<and>
     owned (heap s) (add_mset (Some 0) (mset (bar s) + mset (map sh_data (baz s)))) \<and>
     length (heap s) = Suc i \<and>
     cells (heap s ! 0) = map (\<lambda>k. Some (recip (Suc k))) [0..<i] @ replicate (n - i) None \<and>
     shown s = concat (map (round_lines five n) [0..<i])"

lemma show_baz_loop:
  assumes "owned (heap s) ps" "sh_data (baz s ! i) = Some a" "Some a \<in># ps" "cells (heap s ! a) = replicate n (Some five)"
  shows "each (show_baz i) [0..<n] s = Inr (s\<lparr>shown := shown s @ replicate n (Baz_Cell (Some five))\<rparr>)"
proof -
  have "\<exists>s'. each (show_baz i) [0..<n] s = Inr s' \<and> s' = s\<lparr>shown := shown s @ replicate n (Baz_Cell (Some five))\<rparr>"
  proof (rule each_upt [where P = "\<lambda>j s'. s' = s\<lparr>shown := shown s @ replicate j (Baz_Cell (Some five))\<rparr>"])
    fix j s' assume j: "j < n" and s': "s' = s\<lparr>shown := shown s @ replicate j (Baz_Cell (Some five))\<rparr>"
    from j read_cell_owned [OF assms(1,3), of j] assms(4) have "read_cell (Some a) j (heap s) = Inr (Some five)"
      by simp
    with s' assms(2) show "\<exists>s''. show_baz i j s' = Inr s'' \<and>
        s'' = s\<lparr>shown := shown s @ replicate (Suc j) (Baz_Cell (Some five))\<rparr>"
      by (simp add: show_baz_def show_line_def replicate_append_same [symmetric])
  qed simp
  then show ?thesis by simp
qed

lemma demo_body_round:
  assumes i: "i < n" and s: "rounds recip five n i s"
  shows "\<exists>s'. demo_body recip five n i s = Inr s' \<and> rounds recip five n (Suc i) s'"
proof -
  let ?ps = "add_mset (Some 0) (mset (bar s) + mset (map sh_data (baz s)))"
  let ?cells = "\<lambda>k. map (\<lambda>k. Some (recip (Suc k))) [0..<k] @ replicate (n - k) None"
  from s have foo: "foo s = Some 0" and own: "owned (heap s) ?ps" and len: "length (heap s) = Suc i"
    and cells0: "cells (heap s ! 0) = ?cells i"
    and datas: "map sh_data (baz s) = map (\<lambda>k. Some (Suc k)) [0..<i]"
    unfolding rounds_def by blast+
  from datas have baz: "length (baz s) = i" by (auto dest: arg_cong [where f = length])
  have shows_unset: "show_foo i s = Inr (show_line (Foo_Cell i (Some 0) None) s)"
    using read_cell_owned [OF own, of 0 i] i by (simp add: show_foo_def foo cells0 nth_append)
  from write_cell_owned [OF own, of 0 i "recip (i + 1)"] i obtain h1 where
    h1: "write_cell (Some 0) i (recip (i + 1)) (heap s) = Inr h1" "owned h1 ?ps" "length h1 = Suc i"
      "cells (h1 ! 0) = ?cells (Suc i)" "\<forall>b < Suc i. 0 < b \<longrightarrow> cells (h1 ! b) = cells (heap s ! b)"
    by (auto simp: cells0 len fill_next)
  let ?h2 = "copy_ptr (Some 0) h1"
  have h2: "length ?h2 = Suc i" "cells (?h2 ! 0) = ?cells (Suc i)"
    using h1(3,4) by (simp_all add: copy_ptr_def nth_list_update)
  have "owned ?h2 (add_mset (Some 0) ?ps)" by (rule owned_copy [OF h1(2)]) simp
  from get_msg_owned [OF this, of five n] obtain m h3 where
    h3: "get_msg five n ?h2 = Inr (m, h3)" "sh_data m = Some (Suc i)"
      "owned h3 (add_mset (Some (Suc i)) (add_mset (Some 0) ?ps))" "length h3 = Suc (Suc i)"
      "cells (h3 ! 0) = ?cells (Suc i)" "cells (h3 ! Suc i) = replicate n (Some five)"
    using h2 by auto
  define s3 where "s3 = s\<lparr>bar := bar s @ [Some 0], heap := h3, baz := baz s @ [m],
    shown := shown s @ [Foo_Cell i (Some 0) None, Baz_Number i]\<rparr>"
  have "demo_body recip five n i s = each (show_baz i) [0..<n] s3"
    using h1(1) h3(1) by (simp add: demo_body_def shows_unset show_line_def push_foo_def foo s3_def)
  also have "\<dots> = Inr (s3\<lparr>shown := shown s3 @ replicate n (Baz_Cell (Some five))\<rparr>)"
    using show_baz_loop [of s3 _ i "Suc i" n five] h3 baz by (simp add: s3_def nth_append)
  finally have "demo_body recip five n i s = \<dots>" .
  moreover have "owned h3 (add_mset (Some 0) (mset (bar s @ [Some 0]) + mset (map sh_data (baz s @ [m]))))"
    using h3(2,3) by (simp add: add_mset_commute)
  ultimately show ?thesis
    using s h3(2,4-) unfolding rounds_def s3_def round_lines_def
    by (simp add: replicate_append_same del: mset_map mset_append)
qed

lemma rounds_start: "rounds recip five n 0 (demo_start n)"
  by (auto simp: rounds_def demo_start_def new_shared_def owned_def)

lemma show_foo_loop:
  assumes "owned (heap s) ps" "foo s = Some 0" "Some 0 \<in># ps" "cells (heap s ! 0) = map f [0..<n]"
  shows "each show_foo [0..<n] s = Inr (s\<lparr>shown := shown s @ map (\<lambda>i. Foo_Cell i (Some 0) (f i)) [0..<n]\<rparr>)"
proof -
  let ?P = "\<lambda>i s'. s' = s\<lparr>shown := shown s @ map (\<lambda>i. Foo_Cell i (Some 0) (f i)) [0..<i]\<rparr>"
  have "\<exists>s'. each show_foo [0..<n] s = Inr s' \<and> ?P n s'"
  proof (rule each_upt [where P = ?P])
    fix i s' assume i: "i < n" and s': "?P i s'"
    from i read_cell_owned [OF assms(1,3), of i] assms(4) have "read_cell (Some 0) i (heap s) = Inr (f i)" by simp
    with s' assms(2) show "\<exists>s''. show_foo i s' = Inr s'' \<and> ?P (Suc i) s''"
      by (simp add: show_foo_def show_line_def)
  qed simp
  then show ?thesis by simp
qed

text \<open>
C37: the shared arrays of the demonstration. The program never touches a deleted array or leaves
one; its arrays, one for \<open>foo\<close> and one for every message, are each deleted exactly once before it
ends. It reports \<open>n + 1\<close> references to \<open>foo\<close> after the copies, one after they are cleared, and none
after the reset. The values of \<open>foo\<close> that the first loop prints are unset, however.
\<close>

theorem shared_arrays_freed_once:
  "\<exists>s. demo_main recip five n = Inr s \<and>
    length (heap s) = n + 1 \<and> list_all (\<lambda>b. use_count b = 0 \<and> deletions b = 1) (heap s) \<and>
    shown s = concat (map (\<lambda>i. [Foo_Cell i (Some 0) None, Baz_Number i] @ replicate n (Baz_Cell (Some five))) [0..<n]) @
      [Foo_References (n + 1), Foo_Size 8] @ map (\<lambda>i. Foo_Cell i (Some 0) (Some (recip (i + 1)))) [0..<n] @
      [Foo_References 1, Baz_Elements n, Foo_References 0]"
proof -
  have "\<exists>s. each (demo_body recip five n) [0..<n] (demo_start n) = Inr s \<and> rounds recip five n n s"
    by (rule each_upt [where P = "rounds recip five n"]) (auto intro: rounds_start demo_body_round)
  then obtain s where
    s: "each (demo_body recip five n) [0..<n] (demo_start n) = Inr s" "rounds recip five n n s" by blast
  let ?baz = "map sh_data (baz s)"
  from s(2) have r: "foo s = Some 0" "bar s = replicate n (Some 0)" "?baz = map (\<lambda>k. Some (Suc k)) [0..<n]"
    "owned (heap s) (mset (bar s) + add_mset (Some 0) (mset ?baz))" "length (heap s) = Suc n"
    "cells (heap s ! 0) = map (\<lambda>k. Some (recip (Suc k))) [0..<n]"
    "shown s = concat (map (round_lines five n) [0..<n])"
    unfolding rounds_def union_mset_add_mset_right diff_self_eq_0 replicate_0 append_Nil2 by blast+
  have fresh: "count (mset ?baz) (Some 0) = 0" unfolding r(3) not_in_iff [symmetric] by auto
  have uses: "use_count (heap s ! 0) = Suc n"
    using r(4) fresh by (simp add: owned_def r(2,5) del: mset_map)
  note cleared = owned_release_all [OF r(4)]
  then have one: "use_count (fold release_ptr (bar s) (heap s) ! 0) = 1"
    using fresh by (simp add: owned_def del: mset_map)
  have gone: "owned (fold release_ptr ?baz (release_ptr (Some 0) (fold release_ptr (bar s) (heap s)))) {#}"
    using owned_release_all [of _ ?baz "{#}"] owned_release [OF cleared] by simp
  have sizes: "length (release_ptr p h) = length h" "length (fold release_ptr ps h) = length h" for p ps and h :: "'a heap"
  proof -
    show *: "length (release_ptr p h) = length h" for p and h :: "'a heap"
      by (simp add: release_ptr_def Let_def split: option.split)
    show "length (fold release_ptr ps h) = length h" by (induction ps arbitrary: h) (simp_all add: *)
  qed
  have "length (baz s) = n" using r(3) by (auto dest: arg_cong [where f = length])
  moreover have "each show_foo [0..<n] (show_line (Foo_Size 8) (show_references s)) =
      Inr ((show_line (Foo_Size 8) (show_references s))\<lparr>shown := shown s @ [Foo_References (n + 1), Foo_Size 8] @
        map (\<lambda>i. Foo_Cell i (Some 0) (Some (recip (Suc i)))) [0..<n]\<rparr>)"
    using show_foo_loop [of "show_line (Foo_Size 8) (show_references s)" _ "\<lambda>i. Some (recip (Suc i))" n] r(1,4,6) uses
    by (simp add: show_line_def show_references_def ptr_use_count_def)
  ultimately show ?thesis
    using owned_none [OF gone] one r(1,5,7) sizes
    by (simp add: demo_main_def s(1) demo_end_def show_line_def show_references_def ptr_use_count_def
        clear_bar_def clear_baz_def reset_foo_def sizeof_pointer_def round_lines_def [abs_def] Let_def list_all_iff)
qed

end
