(* ===== verification/Workers.thy ===== *)
theory Workers imports ConcQueue
begin

text \<open>
  \<open>test/b_thread.cpp\<close>: arrays in payloads, and workers that take a payload from one
  \<open>concurrent_queue\<close>, multiply it and push the result into another. The steps of both queues are
  those of \<open>ConcQueue\<close>, so its invariant holds for them; other threads may use the queues too.
  Numbers are of any type \<open>'v\<close> with a multiplication.
\<close>

section \<open>Payloads\<close>

text \<open>The array of a payload, or a null pointer; an array that was pushed is not written again.\<close>

record 'v payload =
  data :: "'v list option"
  data_len :: nat

definition DATA_LEN :: nat where "DATA_LEN = 5"

definition array_get :: "'v payload \<Rightarrow> nat \<Rightarrow> ub + 'v" where
  "array_get elem i =
     (case data elem of
        None \<Rightarrow> Inl Null_Dereference
      | Some xs \<Rightarrow> if i < length xs then Inr (xs ! i) else Inl Index_Out_Of_Range)"

definition array_set :: "nat \<Rightarrow> 'v \<Rightarrow> 'v payload \<Rightarrow> ub + 'v payload" where
  "array_set i v elem =
     (case data elem of
        None \<Rightarrow> Inl Null_Dereference
      | Some xs \<Rightarrow> if i < length xs then Inr (elem\<lparr>data := Some (xs[i := v])\<rparr>) else Inl Index_Out_Of_Range)"

text \<open>The parameter \<open>n\<close> of the code's functions is never used.\<close>

definition populate_arr :: "'v payload \<Rightarrow> 'v \<Rightarrow> nat \<Rightarrow> ub + 'v payload" where
  "populate_arr elem val n = each (\<lambda>i. array_set i val) [0..<DATA_LEN] elem"

text \<open>\<open>new double[DATA_LEN]\<close> holds anything, here \<open>unset\<close>.\<close>

definition mult_arr :: "('v \<Rightarrow> 'v \<Rightarrow> 'v) \<Rightarrow> 'v \<Rightarrow> 'v payload \<Rightarrow> 'v \<Rightarrow> nat \<Rightarrow> ub + 'v payload" where
  "mult_arr mult unset elem factor n =
     each (\<lambda>i rtn. bind_res (array_get elem i) (\<lambda>x. array_set i (mult x factor) rtn)) [0..<DATA_LEN]
       \<lparr>data = Some (replicate DATA_LEN unset), data_len = DATA_LEN\<rparr>"

text \<open>What \<open>report_arr\<close> prints, given the text of a number; \<open>val\<close> is not used either.\<close>

definition report_arr :: "('v \<Rightarrow> string) \<Rightarrow> 'v payload \<Rightarrow> 'v \<Rightarrow> nat \<Rightarrow> ub + string" where
  "report_arr show_v elem val n =
     bind_res (each (\<lambda>i out. bind_res (array_get elem i) (\<lambda>x. Inr (out @ show_v x @ '', ''))) [0..<DATA_LEN] ''[ '')
       (\<lambda>out. Inr (out @ '']''))"

section \<open>Workers\<close>

text \<open>
  Where a worker is: outside, in \<open>in.empty()\<close>, in \<open>in.wait_and_pop\<close>, with a value, in \<open>out.push\<close>.
\<close>

datatype 'v worker_at = Resting | Asking | Popping | Holding "'v payload" | Sending

record 'v shop =
  in_q :: "'v payload cq"
  out_q :: "'v payload cq"
  workers_at :: "'v worker_at list"

definition new_shop :: "nat \<Rightarrow> nat \<Rightarrow> 'v shop" where
  "new_shop threads w = \<lparr>in_q = new_cq threads, out_q = new_cq threads, workers_at = replicate w Resting\<rparr>"

definition worker_goto :: "nat \<Rightarrow> 'v worker_at \<Rightarrow> 'v shop \<Rightarrow> 'v shop" where
  "worker_goto t p s = s\<lparr>workers_at := (workers_at s)[t := p]\<rparr>"

text \<open>A step of a queue that makes no call in the name of a worker.\<close>

definition queue_goes_on :: "nat \<Rightarrow> 'a cq \<Rightarrow> 'a cq \<Rightarrow> bool" where
  "queue_goes_on w q q' \<longleftrightarrow> cq_step q q' \<and> (\<forall>t < w. between_calls (pcs q ! t) \<longrightarrow> pcs q' ! t = pcs q ! t)"

text \<open>
  \<open>process_one\<close> of the workers, the first threads of both queues; the other threads do what they
  like. The factor of a worker is not used.
\<close>

inductive shop_step :: "('v \<Rightarrow> 'v \<Rightarrow> 'v) \<Rightarrow> 'v \<Rightarrow> 'v \<Rightarrow> 'v shop \<Rightarrow> ub + 'v shop \<Rightarrow> bool"
  for mult :: "'v \<Rightarrow> 'v \<Rightarrow> 'v" and unset :: 'v and two :: 'v where
  worker_asks: "t < length (workers_at s) \<Longrightarrow> workers_at s ! t = Resting \<Longrightarrow>
    shop_step mult unset two s
      (Inr (worker_goto t Asking (s\<lparr>in_q := goto t (Empty_Lock Client) (in_q s)\<rparr>)))"
| worker_sees: "t < length (workers_at s) \<Longrightarrow> workers_at s ! t = Asking \<Longrightarrow>
    pcs (in_q s) ! t = Finished (Was_Empty b) \<Longrightarrow>
    shop_step mult unset two s
      (Inr (if \<not> b then worker_goto t Popping (s\<lparr>in_q := goto t Pop_Lock (in_q s)\<rparr>)
            else worker_goto t Resting s))"
| worker_gets: "t < length (workers_at s) \<Longrightarrow> workers_at s ! t = Popping \<Longrightarrow>
    pcs (in_q s) ! t = Finished (Popped x) \<Longrightarrow>
    shop_step mult unset two s (Inr (worker_goto t (Holding x) s))"
| worker_multiplies: "t < length (workers_at s) \<Longrightarrow> workers_at s ! t = Holding x \<Longrightarrow>
    mult_arr mult unset x two DATA_LEN = Inr y \<Longrightarrow>
    shop_step mult unset two s
      (Inr (worker_goto t Sending (s\<lparr>out_q := goto t (Push_Lock y) (out_q s)\<rparr>)))"
| worker_crashes: "t < length (workers_at s) \<Longrightarrow> workers_at s ! t = Holding x \<Longrightarrow>
    mult_arr mult unset x two DATA_LEN = Inl u \<Longrightarrow> shop_step mult unset two s (Inl u)"
| worker_ends: "t < length (workers_at s) \<Longrightarrow> workers_at s ! t = Sending \<Longrightarrow>
    pcs (out_q s) ! t = Finished Pushed \<Longrightarrow>
    shop_step mult unset two s (Inr (worker_goto t Resting s))"
| in_goes_on: "queue_goes_on (length (workers_at s)) (in_q s) q \<Longrightarrow>
    shop_step mult unset two s (Inr (s\<lparr>in_q := q\<rparr>))"
| out_goes_on: "queue_goes_on (length (workers_at s)) (out_q s) q \<Longrightarrow>
    shop_step mult unset two s (Inr (s\<lparr>out_q := q\<rparr>))"

section \<open>What \<open>mult_arr\<close> does\<close>

lemma mult_arr_ok:
  assumes "data elem = Some xs" "DATA_LEN \<le> length xs"
  shows "mult_arr mult unset elem factor n =
    Inr \<lparr>data = Some (map (\<lambda>x. mult x factor) (take DATA_LEN xs)), data_len = DATA_LEN\<rparr>"
proof -
  let ?P = "\<lambda>i rtn. rtn = \<lparr>data = Some (map (\<lambda>x. mult x factor) (take i xs) @ replicate (DATA_LEN - i) unset),
    data_len = DATA_LEN\<rparr>"
  have "\<exists>rtn. mult_arr mult unset elem factor n = Inr rtn \<and> ?P DATA_LEN rtn"
    unfolding mult_arr_def
  proof (rule each_upt [where P = ?P])
    fix i rtn assume i: "i < DATA_LEN" and P: "?P i rtn"
    then have "DATA_LEN - i = Suc (DATA_LEN - Suc i)" by simp
    with i P assms show "\<exists>rtn'. bind_res (array_get elem i) (\<lambda>x. array_set i (mult x factor) rtn) = Inr rtn' \<and>
        ?P (Suc i) rtn'"
      by (simp add: array_get_def array_set_def take_Suc_conv_app_nth list_update_append)
  qed simp
  then show ?thesis by simp
qed

text \<open>It returns only for an array of five numbers or more.\<close>

lemma mult_arr_Inr:
  assumes "mult_arr mult unset elem factor n = Inr y"
  shows "\<exists>xs. data elem = Some xs \<and> 5 \<le> length xs \<and>
    y = \<lparr>data = Some (map (\<lambda>x. mult x factor) (take 5 xs)), data_len = 5\<rparr>"
proof (cases "data elem")
  case None
  with assms show ?thesis by (simp add: mult_arr_def array_get_def DATA_LEN_def upt_rec)
next
  case (Some xs)
  show ?thesis
  proof (cases "5 \<le> length xs")
    case True
    with mult_arr_ok [OF Some, of mult unset factor n] Some assms show ?thesis by (simp add: DATA_LEN_def)
  next
    case False
    with Some assms show ?thesis
      by (auto simp: mult_arr_def array_get_def DATA_LEN_def upt_rec split: if_splits)
  qed
qed

section \<open>The invariant\<close>

text \<open>What a thread took from a queue and what it put into it, in their order.\<close>

definition taken :: "nat \<Rightarrow> 'a cq \<Rightarrow> 'a list" where
  "taken t q = deqs (accesses_of t (log q))"

definition given :: "nat \<Rightarrow> 'a cq \<Rightarrow> 'a list" where
  "given t q = enqs (accesses_of t (log q))"

text \<open>Where a worker is in its two queues.\<close>

fun in_phase :: "'v worker_at \<Rightarrow> 'a pc \<Rightarrow> bool" where
  "in_phase Asking (Empty_Lock c) = (c = Client)"
| "in_phase Asking (Empty_Read c) = (c = Client)"
| "in_phase Asking (Empty_Unlock c b) = (c = Client)"
| "in_phase Asking (Finished r) = (case r of Was_Empty b \<Rightarrow> True | _ \<Rightarrow> False)"
| "in_phase Popping (Finished r) = (case r of Popped x \<Rightarrow> True | _ \<Rightarrow> False)"
| "in_phase Popping (Pop_Unlock x) = True"
| "in_phase Popping p = (p \<in> {Pop_Lock, Pop_Test, Pop_Wait, Pop_Waiting, Pop_Relock, Pop_Take})"
| "in_phase Asking p = False"
| "in_phase a p = between_calls p"

fun out_phase :: "'v worker_at \<Rightarrow> 'a pc \<Rightarrow> bool" where
  "out_phase Sending (Push_Lock y) = True"
| "out_phase Sending (Push_Enqueue y) = True"
| "out_phase Sending p = (p \<in> {Push_Unlock, Push_Notify, Finished Pushed})"
| "out_phase a p = between_calls p"

text \<open>The payload that a worker has taken and not yet multiplied, and the one not yet put out.\<close>

fun in_hand :: "'v worker_at \<Rightarrow> 'v payload pc \<Rightarrow> 'v payload list" where
  "in_hand Popping (Pop_Unlock x) = [x]"
| "in_hand Popping (Finished (Popped x)) = [x]"
| "in_hand (Holding x) p = [x]"
| "in_hand a p = []"

fun to_send :: "'v worker_at \<Rightarrow> 'v payload pc \<Rightarrow> 'v payload list" where
  "to_send Sending (Push_Lock y) = [y]"
| "to_send Sending (Push_Enqueue y) = [y]"
| "to_send a p = []"

lemma pcs_goto: "t < length (pcs q) \<Longrightarrow> pcs (goto u p q) ! t = (if u = t then p else pcs q ! t)"
  by (simp add: goto_def nth_list_update)

lemma goto_frame [simp]:
  "log (goto u p q) = log q" "length (pcs (goto u p q)) = length (pcs q)" "items (goto u p q) = items q"
  "owner (goto u p q) = owner q"
  by (simp_all add: goto_def)

lemma local_step_other:
  assumes "local_step u q = Some q'" "u \<noteq> t"
  shows "pcs q' ! t = pcs q ! t \<and> accesses_of t (log q') = accesses_of t (log q)"
  using assms
  by (cases rule: local_step_kinds)
    (auto simp: goto_def release_def record_access_def take_front_def accesses_of_snoc split: list.splits)

text \<open>
  A thread in a call goes on in it, or does nothing, or is woken; the accesses of the others are
  not its own.
\<close>

lemma queue_goes_on_thread:
  assumes "queue_goes_on w q q'" "t < w" "t < length (pcs q)"
  obtains (same) "pcs q' ! t = pcs q ! t" "accesses_of t (log q') = accesses_of t (log q)"
  | (moves) "local_step t q = Some q'" "\<not> between_calls (pcs q ! t)"
  | (notifies) "pcs q ! t = Push_Notify" "pcs q' ! t = Finished Pushed" "log q' = log q"
  | (woken) "pcs q ! t = Pop_Waiting" "pcs q' ! t = Pop_Relock" "log q' = log q"
proof -
  from assms(1) have step: "cq_step q q'" and kept: "between_calls (pcs q ! t) \<longrightarrow> pcs q' ! t = pcs q ! t"
    using assms(2) by (auto simp: queue_goes_on_def)
  from step show thesis
  proof (cases rule: cq_step.cases)
    case (cq_call u p a)
    with kept assms(3) show thesis by (cases "u = t") (auto simp: pcs_goto entry_points_def intro: same)
  next
    case (cq_local u)
    show thesis
    proof (cases "u = t")
      case True
      have "\<not> between_calls (pcs q ! t)"
      proof
        assume "between_calls (pcs q ! t)"
        then show False using cq_local True by (cases "pcs q ! t") (auto simp: step_defs)
      qed
      with cq_local True moves show thesis by blast
    next
      case False
      with local_step_other cq_local same show thesis by blast
    qed
  next
    case (cq_notify u v)
    with assms(3) show thesis
      by (cases "u = t"; cases "v = t") (auto simp: pcs_goto intro: same notifies woken)
  next
    case (cq_notify_none u)
    with assms(3) show thesis by (cases "u = t") (auto simp: pcs_goto intro: same notifies)
  next
    case (cq_spurious u)
    with assms(3) show thesis by (cases "u = t") (auto simp: pcs_goto intro: same woken)
  qed
qed

lemma front_known: "cq_inv q \<Longrightarrow> t < length (pcs q) \<Longrightarrow> pcs q ! t = Pop_Take \<Longrightarrow> items q \<noteq> []"
  by (auto simp: cq_inv_def inv_knows_def)

lemma in_queue_goes_on:
  assumes step: "queue_goes_on w q q'" and t: "t < w" "t < length (pcs q)" and inv: "cq_inv q"
    and phase: "in_phase a (pcs q ! t)" and took: "taken t q = dn @ in_hand a (pcs q ! t)"
  shows "in_phase a (pcs q' ! t) \<and> taken t q' = dn @ in_hand a (pcs q' ! t)"
  using step t
proof (cases rule: queue_goes_on_thread)
  case same
  with phase took show ?thesis by (simp add: taken_def)
next
  case moves
  note simps = step_defs goto_def release_def record_access_def take_front_def taken_def accesses_of_snoc
  show ?thesis
  proof (cases a)
    case Asking
    with moves t(2) phase took show ?thesis
      by (cases "pcs q ! t") (auto simp: simps split: if_splits)
  next
    case Popping
    show ?thesis
    proof (cases "pcs q ! t = Pop_Take")
      case True
      with front_known [OF inv t(2)] obtain x xs where "items q = x # xs" by (cases "items q") auto
      with True Popping moves t(2) phase took show ?thesis by (auto simp: simps)
    next
      case False
      with Popping moves t(2) phase took show ?thesis
        by (cases "pcs q ! t") (auto simp: simps split: if_splits outcome.splits)
    qed
  qed (use moves phase in auto)
next
  case notifies
  with phase show ?thesis by (cases a) auto
next
  case woken
  with phase took show ?thesis by (cases a) (auto simp: taken_def)
qed

lemma out_queue_goes_on:
  assumes step: "queue_goes_on w q q'" and t: "t < w" "t < length (pcs q)"
    and phase: "out_phase a (pcs q ! t)"
  shows "out_phase a (pcs q' ! t) \<and> given t q' @ to_send a (pcs q' ! t) = given t q @ to_send a (pcs q ! t)"
  using step t
proof (cases rule: queue_goes_on_thread)
  case same
  with phase show ?thesis by (simp add: given_def)
next
  case moves
  note simps = step_defs goto_def release_def record_access_def given_def accesses_of_snoc
  show ?thesis
  proof (cases a)
    case Sending
    with moves t(2) phase show ?thesis
      by (cases "pcs q ! t") (auto simp: simps split: if_splits)
  qed (use moves phase in auto)
next
  case notifies
  with phase show ?thesis by (cases a) (auto simp: given_def)
next
  case woken
  with phase show ?thesis by (cases a) auto
qed

definition worker_inv :: "('v \<Rightarrow> 'v \<Rightarrow> 'v) \<Rightarrow> 'v \<Rightarrow> 'v \<Rightarrow> nat \<Rightarrow> 'v shop \<Rightarrow> bool" where
  "worker_inv mult unset two t s \<longleftrightarrow>
     in_phase (workers_at s ! t) (pcs (in_q s) ! t) \<and> out_phase (workers_at s ! t) (pcs (out_q s) ! t) \<and>
     (\<exists>dn. taken t (in_q s) = dn @ in_hand (workers_at s ! t) (pcs (in_q s) ! t) \<and>
        map (\<lambda>x. mult_arr mult unset x two DATA_LEN) dn =
          map Inr (given t (out_q s) @ to_send (workers_at s ! t) (pcs (out_q s) ! t)))"

definition shop_inv :: "('v \<Rightarrow> 'v \<Rightarrow> 'v) \<Rightarrow> 'v \<Rightarrow> 'v \<Rightarrow> 'v shop \<Rightarrow> bool" where
  "shop_inv mult unset two s \<longleftrightarrow> cq_inv (in_q s) \<and> cq_inv (out_q s) \<and>
     length (workers_at s) \<le> length (pcs (in_q s)) \<and> length (workers_at s) \<le> length (pcs (out_q s)) \<and>
     (\<forall>t < length (workers_at s). worker_inv mult unset two t s)"

lemma cq_inv_call:
  "cq_inv q \<Longrightarrow> t < length (pcs q) \<Longrightarrow> between_calls (pcs q ! t) \<Longrightarrow> p \<in> entry_points a \<Longrightarrow> cq_inv (goto t p q)"
  by (rule cq_inv_step) (auto intro: cq_call)

lemma shop_inv_step:
  assumes inv: "shop_inv mult unset two s" and step: "shop_step mult unset two s (Inr s')"
  shows "shop_inv mult unset two s'"
proof -
  note I = inv [unfolded shop_inv_def]
  have W: "worker_inv mult unset two t s" if "t < length (workers_at s)" for t using I that by blast
  from step show ?thesis
  proof (cases rule: shop_step.cases)
    case (worker_asks t)
    with W [of t] have "between_calls (pcs (in_q s) ! t)" by (simp add: worker_inv_def)
    with worker_asks I cq_inv_call [of "in_q s" t "Empty_Lock Client"] show ?thesis
      by (auto simp: shop_inv_def worker_inv_def worker_goto_def nth_list_update pcs_goto taken_def entry_points_def)
  next
    case (worker_sees t b)
    with I cq_inv_call [of "in_q s" t Pop_Lock] show ?thesis
      by (auto simp: shop_inv_def worker_inv_def worker_goto_def nth_list_update pcs_goto taken_def entry_points_def)
  next
    case (worker_gets t x)
    with I show ?thesis
      by (auto simp: shop_inv_def worker_inv_def worker_goto_def nth_list_update)
  next
    case (worker_multiplies t x y)
    then have "between_calls (pcs (out_q s) ! t)" using W [of t] by (simp add: worker_inv_def)
    with worker_multiplies I cq_inv_call [of "out_q s" t "Push_Lock y"] show ?thesis
      by (auto simp: shop_inv_def worker_inv_def worker_goto_def nth_list_update pcs_goto given_def entry_points_def)
  next
    case (worker_ends t)
    with I show ?thesis
      by (auto simp: shop_inv_def worker_inv_def worker_goto_def nth_list_update)
  next
    case (in_goes_on q)
    then have step: "cq_step (in_q s) q" by (simp add: queue_goes_on_def)
    have "worker_inv mult unset two t s'" if "t < length (workers_at s)" for t
      using W [OF that] in_queue_goes_on [OF in_goes_on(2) that _ _] I that in_goes_on(1)
      by (fastforce simp: worker_inv_def)
    with in_goes_on(1) I cq_inv_step [OF _ step] cq_step_length [OF step] show ?thesis
      by (simp add: shop_inv_def)
  next
    case (out_goes_on q)
    then have step: "cq_step (out_q s) q" by (simp add: queue_goes_on_def)
    have "worker_inv mult unset two t s'" if "t < length (workers_at s)" for t
      using W [OF that] out_queue_goes_on [OF out_goes_on(2) that _] I that out_goes_on(1)
      by (fastforce simp: worker_inv_def)
    with out_goes_on(1) I cq_inv_step [OF _ step] cq_step_length [OF step] show ?thesis
      by (simp add: shop_inv_def)
  qed
qed

text \<open>The running shop; undefined behaviour ends it.\<close>

definition shop_moves ::
    "('v \<Rightarrow> 'v \<Rightarrow> 'v) \<Rightarrow> 'v \<Rightarrow> 'v \<Rightarrow> ub + 'v shop \<Rightarrow> ub + 'v shop \<Rightarrow> bool" where
  "shop_moves mult unset two r r' \<longleftrightarrow> (\<exists>s. r = Inr s \<and> shop_step mult unset two s r')"

definition shop_opens :: "nat \<Rightarrow> nat \<Rightarrow> ub + 'v shop \<Rightarrow> bool" where
  "shop_opens threads w r \<longleftrightarrow> w \<le> threads \<and> r = Inr (new_shop threads w)"

fun shop_ok :: "('v \<Rightarrow> 'v \<Rightarrow> 'v) \<Rightarrow> 'v \<Rightarrow> 'v \<Rightarrow> nat \<Rightarrow> ub + 'v shop \<Rightarrow> bool" where
  "shop_ok mult unset two w (Inl u) = True"
| "shop_ok mult unset two w (Inr s) = (shop_inv mult unset two s \<and> length (workers_at s) = w)"

lemma shop_step_workers: "shop_step mult unset two s (Inr s') \<Longrightarrow> length (workers_at s') = length (workers_at s)"
  by (cases rule: shop_step.cases) (auto simp: worker_goto_def)

interpretation worker_shop: invariant_system "shop_opens threads w" "shop_moves mult unset two" "shop_ok mult unset two w"
  for threads w mult unset two
proof
  fix r :: "ub + 'a shop"
  assume "shop_opens threads w r"
  then show "shop_ok mult unset two w r"
    by (auto simp: shop_opens_def new_shop_def shop_inv_def worker_inv_def cq_inv_new taken_def given_def
        accesses_of_def new_cq_def)
      (simp_all add: cq_inv_new [unfolded new_cq_def])
next
  fix r r' :: "ub + 'a shop"
  assume "shop_ok mult unset two w r" "shop_moves mult unset two r r'"
  then show "shop_ok mult unset two w r'"
    using shop_inv_step shop_step_workers by (cases r') (fastforce simp: shop_moves_def)+
qed

section \<open>The properties\<close>

lemma hands: "length (in_hand a p) + length (to_send a p') \<le> 1"
proof -
  have "length (in_hand a p) \<le> (if a = Sending then 0 else 1)"
    by (cases "(a, p)" rule: in_hand.cases) auto
  moreover have "length (to_send a p') \<le> (if a = Sending then 1 else 0)"
    by (cases "(a, p')" rule: to_send.cases) auto
  ultimately show ?thesis by (simp split: if_splits)
qed

text \<open>
C38: workers keep the order and lose nothing. However the workers and the other threads interleave,
the payloads that a worker has pushed are those it has taken, in the order in which it took
them, each with its first five numbers multiplied by two, with at most one that it still holds, and
none while it rests; and both queues are those of \<open>queue_linearizable\<close>.
\<close>

theorem workers_in_order:
  assumes "reaches (shop_opens threads w) (shop_moves mult unset two) (Inr s)" and "t < w"
  shows "\<exists>dn held out.
    taken t (in_q s) = dn @ held \<and>
    list_all2 (\<lambda>x y. \<exists>vs. data x = Some vs \<and> 5 \<le> length vs \<and>
        y = \<lparr>data = Some (map (\<lambda>v. mult v two) (take 5 vs)), data_len = 5\<rparr>) dn (given t (out_q s) @ out) \<and>
    length held + length out \<le> 1 \<and> (workers_at s ! t = Resting \<longrightarrow> held = [] \<and> out = []) \<and>
    replay (map snd (log (in_q s))) [] = Some (items (in_q s)) \<and>
    replay (map snd (log (out_q s))) [] = Some (items (out_q s))"
proof -
  let ?a = "workers_at s ! t"
  from worker_shop.inv_reaches [OF assms(1)] assms(2) have inv: "worker_inv mult unset two t s" "cq_inv (in_q s)" "cq_inv (out_q s)"
    by (auto simp: shop_inv_def)
  from inv(1) obtain dn where dn: "taken t (in_q s) = dn @ in_hand ?a (pcs (in_q s) ! t)"
    "map (\<lambda>x. mult_arr mult unset x two DATA_LEN) dn = map Inr (given t (out_q s) @ to_send ?a (pcs (out_q s) ! t))"
    by (auto simp: worker_inv_def)
  have "list_all2 (\<lambda>x y. mult_arr mult unset x two DATA_LEN = Inr y) dn (given t (out_q s) @ to_send ?a (pcs (out_q s) ! t))"
    using dn(2) by (simp only: list_all2_map1 list_all2_map2 list.rel_eq [symmetric])
  then have "list_all2 (\<lambda>x y. \<exists>vs. data x = Some vs \<and> 5 \<le> length vs \<and>
      y = \<lparr>data = Some (map (\<lambda>v. mult v two) (take 5 vs)), data_len = 5\<rparr>) dn
      (given t (out_q s) @ to_send ?a (pcs (out_q s) ! t))"
    by (rule list_all2_mono) (rule mult_arr_Inr)
  with dn(1) show ?thesis
    using inv(2,3) hands [of ?a] unfolding cq_inv_def inv_log_def
    by (intro exI [of _ dn] exI [of _ "in_hand ?a (pcs (in_q s) ! t)"] exI [of _ "to_send ?a (pcs (out_q s) ! t)"]) auto
qed

section \<open>Waiting\<close>

text \<open>What a worker that saw an item relies on.\<close>

fun expects :: "'v worker_at \<Rightarrow> 'a pc \<Rightarrow> bool" where
  "expects Asking (Empty_Unlock c b) = (\<not> b)"
| "expects Asking (Finished (Was_Empty b)) = (\<not> b)"
| "expects Popping p = (p \<in> {Pop_Lock, Pop_Test, Pop_Take})"
| "expects a p = False"

text \<open>Nobody but the first thread has taken anything from the queue.\<close>

definition only_first_takes :: "'a cq \<Rightarrow> bool" where
  "only_first_takes q \<longleftrightarrow> (\<forall>u x. (u, Deq x) \<in> set (log q) \<longrightarrow> u = 0)"

definition lone_inv :: "'v shop \<Rightarrow> bool" where
  "lone_inv s \<longleftrightarrow> (only_first_takes (in_q s) \<longrightarrow>
     (expects (workers_at s ! 0) (pcs (in_q s) ! 0) \<longrightarrow> items (in_q s) \<noteq> []) \<and>
     pcs (in_q s) ! 0 \<notin> {Pop_Wait, Pop_Waiting, Pop_Relock})"

lemma cq_step_items:
  assumes "cq_step q q'"
  shows "(\<exists>l. log q' = log q @ l) \<and>
    ((\<exists>xs. items q' = items q @ xs) \<or> (\<exists>u x. log q' = log q @ [(u, Deq x)]))"
  using assms
proof (cases rule: cq_step.cases)
  case (cq_local t)
  from cq_local(2) show ?thesis
    by (cases rule: local_step_kinds) (auto simp: goto_def release_def record_access_def take_front_def split: list.splits)
qed auto

lemma lone_queue:
  assumes step: "queue_goes_on 1 q q'" and t: "0 < length (pcs q)" and only: "only_first_takes q'"
    and phase: "in_phase a (pcs q ! 0)"
    and lone: "expects a (pcs q ! 0) \<longrightarrow> items q \<noteq> []" "pcs q ! 0 \<notin> {Pop_Wait, Pop_Waiting, Pop_Relock}"
  shows "(expects a (pcs q' ! 0) \<longrightarrow> items q' \<noteq> []) \<and> pcs q' ! 0 \<notin> {Pop_Wait, Pop_Waiting, Pop_Relock}"
  using step zero_less_one t
proof (cases rule: queue_goes_on_thread)
  case same
  from step cq_step_items have "(\<exists>xs. items q' = items q @ xs) \<or> (\<exists>u x. log q' = log q @ [(u, Deq x)])"
    by (auto simp: queue_goes_on_def)
  then show ?thesis
  proof
    assume "\<exists>u x. log q' = log q @ [(u, Deq x)]"
    then obtain u x where ux: "log q' = log q @ [(u, Deq x)]" by blast
    with only have "u = 0" by (simp add: only_first_takes_def)
    with ux have "log q' = log q @ [(0, Deq x)]" by simp
    with same(2) show ?thesis by (simp add: accesses_of_snoc)
  qed (use same(1) lone in auto)
next
  case moves
  note simps = step_defs goto_def release_def record_access_def take_front_def
  show ?thesis
  proof (cases a)
    case Asking
    with moves t phase lone show ?thesis by (cases "pcs q ! 0") (auto simp: simps split: if_splits)
  next
    case Popping
    with moves t phase lone show ?thesis
      by (cases "pcs q ! 0") (auto simp: simps split: if_splits list.splits)
  qed (use moves phase in auto)
next
  case notifies
  with phase show ?thesis by (cases a) auto
next
  case woken
  with lone show ?thesis by simp
qed

lemma lone_inv_step:
  assumes inv: "shop_ok mult unset two 1 (Inr s)" "lone_inv s" and step: "shop_step mult unset two s (Inr s')"
  shows "lone_inv s'"
proof -
  from inv(1) have one: "length (workers_at s) = 1" and q: "0 < length (pcs (in_q s))"
    and phase: "in_phase (workers_at s ! 0) (pcs (in_q s) ! 0)"
    by (auto simp: shop_inv_def worker_inv_def)
  from step show ?thesis
  proof (cases rule: shop_step.cases)
    case (worker_asks t)
    with inv(2) one q show ?thesis by (auto simp: lone_inv_def worker_goto_def pcs_goto only_first_takes_def)
  next
    case (worker_sees t b)
    with inv(2) one q show ?thesis by (auto simp: lone_inv_def worker_goto_def pcs_goto only_first_takes_def)
  next
    case (worker_gets t x)
    with inv(2) one show ?thesis by (auto simp: lone_inv_def worker_goto_def)
  next
    case (worker_multiplies t x y)
    with inv(2) one show ?thesis by (auto simp: lone_inv_def worker_goto_def)
  next
    case (worker_ends t)
    with inv(2) one show ?thesis by (auto simp: lone_inv_def worker_goto_def)
  next
    case (in_goes_on q')
    show ?thesis
      unfolding lone_inv_def
    proof
      assume only: "only_first_takes (in_q s')"
      have "\<exists>l. log q' = log (in_q s) @ l"
        using in_goes_on(2) cq_step_items by (auto simp: queue_goes_on_def)
      with only in_goes_on(1) have "only_first_takes (in_q s)"
        by (clarsimp simp: only_first_takes_def) blast
      with inv(2) lone_queue [OF in_goes_on(2) [unfolded one] q _ phase] only in_goes_on(1)
      show "(expects (workers_at s' ! 0) (pcs (in_q s') ! 0) \<longrightarrow> items (in_q s') \<noteq> []) \<and>
          pcs (in_q s') ! 0 \<notin> {Pop_Wait, Pop_Waiting, Pop_Relock}"
        by (simp add: lone_inv_def)
    qed
  next
    case (out_goes_on q')
    with inv(2) show ?thesis by (simp add: lone_inv_def)
  qed
qed

fun lone_ok :: "('v \<Rightarrow> 'v \<Rightarrow> 'v) \<Rightarrow> 'v \<Rightarrow> 'v \<Rightarrow> ub + 'v shop \<Rightarrow> bool" where
  "lone_ok mult unset two (Inl u) = True"
| "lone_ok mult unset two (Inr s) = (shop_ok mult unset two 1 (Inr s) \<and> lone_inv s)"

interpretation lone_worker: invariant_system "shop_opens threads 1" "shop_moves mult unset two" "lone_ok mult unset two"
  for threads mult unset two
proof
  fix r :: "ub + 'a shop"
  assume r: "shop_opens threads 1 r"
  from worker_shop.inv_ini [OF r] r show "lone_ok mult unset two r"
    by (auto simp: shop_opens_def new_shop_def new_cq_def lone_inv_def)
next
  fix r r' :: "ub + 'a shop"
  assume ok: "lone_ok mult unset two r" and moves: "shop_moves mult unset two r r'"
  then obtain s where s: "r = Inr s" "shop_step mult unset two s r'" by (auto simp: shop_moves_def)
  show "lone_ok mult unset two r'"
  proof (cases r')
    case (Inr s')
    with s ok worker_shop.inv_stp [OF _ moves, of 1] lone_inv_step [of mult unset two s s'] show ?thesis by simp
  qed simp
qed

section \<open>Two workers and one payload\<close>

text \<open>A run with two workers, the threads 0 and 1, and a thread 2 that pushes one payload.\<close>

definition five_ones :: "nat payload" where
  "five_ones = \<lparr>data = Some [1, 1, 1, 1, 1], data_len = 5\<rparr>"

definition shop_with ::
    "nat payload list \<Rightarrow> nat option \<Rightarrow> nat payload pc list \<Rightarrow> (nat \<times> nat payload access) list \<Rightarrow>
     nat worker_at list \<Rightarrow> nat shop" where
  "shop_with its own ps l ats =
     \<lparr>in_q = \<lparr>items = its, owner = own, pcs = ps, undefined_front = False, log = l\<rparr>,
      out_q = new_cq 3, workers_at = ats\<rparr>"

definition shop_reaches :: "nat shop \<Rightarrow> bool" where
  "shop_reaches s \<longleftrightarrow> reaches (shop_opens 3 2) (shop_moves (*) 0 2) (Inr s)"

lemma shop_reaches_step: "shop_reaches s \<Longrightarrow> shop_step (*) 0 2 s (Inr s') \<Longrightarrow> shop_reaches s'"
  unfolding shop_reaches_def by (rule reaches_step) (auto simp: shop_moves_def)

lemma local_step_call: "local_step t q = Some q' \<Longrightarrow> \<not> between_calls (pcs q ! t)"
  by (cases "pcs q ! t") (auto simp: step_defs)

lemma shop_local:
  assumes "shop_reaches (shop_with its own ps l ats)" and "t < length ps"
    and "local_step t \<lparr>items = its, owner = own, pcs = ps, undefined_front = False, log = l\<rparr> =
      Some \<lparr>items = its', owner = own', pcs = ps', undefined_front = False, log = l'\<rparr>"
  shows "shop_reaches (shop_with its' own' ps' l' ats)"
proof -
  let ?q = "\<lparr>items = its, owner = own, pcs = ps, undefined_front = False, log = l\<rparr>"
  let ?q' = "\<lparr>items = its', owner = own', pcs = ps', undefined_front = False, log = l'\<rparr>"
  have "pcs ?q' ! u = pcs ?q ! u" if "between_calls (pcs ?q ! u)" for u
    using that local_step_call [OF assms(3)] local_step_other [OF assms(3), of u] by (cases "t = u") auto
  moreover have "cq_step ?q ?q'" by (rule cq_local [OF _ assms(3)]) (simp add: assms(2))
  ultimately have "queue_goes_on (length ats) ?q ?q'" by (simp add: queue_goes_on_def)
  with shop_reaches_step [OF assms(1) in_goes_on] show ?thesis by (simp add: shop_with_def)
qed

lemma shop_asks:
  "shop_reaches (shop_with its own ps l ats) \<Longrightarrow> t < length ats \<Longrightarrow> ats ! t = Resting \<Longrightarrow>
     shop_reaches (shop_with its own (ps[t := Empty_Lock Client]) l (ats[t := Asking]))"
  using shop_reaches_step [OF _ worker_asks, of "shop_with its own ps l ats" t]
  by (simp add: shop_with_def worker_goto_def goto_def)

lemma shop_sees:
  "shop_reaches (shop_with its own ps l ats) \<Longrightarrow> t < length ats \<Longrightarrow> ats ! t = Asking \<Longrightarrow>
     ps ! t = Finished (Was_Empty False) \<Longrightarrow>
     shop_reaches (shop_with its own (ps[t := Pop_Lock]) l (ats[t := Popping]))"
  using shop_reaches_step [OF _ worker_sees, of "shop_with its own ps l ats" t False]
  by (simp add: shop_with_def worker_goto_def goto_def)

abbreviation pushed_log :: "(nat \<times> nat payload access) list" where
  "pushed_log \<equiv> [(2, Enq five_ones)]"

lemma shop_pushed: "shop_reaches (shop_with [five_ones] None [Outside, Outside, Finished Pushed] pushed_log [Resting, Resting])"
proof -
  let ?at = "[Resting, Resting] :: nat worker_at list"
  note local_simps = step_defs goto_def release_def record_access_def
  have "shop_reaches (new_shop 3 2)"
    unfolding shop_reaches_def by (rule reaches_init) (simp add: shop_opens_def)
  then have start: "shop_reaches (shop_with [] None [Outside, Outside, Outside] [] ?at)"
    by (simp add: new_shop_def new_cq_def shop_with_def numeral_2_eq_2 numeral_3_eq_3)
  have "cq_step (new_cq 3) (goto 2 (Push_Lock five_ones) (new_cq 3))"
    by (rule cq_call [where a = five_ones]) (simp_all add: new_cq_def entry_points_def)
  then have "queue_goes_on 2 (new_cq 3) (goto 2 (Push_Lock five_ones) (new_cq 3))"
    by (simp add: queue_goes_on_def goto_def)
  with shop_reaches_step [OF start in_goes_on]
  have "shop_reaches (shop_with [] None [Outside, Outside, Push_Lock five_ones] [] ?at)"
    by (simp add: shop_with_def new_cq_def goto_def numeral_2_eq_2 numeral_3_eq_3)
  then have "shop_reaches (shop_with [] (Some 2) [Outside, Outside, Push_Enqueue five_ones] [] ?at)"
    by (rule shop_local [where t = 2]) (simp_all add: local_simps)
  then have "shop_reaches (shop_with [five_ones] (Some 2) [Outside, Outside, Push_Unlock] pushed_log ?at)"
    by (rule shop_local [where t = 2]) (simp_all add: local_simps)
  then have s: "shop_reaches (shop_with [five_ones] None [Outside, Outside, Push_Notify] pushed_log ?at)"
    by (rule shop_local [where t = 2]) (simp_all add: local_simps)
  let ?q = "in_q (shop_with [five_ones] None [Outside, Outside, Push_Notify] pushed_log ?at)"
  have "cq_step ?q (goto 2 (Finished Pushed) ?q)"
    by (rule cq_notify_none) (simp_all add: shop_with_def)
  then have "queue_goes_on 2 ?q (goto 2 (Finished Pushed) ?q)"
    by (simp add: queue_goes_on_def goto_def)
  with shop_reaches_step [OF s in_goes_on] show ?thesis
    by (simp add: shop_with_def goto_def numeral_2_eq_2)
qed

text \<open>A worker asks whether the queue is empty, and learns that it is not.\<close>

lemma shop_asked:
  assumes "shop_reaches (shop_with [x] None ps l ats)" "t < length ats" "t < length ps" "ats ! t = Resting"
  shows "shop_reaches (shop_with [x] None (ps[t := Finished (Was_Empty False)]) (l @ [(t, Saw_Empty False)]) (ats[t := Asking]))"
proof -
  note local_simps = step_defs goto_def release_def record_access_def
  from shop_asks [OF assms(1,2,4)]
  have "shop_reaches (shop_with [x] (Some t) (ps[t := Empty_Read Client]) l (ats[t := Asking]))"
    by (rule shop_local [where t = t]) (use assms(3) in \<open>simp_all add: local_simps\<close>)
  then have "shop_reaches (shop_with [x] (Some t) (ps[t := Empty_Unlock Client False]) (l @ [(t, Saw_Empty False)]) (ats[t := Asking]))"
    by (rule shop_local [where t = t]) (use assms(3) in \<open>simp_all add: local_simps\<close>)
  then show ?thesis
    by (rule shop_local [where t = t]) (use assms(3) in \<open>simp_all add: local_simps\<close>)
qed

text \<open>The first worker takes the payload, and the second goes to sleep.\<close>

abbreviation asked_log :: "(nat \<times> nat payload access) list" where
  "asked_log \<equiv> [(2, Enq five_ones), (0, Saw_Empty False), (1, Saw_Empty False)]"

lemma shop_taken:
  "shop_reaches (shop_with [] None [Finished (Popped five_ones), Finished (Was_Empty False), Finished Pushed]
     (asked_log @ [(0, Deq five_ones)]) [Popping, Asking])"
proof -
  let ?p1 = "Finished (Was_Empty False)" and ?p2 = "Finished Pushed"
  note local_simps = step_defs goto_def release_def record_access_def take_front_def
  from shop_asked [OF shop_pushed, of 0]
  have "shop_reaches (shop_with [five_ones] None [?p1, Outside, ?p2] (pushed_log @ [(0, Saw_Empty False)]) [Asking, Resting])"
    by simp
  from shop_asked [OF this, of 1]
  have "shop_reaches (shop_with [five_ones] None [?p1, ?p1, ?p2] asked_log [Asking, Asking])" by simp
  from shop_sees [OF this, of 0]
  have "shop_reaches (shop_with [five_ones] None [Pop_Lock, ?p1, ?p2] asked_log [Popping, Asking])" by simp
  then have "shop_reaches (shop_with [five_ones] (Some 0) [Pop_Test, ?p1, ?p2] asked_log [Popping, Asking])"
    by (rule shop_local [where t = 0]) (simp_all add: local_simps)
  then have "shop_reaches (shop_with [five_ones] (Some 0) [Pop_Take, ?p1, ?p2] asked_log [Popping, Asking])"
    by (rule shop_local [where t = 0]) (simp_all add: local_simps)
  then have "shop_reaches (shop_with [] (Some 0) [Pop_Unlock five_ones, ?p1, ?p2]
      (asked_log @ [(0, Deq five_ones)]) [Popping, Asking])"
    by (rule shop_local [where t = 0]) (simp_all add: local_simps)
  then show ?thesis
    by (rule shop_local [where t = 0]) (simp_all add: local_simps)
qed

lemma shop_asleep:
  "shop_reaches (shop_with [] None [Finished (Popped five_ones), Pop_Waiting, Finished Pushed]
     (asked_log @ [(0, Deq five_ones)]) [Popping, Popping])"
proof -
  let ?p0 = "Finished (Popped five_ones)" and ?p2 = "Finished Pushed" and ?l = "asked_log @ [(0, Deq five_ones)]"
  note local_simps = step_defs goto_def release_def
  from shop_sees [OF shop_taken, of 1]
  have "shop_reaches (shop_with [] None [?p0, Pop_Lock, ?p2] ?l [Popping, Popping])" by simp
  then have "shop_reaches (shop_with [] (Some 1) [?p0, Pop_Test, ?p2] ?l [Popping, Popping])"
    by (rule shop_local [where t = 1]) (simp_all add: local_simps)
  then have "shop_reaches (shop_with [] (Some 1) [?p0, Pop_Wait, ?p2] ?l [Popping, Popping])"
    by (rule shop_local [where t = 1]) (simp_all add: local_simps)
  then show ?thesis
    by (rule shop_local [where t = 1]) (simp_all add: local_simps)
qed

text \<open>
C39: a worker that is alone at its queue never sleeps in \<open>process_one\<close>: when no other thread takes
from the queue, \<open>wait_and_pop\<close> finds the item that \<open>empty\<close> saw, whatever the others push. Of two
workers at one payload, though, one can end up asleep in \<open>wait_and_pop\<close> although \<open>process_one\<close> asked
first, and nothing in the queue can go on by itself.
\<close>

theorem workers_wait_only_together:
  "(\<forall>threads mult unset two s.
      reaches (shop_opens threads 1) (shop_moves mult unset two) (Inr (s :: 'v shop)) \<and>
      (\<forall>u x. (u, Deq x) \<in> set (log (in_q s)) \<longrightarrow> u = 0) \<longrightarrow>
      pcs (in_q s) ! 0 \<notin> {Pop_Wait, Pop_Waiting, Pop_Relock}) \<and>
   (\<exists>s :: nat shop. reaches (shop_opens 3 2) (shop_moves (*) 0 2) (Inr s) \<and>
      workers_at s ! 1 = Popping \<and> pcs (in_q s) ! 1 = Pop_Waiting \<and> items (in_q s) = [] \<and> \<not> can_move (in_q s))"
proof -
  have "pcs (in_q s) ! 0 \<notin> {Pop_Wait, Pop_Waiting, Pop_Relock}"
    if "reaches (shop_opens threads 1) (shop_moves mult unset two) (Inr s)"
      "\<forall>u x. (u, Deq x) \<in> set (log (in_q s)) \<longrightarrow> u = 0" for threads mult unset two and s :: "'v shop"
    using lone_worker.inv_reaches [OF that(1)] that(2) by (simp add: lone_inv_def only_first_takes_def)
  moreover
  let ?s = "shop_with [] None [Finished (Popped five_ones), Pop_Waiting, Finished Pushed]
    (asked_log @ [(0, Deq five_ones)]) [Popping, Popping]"
  have "local_step t (in_q ?s) = None \<and> pcs (in_q ?s) ! t \<noteq> Push_Notify" if "t < 3" for t
  proof -
    from that have "t = 0 \<or> t = 1 \<or> t = 2" by auto
    then show ?thesis by (elim disjE) (simp_all add: shop_with_def step_defs)
  qed
  then have "\<not> can_move (in_q ?s)" by (auto simp: can_move_def shop_with_def)
  then have "reaches (shop_opens 3 2) (shop_moves (*) 0 2) (Inr ?s) \<and> workers_at ?s ! 1 = Popping \<and>
      pcs (in_q ?s) ! 1 = Pop_Waiting \<and> items (in_q ?s) = [] \<and> \<not> can_move (in_q ?s)"
    using shop_asleep by (simp add: shop_reaches_def) (simp add: shop_with_def)
  ultimately show ?thesis by blast
qed

theorem workers_wait_only_together_witness:
  "\<exists>s :: nat shop. workers_at s = [Asking] \<and> pcs (in_q s) = [Empty_Lock Client] \<and>
     pcs (in_q s) ! 0 \<notin> {Pop_Wait, Pop_Waiting, Pop_Relock}"
proof -
  let ?fresh = "new_shop 1 1 :: nat shop"
  let ?s = "worker_goto 0 Asking (?fresh\<lparr>in_q := goto 0 (Empty_Lock Client) (in_q ?fresh)\<rparr>)"
  have "shop_step (*) 0 2 ?fresh (Inr ?s)" by (rule worker_asks) (simp_all add: new_shop_def)
  then have "shop_moves (*) 0 2 (Inr ?fresh) (Inr ?s)" by (simp add: shop_moves_def)
  then have "reaches (shop_opens 1 1) (shop_moves (*) 0 2) (Inr ?s)"
    by (rule reaches_step [OF reaches_init, rotated]) (simp add: shop_opens_def)
  moreover have "log (in_q ?s) = []" by (simp add: new_shop_def new_cq_def worker_goto_def)
  ultimately have "pcs (in_q ?s) ! 0 \<notin> {Pop_Wait, Pop_Waiting, Pop_Relock}"
    using workers_wait_only_together by fastforce
  then show ?thesis
    by (intro exI [of _ ?s] conjI) (simp_all add: new_shop_def new_cq_def worker_goto_def goto_def)
qed

text \<open>The first worker multiplies its payload and pushes the product.\<close>

abbreviation five_twos :: "nat payload" where
  "five_twos \<equiv> \<lparr>data = Some [2, 2, 2, 2, 2], data_len = 5\<rparr>"

lemma shop_out_local:
  assumes "shop_reaches s" "t < length (pcs (out_q s))" "local_step t (out_q s) = Some q"
  shows "shop_reaches (s\<lparr>out_q := q\<rparr>)"
proof -
  have "pcs q ! u = pcs (out_q s) ! u" if "between_calls (pcs (out_q s) ! u)" for u
    using that local_step_call [OF assms(3)] local_step_other [OF assms(3), of u] by (cases "t = u") auto
  moreover have "cq_step (out_q s) q" by (rule cq_local [OF assms(2,3)])
  ultimately have "queue_goes_on (length (workers_at s)) (out_q s) q" by (simp add: queue_goes_on_def)
  with shop_reaches_step [OF assms(1) out_goes_on] show ?thesis by simp
qed

lemma shop_doubled:
  "\<exists>s. shop_reaches s \<and> workers_at s ! 0 = Resting \<and> taken 0 (in_q s) = [five_ones] \<and> given 0 (out_q s) = [five_twos]"
proof -
  let ?base = "shop_with [] None [Finished (Popped five_ones), Finished (Was_Empty False), Finished Pushed]
     (asked_log @ [(0, Deq five_ones)]) [Popping, Asking]"
  let ?q = "\<lambda>its own p l. \<lparr>items = its, owner = own, pcs = [p, Outside, Outside], undefined_front = False, log = l\<rparr>"
  let ?s = "\<lambda>a its own p l. ?base\<lparr>workers_at := [a, Asking], out_q := ?q its own p l\<rparr>"
  let ?l = "[(0, Enq five_twos)]"
  note local_simps = step_defs goto_def release_def record_access_def shop_with_def
  have fresh: "new_cq 3 = ?q [] None Outside []" by (simp add: new_cq_def numeral_3_eq_3)
  have "shop_step (*) 0 2 ?base (Inr (worker_goto 0 (Holding five_ones) ?base))"
    by (rule worker_gets) (simp_all add: shop_with_def)
  from shop_reaches_step [OF shop_taken this]
  have held: "shop_reaches (?s (Holding five_ones) [] None Outside [])"
    by (simp add: shop_with_def worker_goto_def fresh)
  have "mult_arr (*) 0 five_ones 2 DATA_LEN = Inr five_twos"
    by (subst mult_arr_ok [of _ "[1, 1, 1, 1, 1]"]) (simp_all add: DATA_LEN_def five_ones_def)
  then have "shop_step (*) 0 2 (?s (Holding five_ones) [] None Outside [])
      (Inr (worker_goto 0 Sending ((?s (Holding five_ones) [] None Outside [])
        \<lparr>out_q := goto 0 (Push_Lock five_twos) (out_q (?s (Holding five_ones) [] None Outside []))\<rparr>)))"
    by (intro worker_multiplies) (simp_all add: shop_with_def)
  from shop_reaches_step [OF held this]
  have "shop_reaches (?s Sending [] None (Push_Lock five_twos) [])"
    by (simp add: shop_with_def worker_goto_def goto_def)
  from shop_out_local [OF this, of 0 "?q [] (Some 0) (Push_Enqueue five_twos) []"]
  have "shop_reaches (?s Sending [] (Some 0) (Push_Enqueue five_twos) [])" by (simp add: local_simps)
  from shop_out_local [OF this, of 0 "?q [five_twos] (Some 0) Push_Unlock ?l"]
  have "shop_reaches (?s Sending [five_twos] (Some 0) Push_Unlock ?l)" by (simp add: local_simps)
  from shop_out_local [OF this, of 0 "?q [five_twos] None Push_Notify ?l"]
  have told: "shop_reaches (?s Sending [five_twos] None Push_Notify ?l)" by (simp add: local_simps)
  let ?r = "?s Sending [five_twos] None Push_Notify ?l"
  have "cq_step (out_q ?r) (goto 0 (Finished Pushed) (out_q ?r))"
    by (rule cq_notify_none) (simp_all add: shop_with_def)
  then have "queue_goes_on (length (workers_at ?r)) (out_q ?r) (goto 0 (Finished Pushed) (out_q ?r))"
    by (simp add: queue_goes_on_def goto_def shop_with_def nth_Cons')
  from shop_reaches_step [OF told out_goes_on [OF this]]
  have sent: "shop_reaches (?s Sending [five_twos] None (Finished Pushed) ?l)"
    by (simp add: shop_with_def goto_def)
  have "shop_step (*) 0 2 (?s Sending [five_twos] None (Finished Pushed) ?l)
      (Inr (worker_goto 0 Resting (?s Sending [five_twos] None (Finished Pushed) ?l)))"
    by (rule worker_ends) (simp_all add: shop_with_def)
  from shop_reaches_step [OF sent this]
  have "shop_reaches (?s Resting [five_twos] None (Finished Pushed) ?l)"
    by (simp add: shop_with_def worker_goto_def)
  then show ?thesis
    by (intro exI [of _ "?s Resting [five_twos] None (Finished Pushed) ?l"])
      (simp add: shop_with_def taken_def given_def accesses_of_def)
qed

theorem workers_in_order_witness:
  "\<exists>s. reaches (shop_opens 3 2) (shop_moves (*) 0 2) (Inr (s :: nat shop)) \<and> taken 0 (in_q s) = [five_ones] \<and>
     list_all2 (\<lambda>x y. \<exists>vs. data x = Some vs \<and> 5 \<le> length vs \<and>
        y = \<lparr>data = Some (map (\<lambda>v. v * 2) (take 5 vs)), data_len = 5\<rparr>) [five_ones] (given 0 (out_q s)) \<and>
     given 0 (out_q s) = [five_twos]"
proof -
  obtain s where s: "reaches (shop_opens 3 2) (shop_moves (*) 0 2) (Inr (s :: nat shop))"
    "workers_at s ! 0 = Resting" "taken 0 (in_q s) = [five_ones]" "given 0 (out_q s) = [five_twos]"
    using shop_doubled unfolding shop_reaches_def by blast
  with workers_in_order [OF s(1), of 0] show ?thesis by (intro exI [of _ s]) simp
qed

end
