(* ===== verification/WorkerMain.thy ===== *)
theory WorkerMain imports Workers
begin

text \<open>
  \<open>main\<close> of \<open>test/b_thread.cpp\<close>. It makes no \<open>Worker\<close>: it creates threads that run an
  \<open>io_service\<close> without work, and joins them, keeping a count of the active ones.
\<close>

section \<open>State\<close>

text \<open>
  Where \<open>main\<close> is: before the creation of the thread of an index, before the test of the loop
  over the threads, in \<open>join\<close>, or at its end.
\<close>

datatype worker_main_pc = Creates nat | Tests nat | Joins nat | Has_Ended

text \<open>The variables of the file; \<open>thread_joined\<close> tells of each thread whether it was joined.\<close>

record worker_main =
  thread_count :: nat
  active :: nat
  planned :: nat
  crew_threads :: "io_thread list"
  thread_joined :: "bool list"
  worker_main_at :: worker_main_pc

text \<open>\<open>hardware_concurrency()\<close> is an \<open>unsigned\<close>, of which the double is taken before the conversion.\<close>

definition worker_main_start :: "nat \<Rightarrow> worker_main" where
  "worker_main_start cpus =
     (let count = (cpus * 2) mod 2 ^ 32 in
      \<lparr>thread_count = count, active = 0, planned = (count + 2 ^ 64 - 0) mod 2 ^ 64,
       crew_threads = [], thread_joined = [], worker_main_at = Creates 0\<rparr>)"

section \<open>Steps\<close>

definition worker_main_step :: "worker_main \<Rightarrow> worker_main option" where
  "worker_main_step s =
     (case worker_main_at s of
        Creates i \<Rightarrow>
          Some (if i < planned s
                then s\<lparr>active := (active s + 1) mod 2 ^ 64, crew_threads := crew_threads s @ [In_Io],
                       thread_joined := thread_joined s @ [False], worker_main_at := Creates (i + 1)\<rparr>
                else s\<lparr>worker_main_at := Tests 0\<rparr>)
      | Tests t \<Rightarrow>
          Some (if t < length (crew_threads s)
                then if \<not> thread_joined s ! t
                     then s\<lparr>active := (active s + 2 ^ 64 - 1) mod 2 ^ 64, worker_main_at := Joins t\<rparr>
                     else s\<lparr>worker_main_at := Tests (t + 1)\<rparr>
                else s\<lparr>worker_main_at := Has_Ended\<rparr>)
      | Joins t \<Rightarrow>
          if crew_threads s ! t = Past_Io
          then Some (s\<lparr>thread_joined := (thread_joined s)[t := True], worker_main_at := Tests (t + 1)\<rparr>)
          else None
      | Has_Ended \<Rightarrow> None)"

text \<open>The service has no work: \<open>run\<close> returns.\<close>

definition idle_thread :: "nat \<Rightarrow> worker_main \<Rightarrow> worker_main option" where
  "idle_thread t s =
     (if t < length (crew_threads s) \<and> crew_threads s ! t = In_Io
      then Some (s\<lparr>crew_threads := (crew_threads s)[t := Past_Io]\<rparr>) else None)"

definition worker_run_step :: "worker_main \<Rightarrow> worker_main \<Rightarrow> bool" where
  "worker_run_step s s' \<longleftrightarrow> worker_main_step s = Some s' \<or> (\<exists>t. idle_thread t s = Some s')"

section \<open>The end\<close>

text \<open>The first \<open>j\<close> of the threads are joined, which were past \<open>run\<close> then.\<close>

definition joined_first :: "nat \<Rightarrow> worker_main \<Rightarrow> bool" where
  "joined_first j s \<longleftrightarrow> j \<le> length (crew_threads s) \<and>
     thread_joined s = replicate j True @ replicate (length (crew_threads s) - j) False \<and>
     (\<forall>t < j. crew_threads s ! t = Past_Io)"

definition worker_main_ok :: "nat \<Rightarrow> worker_main \<Rightarrow> bool" where
  "worker_main_ok n s \<longleftrightarrow> thread_count s = n \<and> planned s = n \<and>
     (case worker_main_at s of
        Creates i \<Rightarrow> i \<le> n \<and> length (crew_threads s) = i \<and> active s = i \<and> joined_first 0 s
      | Tests t \<Rightarrow> length (crew_threads s) = n \<and> active s = n - t \<and> joined_first t s
      | Joins t \<Rightarrow> t < n \<and> length (crew_threads s) = n \<and> active s = n - Suc t \<and> joined_first t s
      | Has_Ended \<Rightarrow> length (crew_threads s) = n \<and> active s = 0 \<and> joined_first n s)"

definition worker_main_left :: "nat \<Rightarrow> worker_main \<Rightarrow> nat" where
  "worker_main_left n s = (n - length (crew_threads s)) + count_list (crew_threads s) In_Io +
     (case worker_main_at s of
        Creates i \<Rightarrow> (n - i) + 2 * n + 2
      | Tests t \<Rightarrow> 2 * (n - t) + 1
      | Joins t \<Rightarrow> 2 * (n - t)
      | Has_Ended \<Rightarrow> 0)"

lemma joined_frame:
  "joined_first j s \<Longrightarrow> joined_first j (s\<lparr>crew_threads := (crew_threads s)[t := Past_Io]\<rparr>)"
  by (cases "t < length (crew_threads s)") (auto simp: joined_first_def nth_list_update)

lemma joined_at:
  "joined_first j s \<Longrightarrow> j < length (crew_threads s) \<Longrightarrow> \<not> thread_joined s ! j"
  by (simp add: joined_first_def nth_append)

lemma joined_next:
  assumes "joined_first j s" "j < length (crew_threads s)" "crew_threads s ! j = Past_Io"
  shows "joined_first (Suc j) (s\<lparr>thread_joined := (thread_joined s)[j := True], worker_main_at := p\<rparr>)"
proof -
  let ?rest = "replicate (length (crew_threads s) - Suc j) False"
  have "replicate (length (crew_threads s) - j) False = False # ?rest"
    using assms(2) by (metis Suc_diff_Suc replicate_Suc)
  with assms(1) have "(thread_joined s)[j := True] = replicate j True @ True # ?rest"
    by (simp add: joined_first_def list_update_append)
  with assms show ?thesis
    by (simp add: joined_first_def less_Suc_eq replicate_app_Cons_same)
qed

lemma count_down:
  fixes n t :: nat
  assumes "t < n" "n < 2 ^ 64"
  shows "(n - t + 2 ^ 64 - 1) mod 2 ^ 64 = n - Suc t"
proof -
  have "n - t + 2 ^ 64 - 1 = (n - Suc t) + 2 ^ 64" using assms(1) by simp
  with assms(2) show ?thesis by (simp only: mod_add_self2) simp
qed

lemma worker_main_uses_up:
  assumes ok: "worker_main_ok n s" and n: "n < 2 ^ 64" and step: "worker_main_step s = Some s'"
  shows "worker_main_ok n s' \<and> worker_main_left n s' < worker_main_left n s"
proof (cases "worker_main_at s")
  case (Creates i)
  with ok step n show ?thesis
    by (auto simp: worker_main_ok_def worker_main_left_def worker_main_step_def joined_first_def
        replicate_append_same split: if_splits)
next
  case (Tests t)
  show ?thesis
  proof (cases "t < n")
    case True
    with Tests ok have "\<not> thread_joined s ! t" using joined_at by (simp add: worker_main_ok_def)
    with True Tests ok step have s': "s' = s\<lparr>active := n - Suc t, worker_main_at := Joins t\<rparr>"
      using count_down [OF True n] by (simp only: worker_main_ok_def worker_main_step_def) auto
    with True Tests ok show ?thesis
      by (simp add: worker_main_ok_def worker_main_left_def joined_first_def)
  next
    case False
    with Tests ok step show ?thesis
      by (auto simp: worker_main_ok_def worker_main_left_def worker_main_step_def joined_first_def)
  qed
next
  case (Joins t)
  with ok step joined_next [of t s "Tests (t + 1)"] show ?thesis
    by (auto simp: worker_main_ok_def worker_main_left_def worker_main_step_def split: if_splits)
qed (use step in \<open>simp add: worker_main_step_def\<close>)

lemma idle_thread_uses_up:
  assumes ok: "worker_main_ok n s" and step: "idle_thread t s = Some s'"
  shows "worker_main_ok n s' \<and> worker_main_left n s' < worker_main_left n s"
proof -
  from step have t: "t < length (crew_threads s)" "crew_threads s ! t = In_Io"
    and s': "s' = s\<lparr>crew_threads := (crew_threads s)[t := Past_Io]\<rparr>"
    by (auto simp: idle_thread_def split: if_splits)
  with ok joined_frame [of _ s t] count_update [OF t] show ?thesis
    by (simp add: worker_main_ok_def worker_main_left_def split: worker_main_pc.splits)
qed

interpretation worker_program: ending_system worker_run_step
  "\<lambda>s. n < 2 ^ 64 \<and> worker_main_ok n s" "worker_main_left n" "\<lambda>s. worker_main_at s = Has_Ended"
  for n
proof
  fix s s'
  assume "n < 2 ^ 64 \<and> worker_main_ok n s" "worker_run_step s s'"
  then show "(n < 2 ^ 64 \<and> worker_main_ok n s') \<and> worker_main_left n s' < worker_main_left n s"
    using worker_main_uses_up idle_thread_uses_up unfolding worker_run_step_def by blast
next
  fix s
  assume inv: "n < 2 ^ 64 \<and> worker_main_ok n s" and "worker_main_at s \<noteq> Has_Ended"
  then show "\<exists>s'. worker_run_step s s'"
  proof (cases "\<exists>t < length (crew_threads s). crew_threads s ! t = In_Io")
    case True
    then show ?thesis by (auto simp: worker_run_step_def idle_thread_def)
  next
    case False
    with inv \<open>worker_main_at s \<noteq> Has_Ended\<close> have "worker_main_step s \<noteq> None"
      by (cases "worker_main_at s") (auto simp: worker_main_step_def worker_main_ok_def intro: io_thread.exhaust)
    then show ?thesis by (auto simp: worker_run_step_def)
  qed
qed

text \<open>
The program ends. It makes at most four steps for each of its threads and two more, in every
interleaving, never gets stuck before the end of \<open>main\<close> and of the threads, and then it has created
twice as many threads as there are processors, joined each of them, and counts none as active.
\<close>

lemma worker_main_ends:
  assumes "(worker_run_step ^^ k) (worker_main_start cpus) s"
  shows "k \<le> 4 * thread_count s + 2 \<and> thread_count s = cpus * 2 mod 2 ^ 32 \<and>
    ((\<exists>s'. worker_run_step s s') \<or>
     worker_main_at s = Has_Ended \<and> active s = 0 \<and>
     crew_threads s = replicate (thread_count s) Past_Io \<and> thread_joined s = replicate (thread_count s) True)"
proof -
  let ?n = "cpus * 2 mod 2 ^ 32"
  have "?n < 2 ^ 32" by simp
  then have n: "?n < 2 ^ 64" by (rule less_trans) simp
  have "worker_main_ok ?n (worker_main_start cpus)"
    using n by (simp add: worker_main_ok_def worker_main_start_def joined_first_def Let_def)
  with worker_program.bounded_run [OF assms] n
  have run: "?n < 2 ^ 64 \<and> worker_main_ok ?n s" "k + worker_main_left ?n s \<le> worker_main_left ?n (worker_main_start cpus)"
    by blast+
  have "k \<le> 4 * ?n + 2"
    using run(2) by (simp add: worker_main_left_def worker_main_start_def Let_def)
  moreover have "\<exists>s'. worker_run_step s s'" if "worker_main_at s \<noteq> Has_Ended"
    using worker_program.goes_on [OF run(1) that] .
  moreover have "crew_threads s = replicate ?n Past_Io" if "worker_main_at s = Has_Ended"
    using run(1) that by (intro nth_equalityI) (auto simp: worker_main_ok_def joined_first_def)
  ultimately show ?thesis
    using run(1) by (cases "worker_main_at s = Has_Ended") (auto simp: worker_main_ok_def joined_first_def)
qed

end
