(* ===== verification/BridgeMain.thy ===== *)
theory BridgeMain imports ServiceBridge "HOL-Library.Word"
begin

text \<open>
  \<open>main\<close> of \<open>test/test01_server.cpp\<close>: it reads the services, creates the threads, and asks each
  of them with \<open>try_join_for\<close> whether it has ended, before and after it stops the scheduler. The
  threads run \<open>io_service::run\<close> meanwhile. What the debug flag prints is left out.
\<close>

section \<open>State\<close>

text \<open>Where \<open>main\<close> is: in one of its loops, before the thread of the given index, or at its end.\<close>

datatype check_pc = First_Look nat | Second_Look nat | Main_Over

record 'a bridge_run =
  the_bridge :: "'a bridge"
  run_threads :: "io_thread list"
  can_join :: "bool list"
  scheduler_stopped :: bool
  dead :: "16 word"
  number :: "16 word"
  shown :: string
  check_at :: check_pc

text \<open>An exception that nobody catches, or undefined behaviour.\<close>

datatype main_fault = Uncaught stoull_error | Undefined ub

definition bridge_path :: string where
  "bridge_path = ''/home/jwatson/isaac_ros_service/test/test01.srv''"

definition bridge_greeting :: "'a bridge \<Rightarrow> string" where
  "bridge_greeting b =
     ''There are '' @ dec_text (how_many_services b) @ '' services.'' @ [LF] @
     ''Will poll ROS at the following topics: '' @ vector_text id (get_served_ROS_topic_names b) @ [LF]"

definition bridge_ready :: "'a bridge \<Rightarrow> string" where
  "bridge_ready b =
     ''Ready to connect at '' @ bridge_ip b @ '':'' @ dec_text (bridge_port b) @ [LF] @
     ''There are still '' @ dec_text (created_threads b) @ '' threads!'' @ [LF]"

text \<open>
  Up to the first loop. There is no result when the loop of \<open>init_server\<close> does not end; \<open>u\<close>, \<open>v\<close>
  and \<open>w\<close> are in the members that the constructor leaves unset.
\<close>

definition bridge_main_start ::
    "nat \<Rightarrow> string \<Rightarrow> (string \<Rightarrow> bool) \<Rightarrow> (string \<Rightarrow> string option) \<Rightarrow> nat \<Rightarrow> nat \<Rightarrow> nat \<Rightarrow> status_code_type \<Rightarrow>
     main_fault + 'a bridge_run option" where
  "bridge_main_start cpus local_ip stat_file fs n u v w =
     (case file_bridge stat_file fs n bridge_path (new_bridge 2 8000 u v w) of
        Inl e \<Rightarrow> Inl (Uncaught e)
      | Inr b \<Rightarrow>
          (case init_server cpus local_ip b of
             Inl e \<Rightarrow> Inl (Undefined e)
           | Inr None \<Rightarrow> Inr None
           | Inr (Some b') \<Rightarrow>
               Inr (Some \<lparr>the_bridge = b', run_threads = replicate (created_threads b') In_Io,
                 can_join = replicate (created_threads b') True, scheduler_stopped = False,
                 dead = 0, number = 1, shown = bridge_greeting b @ bridge_ready b',
                 check_at = First_Look 0\<rparr>)))"

section \<open>Steps\<close>

text \<open>
  The body of both loops. It looks at the thread once, in \<open>try_join_for\<close>, which joins it when it
  has ended; so the body is one step. Both counters have 16 bits.
\<close>

definition look_at :: "nat \<Rightarrow> 'a bridge_run \<Rightarrow> 'a bridge_run" where
  "look_at t s =
     (let s = s\<lparr>shown := shown s @ HT # ''Thread '' @ dec_text (unat (number s)) @ '' of '' @
                dec_text (length (run_threads s)) @ '' is ''\<rparr>;
          s = (if can_join s ! t
               then if run_threads s ! t = Past_Io
                    then s\<lparr>can_join := (can_join s)[t := False], dead := dead s + 1,
                           shown := shown s @ ''DEAD!'' @ [LF]\<rparr>
                    else s\<lparr>shown := shown s @ ''ALIVE!'' @ [LF]\<rparr>
               else s)
      in s\<lparr>number := number s + 1\<rparr>)"

definition dead_line :: "16 word \<Rightarrow> string" where
  "dead_line d = ''There are '' @ dec_text (unat d) @ '' dead threads!'' @ [LF]"

definition bridge_main_step :: "'a bridge_run \<Rightarrow> 'a bridge_run option" where
  "bridge_main_step s =
     (case check_at s of
        First_Look t \<Rightarrow>
          Some (if t < length (run_threads s) then (look_at t s)\<lparr>check_at := First_Look (t + 1)\<rparr>
                else s\<lparr>shown := shown s @ dead_line (dead s), scheduler_stopped := True,
                       dead := 0, number := 1, check_at := Second_Look 0\<rparr>)
      | Second_Look t \<Rightarrow>
          Some (if t < length (run_threads s) then (look_at t s)\<lparr>check_at := Second_Look (t + 1)\<rparr>
                else s\<lparr>shown := shown s @ dead_line (dead s), check_at := Main_Over\<rparr>)
      | Main_Over \<Rightarrow> None)"

text \<open>The member \<open>dispatcher\<close> keeps the threads in \<open>run\<close>, which has nothing to do, until the stop.\<close>

definition bridge_thread :: "nat \<Rightarrow> 'a bridge_run \<Rightarrow> 'a bridge_run option" where
  "bridge_thread t s =
     (if t < length (run_threads s) \<and> run_threads s ! t = In_Io \<and> scheduler_stopped s
      then Some (s\<lparr>run_threads := (run_threads s)[t := Past_Io]\<rparr>) else None)"

text \<open>The program ends with \<open>main\<close>.\<close>

definition bridge_run_step :: "'a bridge_run \<Rightarrow> 'a bridge_run \<Rightarrow> bool" where
  "bridge_run_step s s' \<longleftrightarrow> check_at s \<noteq> Main_Over \<and>
     (bridge_main_step s = Some s' \<or> (\<exists>t. bridge_thread t s = Some s'))"

section \<open>What is printed\<close>

text \<open>The report on the threads, of which some are found to have ended.\<close>

definition look_text :: "nat \<Rightarrow> nat \<Rightarrow> bool \<Rightarrow> string" where
  "look_text len t d = HT # ''Thread '' @ dec_text (Suc t mod 2 ^ 16) @ '' of '' @ dec_text len @ '' is '' @
     (if d then ''DEAD!'' else ''ALIVE!'') @ [LF]"

definition looks :: "nat \<Rightarrow> bool list \<Rightarrow> string" where
  "looks len ds = concat (map (\<lambda>(t, d). look_text len t d) (zip [0..<length ds] ds))"

definition report :: "bool list \<Rightarrow> string" where
  "report ds = looks (length ds) ds @
     ''There are '' @ dec_text (count_list ds True mod 2 ^ 16) @ '' dead threads!'' @ [LF]"

lemma looks_Nil [simp]: "looks len [] = []"
  by (simp add: looks_def)

lemma looks_snoc [simp]: "looks len (ds @ [d]) = looks len ds @ look_text len (length ds) d"
  by (simp add: looks_def)

lemma dead_line_report: "looks (length ds) ds @ dead_line (of_nat (count_list ds True)) = report ds"
  by (simp add: report_def dead_line_def unat_of_nat)

lemma count_alive [simp]: "count_list (replicate n False) True = 0"
  by (induction n) simp_all

text \<open>The body of a loop in terms of the report, for a thread that was not joined before.\<close>

lemma look_at_fields:
  assumes "number s = of_nat (Suc t)" "can_join s ! t"
  shows "shown (look_at t s) = shown s @ look_text (length (run_threads s)) t (run_threads s ! t = Past_Io)"
    "number (look_at t s) = of_nat (Suc (Suc t))"
    "dead (look_at t s) = (if run_threads s ! t = Past_Io then dead s + 1 else dead s)"
    "can_join (look_at t s) = (if run_threads s ! t = Past_Io then (can_join s)[t := False] else can_join s)"
    "run_threads (look_at t s) = run_threads s" "scheduler_stopped (look_at t s) = scheduler_stopped s"
    "the_bridge (look_at t s) = the_bridge s"
proof -
  have "unat (number s) = Suc t mod 2 ^ 16" unfolding assms(1) by (simp only: unat_of_nat) simp
  with assms show "shown (look_at t s) = shown s @ look_text (length (run_threads s)) t (run_threads s ! t = Past_Io)"
    by (simp add: look_at_def look_text_def Let_def)
qed (use assms in \<open>simp_all add: look_at_def Let_def\<close>)

section \<open>The end of the program\<close>

text \<open>The verdicts so far, \<open>ds\<close>, in the loop over the threads, and what was printed before it.\<close>

definition looking :: "string \<Rightarrow> bool list \<Rightarrow> 'a bridge_run \<Rightarrow> bool" where
  "looking text ds s \<longleftrightarrow> length ds \<le> length (run_threads s) \<and>
     shown s = text @ looks (length (run_threads s)) ds \<and>
     dead s = of_nat (count_list ds True) \<and> number s = of_nat (Suc (length ds)) \<and>
     can_join s = map Not ds @ replicate (length (run_threads s) - length ds) True \<and>
     (\<forall>t < length ds. ds ! t \<longrightarrow> run_threads s ! t = Past_Io)"

definition bridge_ok :: "nat \<Rightarrow> string \<Rightarrow> 'a bridge_run \<Rightarrow> bool" where
  "bridge_ok n text s \<longleftrightarrow> length (run_threads s) = n \<and>
     (case check_at s of
        First_Look t \<Rightarrow> t \<le> n \<and> \<not> scheduler_stopped s \<and> run_threads s = replicate n In_Io \<and>
          looking text (replicate t False) s
      | Second_Look t \<Rightarrow> (\<exists>ds. length ds = t \<and> looking (text @ report (replicate n False)) ds s)
      | Main_Over \<Rightarrow> (\<exists>ds. length ds = n \<and> (\<forall>t < n. ds ! t \<longrightarrow> run_threads s ! t = Past_Io) \<and>
          shown s = text @ report (replicate n False) @ report ds))"

definition bridge_left :: "'a bridge_run \<Rightarrow> nat" where
  "bridge_left s = count_list (run_threads s) In_Io +
     (case check_at s of
        First_Look t \<Rightarrow> 2 * length (run_threads s) + 2 - t
      | Second_Look t \<Rightarrow> length (run_threads s) + 1 - t
      | Main_Over \<Rightarrow> 0)"

lemma looking_step:
  assumes "looking text ds s" "length ds < length (run_threads s)"
  shows "looking text (ds @ [run_threads s ! length ds = Past_Io]) ((look_at (length ds) s)\<lparr>check_at := p\<rparr>)"
proof -
  have join: "can_join s ! length ds" using assms by (simp add: looking_def nth_append)
  have num: "number s = of_nat (Suc (length ds))" using assms by (simp add: looking_def)
  have rest: "replicate (length (run_threads s) - length ds) True =
      True # replicate (length (run_threads s) - Suc (length ds)) True"
    using assms(2) by (metis Suc_diff_Suc replicate_Suc)
  note fields = look_at_fields [OF num join]
  show ?thesis
    using assms rest
    by (auto simp: looking_def fields less_Suc_eq nth_append list_update_append count_list_append)
qed

lemma looking_frame:
  "looking text ds s \<Longrightarrow> looking text ds (s\<lparr>run_threads := (run_threads s)[t := Past_Io]\<rparr>)"
  by (cases "t < length (run_threads s)") (auto simp: looking_def nth_list_update)

lemma looking_start:
  "dead s = 0 \<Longrightarrow> number s = 1 \<Longrightarrow> can_join s = replicate (length (run_threads s)) True \<Longrightarrow> looking (shown s) [] s"
  by (simp add: looking_def)

text \<open>What the steps of \<open>main\<close> and of the threads do to the invariant and to the steps left.\<close>

lemma bridge_first_look:
  assumes ok: "bridge_ok n text s" and step: "bridge_main_step s = Some s'" and First_Look: "check_at s = First_Look t"
  shows "bridge_ok n text s' \<and> bridge_left s' < bridge_left s"
proof -
  from ok First_Look have inv: "t \<le> n" "\<not> scheduler_stopped s" "run_threads s = replicate n In_Io"
    "looking text (replicate t False) s" by (simp_all add: bridge_ok_def)
  show ?thesis
  proof (cases "t < n")
    case True
    with First_Look step inv have s': "s' = (look_at t s)\<lparr>check_at := First_Look (t + 1)\<rparr>"
      by (simp add: bridge_main_step_def)
    have "number s = of_nat (Suc t)" "can_join s ! t"
      using inv(4) True by (simp_all add: looking_def inv(3) nth_append)
    note fields = look_at_fields [OF this]
    have "looking text (replicate t False @ [False]) s'"
      using looking_step [OF inv(4)] True by (simp add: s' inv(3))
    then show ?thesis
      using True inv(2,3) First_Look
      by (simp add: bridge_ok_def bridge_left_def s' fields replicate_append_same)
  next
    case False
    with inv(1) have t: "t = n" by simp
    with First_Look step inv(3) have s': "s' = s\<lparr>shown := shown s @ dead_line (dead s), scheduler_stopped := True,
        dead := 0, number := 1, check_at := Second_Look 0\<rparr>" by (simp add: bridge_main_step_def)
    have "shown s' = text @ report (replicate n False)"
      using inv(4) dead_line_report [of "replicate n False"] by (simp add: s' looking_def inv(3) t)
    moreover have "looking (shown s') [] s'"
      using inv(4) by (intro looking_start) (simp_all add: s' looking_def inv(3) t)
    ultimately show ?thesis
      using First_Look t by (simp add: bridge_ok_def bridge_left_def inv(3)) (simp add: s' inv(3))
  qed
qed

lemma bridge_second_look:
  assumes ok: "bridge_ok n text s" and step: "bridge_main_step s = Some s'" and Second_Look: "check_at s = Second_Look t"
  shows "bridge_ok n text s' \<and> bridge_left s' < bridge_left s"
proof -
  let ?text = "text @ report (replicate n False)"
  from ok Second_Look obtain ds where inv: "length (run_threads s) = n" "length ds = t" "looking ?text ds s"
    by (auto simp: bridge_ok_def)
  show ?thesis
  proof (cases "t < n")
    case True
    with Second_Look step inv have s': "s' = (look_at t s)\<lparr>check_at := Second_Look (t + 1)\<rparr>"
      by (simp add: bridge_main_step_def)
    have "number s = of_nat (Suc t)" "can_join s ! t"
      using inv True by (simp_all add: looking_def nth_append)
    note fields = look_at_fields [OF this]
    have "looking ?text (ds @ [run_threads s ! t = Past_Io]) s'"
      using looking_step [OF inv(3)] True inv(1,2) by (simp add: s')
    then show ?thesis
      using True Second_Look inv(1,2)
      by (auto simp: bridge_ok_def bridge_left_def s' fields intro!: exI [of _ "ds @ [run_threads s ! t = Past_Io]"])
  next
    case False
    with inv have t: "t = n" by (simp add: looking_def)
    with Second_Look step inv(1) have s': "s' = s\<lparr>shown := shown s @ dead_line (dead s), check_at := Main_Over\<rparr>"
      by (simp add: bridge_main_step_def)
    have "shown s' = ?text @ report ds"
      using inv t dead_line_report [of ds] by (simp add: s' looking_def)
    then show ?thesis
      using Second_Look t inv by (auto simp: bridge_ok_def bridge_left_def s' looking_def)
  qed
qed

lemma bridge_main_ok:
  assumes "bridge_ok n text s" "bridge_main_step s = Some s'"
  shows "bridge_ok n text s' \<and> bridge_left s' < bridge_left s"
proof (cases "check_at s")
  case (First_Look t)
  with assms show ?thesis by (rule bridge_first_look)
next
  case (Second_Look t)
  with assms show ?thesis by (rule bridge_second_look)
qed (use assms(2) in \<open>simp add: bridge_main_step_def\<close>)

lemma bridge_thread_ok:
  assumes ok: "bridge_ok n text s" and step: "bridge_thread t s = Some s'" and "check_at s \<noteq> Main_Over"
  shows "bridge_ok n text s' \<and> bridge_left s' < bridge_left s"
proof -
  from step have t: "t < length (run_threads s)" "run_threads s ! t = In_Io" "scheduler_stopped s"
    and s': "s' = s\<lparr>run_threads := (run_threads s)[t := Past_Io]\<rparr>"
    by (auto simp: bridge_thread_def split: if_splits)
  with ok assms(3) obtain ds where inv: "length (run_threads s) = n" "check_at s = Second_Look (length ds)"
    "looking (text @ report (replicate n False)) ds s"
    by (cases "check_at s") (auto simp: bridge_ok_def)
  with looking_frame [OF inv(3), of t] count_update [OF t(1,2)] show ?thesis
    by (auto simp: bridge_ok_def bridge_left_def s')
qed

interpretation bridge_program: ending_system bridge_run_step "bridge_ok n before" bridge_left
  "\<lambda>s. check_at s = Main_Over"
  for n before
proof
  fix s s' :: "'a bridge_run"
  assume "bridge_ok n before s" "bridge_run_step s s'"
  then show "bridge_ok n before s' \<and> bridge_left s' < bridge_left s"
    using bridge_main_ok bridge_thread_ok unfolding bridge_run_step_def by blast
next
  fix s :: "'a bridge_run"
  assume "check_at s \<noteq> Main_Over"
  then show "\<exists>s'. bridge_run_step s s'"
    by (cases "check_at s") (auto simp: bridge_run_step_def bridge_main_step_def)
qed

lemma bridge_ok_start:
  assumes "bridge_main_start cpus local_ip stat_file fs n u v w = Inr (Some s)"
  shows "bridge_ok (created_threads (the_bridge s)) (shown s) s"
    "length (run_threads s) = created_threads (the_bridge s)" "check_at s = First_Look 0"
    "count_list (run_threads s) In_Io = created_threads (the_bridge s)"
proof -
  have same: "count_list (replicate m x) x = m" for m and x :: io_thread by (induction m) simp_all
  from assms obtain b out where "s = \<lparr>the_bridge = b, run_threads = replicate (created_threads b) In_Io,
       can_join = replicate (created_threads b) True, scheduler_stopped = False, dead = 0, number = 1,
       shown = out, check_at = First_Look 0\<rparr>"
    by (auto simp: bridge_main_start_def split: sum.splits option.splits)
  then show "bridge_ok (created_threads (the_bridge s)) (shown s) s"
    "length (run_threads s) = created_threads (the_bridge s)" "check_at s = First_Look 0"
    "count_list (run_threads s) In_Io = created_threads (the_bridge s)"
    by (simp_all add: bridge_ok_def looking_def same)
qed

text \<open>The threads may all be slower than \<open>main\<close>.\<close>

lemma bridge_main_alone:
  "bridge_ok n before s \<Longrightarrow>
     \<exists>r. bridge_run_step\<^sup>*\<^sup>* s r \<and> check_at r = Main_Over \<and> run_threads r = run_threads s"
proof (induction "bridge_left s" arbitrary: s rule: less_induct)
  case less
  show ?case
  proof (cases "check_at s = Main_Over")
    case False
    then obtain s' where s': "bridge_main_step s = Some s'"
      by (cases "check_at s") (auto simp: bridge_main_step_def)
    have same: "run_threads s' = run_threads s"
      using s' by (auto simp: bridge_main_step_def look_at_def Let_def split: check_pc.splits)
    from bridge_main_ok [OF less.prems s'] less.hyps obtain r where
      "bridge_run_step\<^sup>*\<^sup>* s' r" "check_at r = Main_Over" "run_threads r = run_threads s'" by blast
    moreover have "bridge_run_step s s'" using False s' by (simp add: bridge_run_step_def)
    ultimately show ?thesis unfolding same by (blast intro: converse_rtranclp_into_rtranclp)
  qed blast
qed

text \<open>
Without a service there is no thread, but a division by zero: on a machine without the file whose
path is in the program, it does not get to its loops.
\<close>

lemma no_file_no_program:
  assumes "readlines stat_file fs bridge_path = []"
  shows "bridge_main_start cpus local_ip stat_file fs n u v w = Inl (Undefined Division_By_Zero)"
  using assms
  by (simp add: bridge_main_start_def file_bridge_def parse_service_file_def min_lines_def
      init_server_def thread_plan_def new_bridge_def Let_def)

section \<open>The properties\<close>

text \<open>
C40: the program ends, and what it prints of its threads. However main and the threads interleave,
it makes at most three steps for each thread and two more, and gets stuck only at the end of
\<open>main\<close>. By then it has reported every thread alive, and none dead, before the stop; after the stop it
has reported some threads dead, their number with 16 bits, and those have left
\<open>io_service::run\<close>. Of a thread reported alive nothing is known: in some run \<open>main\<close> ends, which
destroys the scheduler, with every thread in its \<open>run\<close>.
\<close>

theorem bridge_main_reports:
  assumes "bridge_main_start cpus local_ip stat_file fs n u v w = Inr (Some s)"
    and "(bridge_run_step ^^ k) s r"
  shows "k \<le> 3 * created_threads (the_bridge s) + 2 \<and>
    ((\<exists>r'. bridge_run_step r r') \<or>
     check_at r = Main_Over \<and>
     (\<exists>ds. length ds = created_threads (the_bridge s) \<and>
        shown r = shown s @ report (replicate (length ds) False) @ report ds \<and>
        (\<forall>t < length ds. \<not> (ds ! t \<and> run_threads r ! t = In_Io)))) \<and>
    (\<exists>e. bridge_run_step\<^sup>*\<^sup>* s e \<and> check_at e = Main_Over \<and>
       run_threads e = replicate (created_threads (the_bridge s)) In_Io)"
proof -
  note start = bridge_ok_start [OF assms(1)]
  from bridge_program.bounded_run [OF assms(2) start(1)]
  have run: "bridge_ok (created_threads (the_bridge s)) (shown s) r" "k + bridge_left r \<le> bridge_left s" by blast+
  have "bridge_left s = 3 * created_threads (the_bridge s) + 2"
    using start by (simp add: bridge_left_def)
  moreover have "\<exists>r'. bridge_run_step r r'" if "check_at r \<noteq> Main_Over"
    using bridge_program.goes_on [OF run(1) that] .
  moreover have "run_threads s = replicate (created_threads (the_bridge s)) In_Io"
    using start by (simp add: bridge_ok_def)
  moreover note bridge_main_alone [OF start(1)]
  ultimately show ?thesis
    using run by (cases "check_at r = Main_Over") (auto simp: bridge_ok_def)
qed

text \<open>The file of the repository, on one processor.\<close>

lemma sample_bridge_start:
  "\<exists>s. bridge_main_start 1 ''127.0.0.1'' (\<lambda>path. True) (\<lambda>path. Some ''test/service,100,20,20'') 1 0 0 CLOSED =
      Inr (Some (s :: nat bridge_run)) \<and> created_threads (the_bridge s) = 2"
proof -
  have "dec_text 100 = ''100''" "dec_text 20 = ''20''" by code_simp+
  then have numbers: "stoull ''100'' = Inr 100" "stoull ''20'' = Inr 20"
    using stoull_dec_text [of 100] stoull_dec_text [of 20] by (simp_all add: size_max_def)
  have lines: "readlines (\<lambda>path. True) (\<lambda>path. Some ''test/service,100,20,20'') bridge_path = [''test/service,100,20,20'']"
    by code_simp
  have fields: "split_CSV_line ''test/service,100,20,20'' '','' True = [''test/service'', ''100'', ''20'', ''20'']"
    by code_simp
  show ?thesis
    by (simp add: bridge_main_start_def file_bridge_def parse_service_file_def lines parse_line_def fields numbers
        min_lines_def min_attrs_def init_server_def thread_plan_def new_bridge_def container_has_def Let_def)
qed

theorem bridge_main_reports_witness:
  "\<exists>(s :: nat bridge_run) e.
     bridge_main_start 1 ''127.0.0.1'' (\<lambda>path. True) (\<lambda>path. Some ''test/service,100,20,20'') 1 0 0 CLOSED = Inr (Some s) \<and>
     bridge_run_step\<^sup>*\<^sup>* s e \<and> check_at e = Main_Over \<and> run_threads e = [In_Io, In_Io]"
proof -
  obtain s :: "nat bridge_run" where s: "bridge_main_start 1 ''127.0.0.1'' (\<lambda>path. True)
      (\<lambda>path. Some ''test/service,100,20,20'') 1 0 0 CLOSED = Inr (Some s)" "created_threads (the_bridge s) = 2"
    using sample_bridge_start by blast
  from bridge_main_reports [OF s(1), of 0 s] s show ?thesis by (auto simp: numeral_2_eq_2)
qed

end
