(* ===== verification/TrialServers.thy ===== *)
theory TrialServers imports Prelude
begin

text \<open>
  What the trial programs of \<open>test/\<close> do with their sockets: the accept loop of
  \<open>test02_server.cpp\<close>, which otherwise repeats \<open>test01_server.cpp\<close>, and the connecting and accepting
  of \<open>srl_client.cpp\<close> and \<open>srl_server.cpp\<close>. The answers of the network are arguments; that an open
  acceptor or socket is not opened again is documented behaviour of the network library.
\<close>

datatype trial_error = Already_Open | Host_Not_Found | Net_Error nat

section \<open>The second server\<close>

record second_server =
  receiver_open :: bool
  sock_open :: bool

text \<open>The constructor opens, binds and starts the acceptor, or throws.\<close>

definition second_server_start :: "trial_error option \<Rightarrow> trial_error + second_server" where
  "second_server_start listening =
     (case listening of
        Some e \<Rightarrow> Inl e
      | None \<Rightarrow> Inr \<lparr>receiver_open = True, sock_open = False\<rparr>)"

text \<open>What the network answers to the calls of \<open>accept_one\<close>: the error of each, if any.\<close>

record second_answers =
  resolve_fails :: "trial_error option"
  open_fails :: "trial_error option"
  option_fails :: "trial_error option"
  bind_fails :: "trial_error option"
  listen_fails :: "trial_error option"
  accept_results :: "trial_error option list"

text \<open>
  The loop accepts into the member \<open>sock\<close>; its own socket is not used. \<open>None\<close> is a loop that waits
  for a further client.
\<close>

fun accept_loop :: "trial_error option list \<Rightarrow> second_server \<Rightarrow> trial_error option \<times> second_server" where
  "accept_loop [] s = (if sock_open s then Some Already_Open else None, s)"
| "accept_loop (r # rs) s =
     (if sock_open s then (Some Already_Open, s)
      else case r of
        Some e \<Rightarrow> (Some e, s)
      | None \<Rightarrow> accept_loop rs (s\<lparr>sock_open := True\<rparr>))"

definition accept_one :: "second_answers \<Rightarrow> second_server \<Rightarrow> trial_error option \<times> second_server" where
  "accept_one net s =
     (case resolve_fails net of Some e \<Rightarrow> (Some e, s) | None \<Rightarrow>
      if receiver_open s then (Some Already_Open, s)
      else case open_fails net of Some e \<Rightarrow> (Some e, s) | None \<Rightarrow>
      let s = s\<lparr>receiver_open := True\<rparr> in
      case option_fails net of Some e \<Rightarrow> (Some e, s) | None \<Rightarrow>
      case bind_fails net of Some e \<Rightarrow> (Some e, s) | None \<Rightarrow>
      case listen_fails net of Some e \<Rightarrow> (Some e, s) | None \<Rightarrow>
      accept_loop (accept_results net) s)"

text \<open>
No server accepts a client: its constructor has opened the acceptor, and \<open>accept_one\<close> throws when
it opens it again. Were it not open, one client would be accepted and the next accept would throw.
\<close>

lemma accept_one_throws:
  "second_server_start listening = Inr s \<Longrightarrow>
     accept_one net s = (Some (case resolve_fails net of Some e \<Rightarrow> e | None \<Rightarrow> Already_Open), s)"
  by (auto simp: second_server_start_def accept_one_def split: option.splits)

lemma accept_loop_once:
  "\<not> sock_open s \<Longrightarrow> accept_loop (None # rs) s = (Some Already_Open, s\<lparr>sock_open := True\<rparr>)"
  by (cases rs) simp_all

section \<open>The serialization programs\<close>

text \<open>A datagram takes its number from the counter of all, which it increments first (\<open>size_t\<close>).\<close>

record 'd datagram =
  datagram_seq :: nat
  datagram_data :: "'d list"

definition new_datagram :: "nat \<Rightarrow> 'd datagram \<times> nat" where
  "new_datagram counter =
     (let counter = (counter + 1) mod 2 ^ 64 in (\<lparr>datagram_seq = counter, datagram_data = []\<rparr>, counter))"

record srl_connection =
  srl_open :: bool
  srl_err :: "trial_error option"

definition new_srl_connection :: srl_connection where
  "new_srl_connection = \<lparr>srl_open = False, srl_err = None\<rparr>"

text \<open>
  The end points are tried in order until a connection succeeds; \<open>connect\<close> opens the socket. The
  functions \<open>connect\<close> and \<open>accept\<close> of the programs have no \<open>return\<close>: what they leave in the
  connection is modelled, or the exception, and not their result. Closing a socket does not fail.
\<close>

fun srl_connect_loop :: "('ep \<Rightarrow> trial_error option) \<Rightarrow> 'ep list \<Rightarrow> srl_connection \<Rightarrow> srl_connection" where
  "srl_connect_loop connect [] c = c"
| "srl_connect_loop connect (ep # eps) c =
     (if srl_err c \<noteq> None
      then srl_connect_loop connect eps (c\<lparr>srl_open := True, srl_err := connect ep\<rparr>)
      else c)"

definition srl_connect ::
    "trial_error + 'ep list \<Rightarrow> ('ep \<Rightarrow> trial_error option) \<Rightarrow> srl_connection \<Rightarrow> trial_error + srl_connection" where
  "srl_connect resolve connect c =
     bind_res resolve (\<lambda>eps. Inr (srl_connect_loop connect eps (c\<lparr>srl_err := Some Host_Not_Found\<rparr>)))"

text \<open>The connection is with the first end point that accepts; the last error remains without one.\<close>

lemma srl_connect_loop_err:
  "srl_err c \<noteq> None \<Longrightarrow>
     srl_err (srl_connect_loop connect eps c) =
       (if \<exists>ep \<in> set eps. connect ep = None then None else last (srl_err c # map connect eps))"
proof (induction eps arbitrary: c)
  case (Cons ep eps)
  then show ?case
  proof (cases "connect ep")
    case None
    have "srl_connect_loop connect eps (c\<lparr>srl_open := True, srl_err := None\<rparr>) = c\<lparr>srl_open := True, srl_err := None\<rparr>"
      by (cases eps) simp_all
    with None Cons.prems show ?thesis by simp
  next
    case (Some e)
    with Cons.prems Cons.IH [of "c\<lparr>srl_open := True, srl_err := connect ep\<rparr>"] show ?thesis by auto
  qed
qed simp

lemma srl_connect_err:
  "\<exists>c'. srl_connect (Inr eps) connect c = Inr c' \<and> (srl_err c' = None) = (\<exists>ep \<in> set eps. connect ep = None)"
  by (auto simp: srl_connect_def srl_connect_loop_err last_map)

text \<open>
  The acceptor is open from its constructor, so that the error of opening it again is stored, and
  then overwritten by the accept. The resolving, the option and \<open>listen\<close> may throw before.
\<close>

definition srl_accept ::
    "trial_error option \<Rightarrow> trial_error option \<Rightarrow> trial_error option \<Rightarrow> trial_error option \<Rightarrow> srl_connection \<Rightarrow>
     trial_error option \<times> srl_connection" where
  "srl_accept resolving setting listening accepting c =
     (case resolving of Some e \<Rightarrow> (Some e, c) | None \<Rightarrow>
      let c = c\<lparr>srl_err := Some Already_Open\<rparr> in
      case setting of Some e \<Rightarrow> (Some e, c) | None \<Rightarrow>
      case listening of Some e \<Rightarrow> (Some e, c) | None \<Rightarrow>
      (None,
       if srl_open c then c\<lparr>srl_err := Some Already_Open\<rparr>
       else case accepting of
         Some e \<Rightarrow> c\<lparr>srl_err := Some e\<rparr>
       | None \<Rightarrow> c\<lparr>srl_open := True, srl_err := None\<rparr>))"

text \<open>So the first call accepts a client, and after it every call fails.\<close>

lemma srl_accepts_one:
  "srl_accept None None None None new_srl_connection = (None, \<lparr>srl_open = True, srl_err = None\<rparr>)"
  "srl_open c \<Longrightarrow> srl_accept None None None accepting c = (None, c\<lparr>srl_err := Some Already_Open\<rparr>)"
  by (simp_all add: srl_accept_def new_srl_connection_def Let_def)

end
