(* ===== verification/Spec2Isabelle.thy ===== *)
theory Spec2Isabelle
  imports HttpServer ServiceQueue StockService ServiceBridge PosixMain EchoExample LockfreeCount
    LockGuard ThreadPool RequestShape Programs SharedPointers WorkerMain BridgeMain TrialServers
begin

text \<open>
  A verification library for \<open>isaac_ros_service\<close>, a C++ project that is to serve ROS topics over
  TCP. The repository holds an HTTP server after a Boost example, the queues and messages of a
  service, a message connection with serialization, helpers, a server that reads a file of
  services, and small programs that try out threads and sockets. The models are translated
  from these sources; paths below are relative to \<open>src/\<close>.

  \<^bold>\<open>How C++ is modelled.\<close> A struct or class is a record, an enumeration a datatype, and a member
  function a function from the state to the state. Texts are lists of characters with the
  signed \<open>char\<close> of x86-64 Linux (\<open>Prelude\<close>); \<open>int\<close> is \<open>int\<close> with explicit overflow, \<open>size_t\<close> is
  \<open>nat\<close> with the wrap-around written out, and the atomic counters of \<open>LockfreeCount\<close> are words of
  32 bits. A result that may be undefined behaviour or an exception is a sum, with the error on
  the left. Asynchronous operations are pending operations with completion events; threads
  are program points, and a step relation interleaves them. What the code leaves
  uninitialised is an argument of the model. Files, the network, the Boost archive, the
  lock-free queue and the price type of the stock example are parameters; where a property
  needs something of them it is a named contract: \<open>archive\<close>, \<open>push_pop_queue\<close>, or an assumption.

  \<^bold>\<open>The HTTP server\<close> (\<open>full_server/\<close>).
  \<^item> \<open>RequestParser\<close>: \<open>request_parser.cpp\<close>, the state machine of \<open>consume\<close> and the loop of \<open>parse\<close>.
    \<open>RequestGrammar\<close> gives the language it accepts and printing with its inverse;
    \<open>RequestSafety\<close> where it can overflow and what it never reads; \<open>RequestShape\<close> the
    characters that the parts of a request can hold.
  \<^item> \<open>MimeTypes\<close> and \<open>HttpReply\<close>: \<open>mime_types.cpp\<close> and \<open>reply.cpp\<close>, with the buffers of a
    gather-write, which point into the reply.
  \<^item> \<open>RequestHandler\<close>: \<open>request_handler.cpp\<close>. \<open>HandlerSpec\<close> says what \<open>url_decode\<close> accepts, that
    no request leaves the document root, and what the client reads on every branch.
  \<^item> \<open>HttpConnection\<close>: \<open>connection.cpp\<close>, one connection and its events. Its invariant holds on
    every sequence of events. \<open>ConnectionProgress\<close>: with a stream that decides the parser every
    exchange on a network that does not fail is bounded, and ends with the whole reply.
  \<^item> \<open>HttpServer\<close>: \<open>server.cpp\<close>, accepts and connections interleaved, a handler being one step.
    Connection objects have addresses, and the shared pointer to the next one holds an address, so
    that each client having an object of its own is a theorem. \<open>request_always_served\<close> joins parser, handler, reply and connection.
  \<^item> \<open>HttpThreads\<close>: the pool of threads of \<open>server::run\<close>. Completed operations are posted, and the
    threads run the handlers piece by piece on the shared connections, one at a time for each
    strand. It is simulated by the whole handlers of \<open>HttpServer\<close>, which carries the safety of
    \<open>HttpConnection\<close> over to the threads. \<open>PoolProgress\<close>: the threads handle all that is posted without
    help of the network, and each thread has at most five steps left after a stop.
  \<^item> \<open>PosixMain\<close>: \<open>posix_main.cpp\<close>, arguments, signal masks, and the shutdown with the end of the
    threads.

  \<^bold>\<open>The service\<close> (\<open>src/\<close>, \<open>helpers/\<close>, \<open>test/test01_server.cpp\<close>).
  \<^item> \<open>ConcQueue\<close>: \<open>concurrent_queue\<close> of \<open>src/Connection.hpp\<close>, with each access to the lock, the queue
    and the condition variable as a step; linearizability, mutual exclusion, no lost wakeup.
    \<open>QueueCalls\<close> runs whole calls of one thread, proves the contract \<open>fifo_queue\<close> (an extension
    of \<open>push_pop_queue\<close>) for them, and that \<open>clear\<close> ends in every interleaving, unless the other
    threads push for ever.
  \<^item> \<open>ServiceQueue\<close>: messages and the two queues of a service, which rest on that contract, and
    the status of a client connection (\<open>src/Connection.cpp\<close>).
  \<^item> \<open>Helpers\<close>: \<open>helper.cpp\<close> and \<open>helper.hpp\<close>, the splitting of lines against plain splitting.
  \<^item> \<open>ServiceBridge\<close>: the reading of a file of services, the plan of the threads, and what is
    written of the serving (\<open>serve_loop\<close> is a \<open>partial_function\<close>, and never returns).
    \<open>BridgeMain\<close>: its \<open>main\<close>, which looks at the threads while they end: what it prints, and that
    it may end before them.

  \<^bold>\<open>Serialization\<close> (\<open>ex_serialization/\<close>).
  \<^item> \<open>Serialization\<close>: \<open>connection.hpp\<close>, frames of a header with the length in hexadecimal and the
    data; round trip, and the headers by which the other end breaks a reader.
  \<^item> \<open>StockService\<close>: \<open>stock.hpp\<close>, \<open>server.cpp\<close>, \<open>client.cpp\<close>, on top of it.

  \<^bold>\<open>Examples\<close> (\<open>example/\<close>, \<open>src/IP.cpp\<close>).
  \<^item> \<open>EchoExample\<close>: the blocking echo server and client, and the address of the host.
  \<^item> \<open>Programs\<close>: the functions \<open>main\<close> of the echo and stock programs, and the status they return.
  \<^item> \<open>LockfreeCount\<close>: producers and consumers that count; the counts agree in every interleaving,
    for every queue that satisfies \<open>push_pop_queue\<close>. The locale is interpreted on lists and on
    the calls of \<open>concurrent_queue\<close>.
  \<^item> \<open>LockGuard\<close>, \<open>ThreadPool\<close>: every interleaving ends, within 107 and 29 steps, and what it prints.

  \<^bold>\<open>Trial programs\<close> (\<open>test/\<close>).
  \<^item> \<open>SharedPointers\<close>: \<open>shared.cpp\<close>, with the heap, the reference counts and the deletions explicit.
  \<^item> \<open>Workers\<close>: \<open>b_thread.cpp\<close>, workers between two \<open>concurrent_queue\<close>s, on the steps and the invariant
    of \<open>ConcQueue\<close>: what they push out is what they took, doubled and in order, and when they can sleep.
    \<open>WorkerMain\<close>: its \<open>main\<close>, which makes no worker, and ends.
  \<^item> \<open>TrialServers\<close>: \<open>test02_server.cpp\<close> (its accept loop; the rest repeats \<open>test01_server.cpp\<close>),
    \<open>srl_client.cpp\<close>, \<open>srl_server.cpp\<close> and the datagrams of \<open>srl_struct.hpp\<close>.

  \<^bold>\<open>Shared theories.\<close> \<open>Prelude\<close> holds errors, characters, counting along lists, the reachable states
  of a step relation, and four contracts: \<open>invariant_system\<close>, which \<open>HttpConnection\<close>, \<open>ConcQueue\<close>,
  \<open>LockfreeCount\<close>, \<open>PoolProgress\<close>, \<open>PosixMain\<close> and \<open>Workers\<close> interpret with their invariants;
  \<open>ending_system\<close>, a bounded number of steps none of which is missing before the end, which
  \<open>ConnectionProgress\<close>, \<open>PoolProgress\<close>, \<open>PosixMain\<close>, \<open>BridgeMain\<close> and \<open>WorkerMain\<close> interpret;
  \<open>simulation\<close>, which \<open>HttpThreads\<close> interprets; and \<open>byte_machine\<close>, which the parser interprets, so
  that the cut of the input into packets does not matter. \<open>StdText\<close> holds what the code uses of
  the standard library on texts: numbers to texts and back, and searching.

  \<^bold>\<open>Bounds and fuel.\<close> Loops are recursive functions with termination proofs. \<open>alone\<close> of
  \<open>QueueCalls\<close> has fuel: four steps are a call of \<open>push\<close> or \<open>try_pop\<close>, and seven for each item with
  three more a call of \<open>clear\<close>; the contract shows that they are enough. Among other threads the
  steps of \<open>clear\<close> itself are counted the same way, with the items that are pushed meanwhile. The numbers of the
  code (a buffer of 8192 bytes, headers of 8, chunks of 512) are its own.

  \<^bold>\<open>Not modelled.\<close> Name resolution and the opening of sockets, which are library calls.
  \<open>Connection::try_read_bytes\<close>, \<open>read\<close> and \<open>write\<close>, whose bodies are incomplete and do not compile,
  and the templates \<open>is_nan\<close> and \<open>erase\<close> of \<open>helper.hpp\<close>, which do not compile when they are used.
  Of the trial programs of \<open>test/\<close>: \<open>bus_routes.cpp\<close>, a tutorial of Boost; the functions of
  \<open>test02_server.cpp\<close> whose text is that of \<open>test01_server.cpp\<close>; the reading and writing of objects in
  \<open>srl_struct.hpp\<close>, templates that do not compile when they are used. What the debug flag prints; and the build files. How the pieces of one
  line mix on \<open>std::cout\<close> when several threads print.
\<close>

end
